(* ===== verification/Prelude.thy ===== *)
theory Prelude
  imports Main "HOL-Library.Word"
begin

text \<open>
  Shared vocabulary of the development: bytes, the outcomes of a C++ call (a value, a C++
  exception, or undefined behaviour), sequencing of such calls, \<open>size_t\<close> arithmetic, and the
  generic facts about lists that the component theories use.
\<close>

section \<open>Outcomes of a call\<close>

type_synonym byte = "8 word"

text \<open>The bytes of a string literal.\<close>

definition str_bytes :: "string \<Rightarrow> byte list" where
  "str_bytes s = map of_char s"

lemma length_str_bytes [simp]: "length (str_bytes s) = length s"
  by (simp add: str_bytes_def)

lemma str_bytes_Nil_iff [simp]: "str_bytes s = [] \<longleftrightarrow> s = []"
  by (simp add: str_bytes_def)

text \<open>
  The first group of constructors are C++ exceptions, which a \<open>try\<close> block can catch; the second
  group are undefined behaviours, which no \<open>catch\<close> sees (in practice: a crash).
\<close>

datatype error =
    Out_of_range        \<comment> \<open>\<open>std::out_of_range\<close>\<close>
  | Length_error        \<comment> \<open>\<open>std::length_error\<close>\<close>
  | Invalid_argument    \<comment> \<open>\<open>std::invalid_argument\<close>\<close>
  | Runtime_error       \<comment> \<open>\<open>std::runtime_error\<close>\<close>
  | User_exception      \<comment> \<open>whatever a registered function throws\<close>
  | Terminate_called    \<comment> \<open>\<open>std::terminate\<close>\<close>
  | Null_deref          \<comment> \<open>dereference of a null pointer\<close>
  | Heap_overflow       \<comment> \<open>access outside an allocated block\<close>
  | Div_by_zero         \<comment> \<open>integer division or modulo by zero\<close>
  | Use_after_free      \<comment> \<open>access to, or a second \<open>delete\<close> of, a block already freed\<close>
  | Indeterminate       \<comment> \<open>use of the value of memory never written\<close>

fun is_exception :: "error \<Rightarrow> bool" where
  "is_exception Out_of_range = True"
| "is_exception Length_error = True"
| "is_exception Invalid_argument = True"
| "is_exception Runtime_error = True"
| "is_exception User_exception = True"
| "is_exception _ = False"

type_synonym 'a outcome = "error + 'a"

definition rbind :: "'a outcome \<Rightarrow> ('a \<Rightarrow> 'b outcome) \<Rightarrow> 'b outcome" where
  "rbind m f = (case m of Inl e \<Rightarrow> Inl e | Inr x \<Rightarrow> f x)"

named_theorems outcome_simps "sequencing of calls that may fail"

lemma rbind_Inl [simp, outcome_simps]: "rbind (Inl e) f = Inl e"
  by (simp add: rbind_def)

lemma rbind_Inr [simp, outcome_simps]: "rbind (Inr x) f = f x"
  by (simp add: rbind_def)

lemma rbind_eq_Inr_iff [outcome_simps]:
  "rbind m f = Inr y \<longleftrightarrow> (\<exists>x. m = Inr x \<and> f x = Inr y)"
  by (cases m) auto

lemma rbind_eq_Inl_iff:
  "rbind m f = Inl e \<longleftrightarrow> m = Inl e \<or> (\<exists>x. m = Inr x \<and> f x = Inl e)"
  by (cases m) auto

lemma rbind_assoc: "rbind (rbind m f) g = rbind m (\<lambda>x. rbind (f x) g)"
  by (cases m) auto

lemma rbind_cong [fundef_cong]:
  "m = m' \<Longrightarrow> (\<And>x. m' = Inr x \<Longrightarrow> f x = f' x) \<Longrightarrow> rbind m f = rbind m' f'"
  by (cases m') auto

section \<open>Arithmetic on \<open>size_t\<close>\<close>

text \<open>
  Sizes and positions are natural numbers. A subtraction of \<open>size_t\<close> values that goes below zero
  wraps around at \<open>2 ^ 64\<close>, which the model writes out.
\<close>

definition usub :: "nat \<Rightarrow> nat \<Rightarrow> nat" where
  "usub a b = (if b \<le> a then a - b else a + 2 ^ 64 - b)"

lemma usub_le [simp]: "b \<le> a \<Longrightarrow> usub a b = a - b"
  by (simp add: usub_def)

lemma ceil_div_le:
  fixes n d :: nat
  assumes "0 < d"
  shows "n \<le> d * ((n + d - 1) div d)"
proof -
  have "d * ((n + d - 1) div d) + (n + d - 1) mod d = n + d - 1"
    by (rule mult_div_mod_eq)
  moreover have "(n + d - 1) mod d < d"
    using assms by simp
  ultimately show ?thesis by linarith
qed

section \<open>Overwriting a segment of a list\<close>

definition overlay :: "'a list \<Rightarrow> nat \<Rightarrow> 'a list \<Rightarrow> 'a list" where
  "overlay xs i ys = take i xs @ ys @ drop (i + length ys) xs"

named_theorems overlay_simps "overwriting a segment"

lemma length_overlay [simp]:
  "i + length ys \<le> length xs \<Longrightarrow> length (overlay xs i ys) = length xs"
  by (simp add: overlay_def)

lemma overlay_Nil [simp]: "overlay xs i [] = xs"
  by (simp add: overlay_def)

lemma overlay_append_left [overlay_simps]:
  "i + length zs \<le> length xs \<Longrightarrow> overlay (xs @ ys) i zs = overlay xs i zs @ ys"
  by (simp add: overlay_def)

lemma overlay_append_right [overlay_simps]:
  "length xs \<le> i \<Longrightarrow> overlay (xs @ ys) i zs = xs @ overlay ys (i - length xs) zs"
  by (simp add: overlay_def Suc_diff_le add.commute)

lemma overlay_overlay:
  assumes "i + length ys + length zs \<le> length xs"
  shows "overlay (overlay xs i ys) (i + length ys) zs = overlay xs i (ys @ zs)"
  using assms by (simp add: overlay_def ac_simps)

lemma take_overlay: "i + length ys \<le> length xs \<Longrightarrow> take i (overlay xs i ys) = take i xs"
  by (simp add: overlay_def)

lemma drop_overlay:
  "i + length ys \<le> length xs \<Longrightarrow> drop (i + length ys) (overlay xs i ys) = drop (i + length ys) xs"
  by (simp add: overlay_def)

section \<open>Concatenation of blocks of one size\<close>

lemma length_concat_blocks:
  "(\<And>x. x \<in> set xs \<Longrightarrow> length x = k) \<Longrightarrow> length (concat xs) = k * length xs"
  by (induction xs) auto

lemma concat_update_overlay:
  assumes "\<And>x. x \<in> set xs \<Longrightarrow> length x = k" and "i < length xs" and "j + length ys \<le> k"
  shows "concat (xs[i := overlay (xs ! i) j ys]) = overlay (concat xs) (k * i + j) ys"
  using assms
proof (induction xs arbitrary: i)
  case Nil
  then show ?case by simp
next
  case (Cons x xs)
  have x: "length x = k" using Cons.prems by simp
  show ?case
  proof (cases i)
    case 0
    then show ?thesis
      using Cons.prems x by (simp add: overlay_append_left)
  next
    case (Suc i')
    then have "concat (xs[i' := overlay (xs ! i') j ys]) = overlay (concat xs) (k * i' + j) ys"
      using Cons.IH [of i'] Cons.prems by simp
    then show ?thesis
      using Suc x by (simp add: overlay_append_right)
  qed
qed

lemma take_drop_block:
  assumes "\<And>x. x \<in> set xs \<Longrightarrow> length x = k" and "i < length xs" and "j + n \<le> k"
  shows "take n (drop j (xs ! i)) = take n (drop (k * i + j) (concat xs))"
  using assms
proof (induction xs arbitrary: i)
  case Nil
  then show ?case by simp
next
  case (Cons x xs)
  have x: "length x = k" using Cons.prems by simp
  show ?case
    using Cons.IH Cons.prems x by (cases i) auto
qed

lemma take_add_drop: "take (m + n) (drop k xs) = take m (drop k xs) @ take n (drop (k + m) xs)"
  by (simp add: take_add add.commute)

end
