(* ===== verification/Endian.thy ===== *)
theory Endian
  imports Prelude
begin

text \<open>
  Byte order (\<open>byte_swap\<close> and \<open>endian_cast\<close> of \<open>include/base/util.h\<close>): the memory image of an
  integer on a machine of either byte order, and the swap that turns one image into the other.
\<close>

unbundle bit_operations_syntax

section \<open>Memory images of integers\<close>

datatype endian = Little | Big

definition le_bytes :: "'a::len word \<Rightarrow> byte list" where
  "le_bytes w = map (\<lambda>i. ucast (drop_bit (8 * i) w)) [0..<LENGTH('a) div 8]"

fun of_le :: "byte list \<Rightarrow> 'a::len word" where
  "of_le [] = 0"
| "of_le (b # bs) = ucast b OR push_bit 8 (of_le bs)"

definition mem_bytes :: "endian \<Rightarrow> 'a::len word \<Rightarrow> byte list" where
  "mem_bytes e w = (case e of Little \<Rightarrow> le_bytes w | Big \<Rightarrow> rev (le_bytes w))"

definition of_mem :: "endian \<Rightarrow> byte list \<Rightarrow> 'a::len word" where
  "of_mem e bs = (case e of Little \<Rightarrow> of_le bs | Big \<Rightarrow> of_le (rev bs))"

lemma length_le_bytes [simp]: "length (le_bytes (w :: 'a::len word)) = LENGTH('a) div 8"
  by (simp add: le_bytes_def)

lemma length_mem_bytes [simp]: "length (mem_bytes e (w :: 'a::len word)) = LENGTH('a) div 8"
  by (cases e) (simp_all add: mem_bytes_def)

lemma bit_of_le:
  "bit (of_le bs :: 'a::len word) n \<longleftrightarrow>
     n < LENGTH('a) \<and> n div 8 < length bs \<and> bit (bs ! (n div 8)) (n mod 8)"
proof (induction bs arbitrary: n)
  case Nil
  then show ?case by simp
next
  case (Cons b bs)
  show ?case
  proof (cases "n < 8")
    case True
    then show ?thesis
      by (auto simp: bit_or_iff bit_push_bit_iff bit_ucast_iff)
  next
    case False
    then have "n div 8 = Suc ((n - 8) div 8)" "n mod 8 = (n - 8) mod 8"
      by (simp_all add: le_div_geq le_mod_geq)
    moreover have "\<not> bit b n"
      using False bit_imp_le_length [of b n] by auto
    ultimately show ?thesis
      using False Cons.IH [of "n - 8"]
      by (auto simp: bit_or_iff bit_push_bit_iff bit_ucast_iff)
  qed
qed

lemma of_le_le_bytes:
  assumes "8 dvd LENGTH('a::len)"
  shows "of_le (le_bytes (w :: 'a word)) = w"
proof (rule bit_word_eqI)
  fix n assume n: "n < LENGTH('a)"
  have "n div 8 < LENGTH('a) div 8"
    using assms n by (simp add: div_less_iff_less_mult dvd_div_mult_self)
  moreover have "8 * (n div 8) + n mod 8 = n" by simp
  ultimately show "bit (of_le (le_bytes w) :: 'a word) n \<longleftrightarrow> bit w n"
    using n by (simp add: bit_of_le le_bytes_def bit_ucast_iff bit_drop_bit_eq)
qed

lemma le_bytes_of_le:
  assumes "length bs = LENGTH('a::len) div 8"
  shows "le_bytes (of_le bs :: 'a word) = bs"
proof (rule nth_equalityI)
  show "length (le_bytes (of_le bs :: 'a word)) = length bs" using assms by simp
next
  fix i assume "i < length (le_bytes (of_le bs :: 'a word))"
  then have i: "i < length bs" "i < LENGTH('a) div 8" using assms by auto
  have "8 * i + 7 < LENGTH('a)" using i(2) by auto
  then show "le_bytes (of_le bs :: 'a word) ! i = bs ! i"
    using i by (intro bit_word_eqI)
      (auto simp: le_bytes_def bit_ucast_iff bit_drop_bit_eq bit_of_le div_add1_eq)
qed

lemma of_mem_mem_bytes:
  assumes "8 dvd LENGTH('a::len)"
  shows "of_mem e (mem_bytes e (w :: 'a word)) = w"
  using of_le_le_bytes [OF assms, of w]
  by (cases e) (simp_all add: of_mem_def mem_bytes_def)

lemma mem_bytes_of_mem:
  assumes "length bs = LENGTH('a::len) div 8"
  shows "mem_bytes e (of_mem e bs :: 'a word) = bs"
  using assms le_bytes_of_le [of bs, where 'a = 'a] le_bytes_of_le [of "rev bs", where 'a = 'a]
  by (cases e) (simp_all add: of_mem_def mem_bytes_def)

section \<open>Swapping\<close>

text \<open>The \<open>bswap_16\<close>, \<open>bswap_32\<close> and \<open>bswap_64\<close> macros of the C library: bytes in reverse order.\<close>

definition bswap :: "'a::len word \<Rightarrow> 'a word" where
  "bswap w = of_le (rev (le_bytes w))"

text \<open>
  \<open>byte_swap<T>\<close> chooses the macro by \<open>sizeof(T)\<close>; a one-byte value is widened to 16 bits first
  (with its sign, when \<open>T\<close> is signed), swapped and narrowed again.
\<close>

definition byte_swap :: "bool \<Rightarrow> 'a::len word \<Rightarrow> 'a word" where
  "byte_swap sg w =
     (if LENGTH('a) = 8 then ucast (bswap (if sg then scast w else ucast w :: 16 word))
      else if LENGTH('a) = 16 then ucast (bswap (ucast w :: 16 word))
      else if LENGTH('a) = 32 then ucast (bswap (ucast w :: 32 word))
      else if LENGTH('a) = 64 then ucast (bswap (ucast w :: 64 word))
      else w)"

definition native_endian :: endian where
  "native_endian = Little"

definition endian_cast :: "bool \<Rightarrow> 'a::len word \<Rightarrow> 'a word" where
  "endian_cast sg w =
     (if LENGTH('a) = 8 \<or> native_endian = Big then w else byte_swap sg w)"

lemma le_bytes_ucast:
  assumes "LENGTH('a::len) = LENGTH('b::len)"
  shows "le_bytes (ucast (w :: 'a word) :: 'b word) = le_bytes w"
  using assms
  by (auto simp: le_bytes_def intro!: bit_word_eqI simp: bit_ucast_iff bit_drop_bit_eq
      dest: bit_imp_le_length)

lemma le_bytes_bswap: "le_bytes (bswap w) = rev (le_bytes w)"
  unfolding bswap_def by (rule le_bytes_of_le) simp

lemma le_bytes_byte_swap:
  assumes "LENGTH('a::len) \<in> {16, 32, 64}"
  shows "le_bytes (byte_swap sg (w :: 'a word)) = rev (le_bytes w)"
proof -
  consider "LENGTH('a) = 16" | "LENGTH('a) = 32" | "LENGTH('a) = 64" using assms by auto
  then show ?thesis
    by cases (simp_all add: byte_swap_def le_bytes_ucast le_bytes_bswap)
qed

text \<open>The image written is the one of the requested order, whatever the machine's own order.\<close>

lemma mem_bytes_byte_swap:
  assumes "LENGTH('a::len) \<in> {16, 32, 64}" and "e \<noteq> native"
  shows "mem_bytes native (byte_swap sg (w :: 'a word)) = mem_bytes e w"
  using assms by (cases e; cases native) (simp_all add: mem_bytes_def le_bytes_byte_swap)

lemma byte_swap_involution:
  assumes "LENGTH('a::len) \<in> {16, 32, 64}"
  shows "byte_swap s (byte_swap t (w :: 'a word)) = w"
proof -
  have "8 dvd LENGTH('a)" using assms by auto
  moreover have "le_bytes (byte_swap s (byte_swap t w)) = le_bytes w"
    using assms by (simp add: le_bytes_byte_swap)
  ultimately show ?thesis by (metis of_le_le_bytes)
qed

text \<open>The one-byte case loses the value: only the widened high byte is left.\<close>

lemma byte_swap_byte: "byte_swap False (w :: byte) = 0"
proof -
  have "bit (bswap (ucast w :: 16 word)) n = False" if "n < 8" for n
    using that
    by (auto simp: bswap_def bit_of_le le_bytes_def bit_ucast_iff bit_drop_bit_eq rev_nth
        dest: bit_imp_le_length)
  then show ?thesis
    by (intro bit_word_eqI) (simp add: byte_swap_def bit_ucast_iff)
qed

end
