(* ===== verification/ByteArray.thy ===== *)
theory ByteArray
  imports Endian
begin

text \<open>
  The growable byte buffer of \<open>include/base/ByteArray.h\<close> and \<open>src/base/ByteArray.cpp\<close>: a singly
  linked chain of memory blocks of one size, a current position and a pointer to the block the
  position lies in.

  The chain starting at \<open>root_\<close> is a list of nodes; a node pointer is an index into it, the
  successor of index \<open>i\<close> is \<open>Suc i\<close>, and the length of the list is the null pointer (the code only
  appends to the chain and truncates it after its root, so the addresses of a chain are its
  indices; theory \<open>BlockHeap\<close> has the nodes in memory). A memory cell is \<open>None\<close> until it has been written. Dereferencing the null pointer and
  copying beyond a block are explicit errors.
\<close>

section \<open>Data\<close>

type_synonym cell = "byte option"

record node =
  node_mem :: "cell list"
  node_size :: nat

record byte_array =
  ba_base :: nat
  ba_pos :: nat
  ba_cap :: nat
  ba_size :: nat
  ba_endian :: endian
  ba_nodes :: "node list"
  ba_cur :: nat

record iovec =
  iov_block :: nat
  iov_off :: nat
  iov_len :: nat

definition new_node :: "nat \<Rightarrow> node" where
  "new_node s = \<lparr>node_mem = replicate s None, node_size = s\<rparr>"

definition new_byte_array :: "nat \<Rightarrow> byte_array" where
  "new_byte_array base =
     \<lparr>ba_base = base, ba_pos = 0, ba_cap = base, ba_size = 0, ba_endian = Big,
      ba_nodes = [new_node base], ba_cur = 0\<rparr>"

definition isLittleEndian :: "byte_array \<Rightarrow> bool" where
  "isLittleEndian b \<longleftrightarrow> ba_endian b = Little"

definition setIsLittleEndian :: "bool \<Rightarrow> byte_array \<Rightarrow> byte_array" where
  "setIsLittleEndian v b = b\<lparr>ba_endian := (if v then Little else Big)\<rparr>"

definition getReadSize :: "byte_array \<Rightarrow> nat" where
  "getReadSize b = usub (ba_size b) (ba_pos b)"

definition getCapacity :: "byte_array \<Rightarrow> nat" where
  "getCapacity b = usub (ba_cap b) (ba_pos b)"

section \<open>Access to the blocks\<close>

definition node_at :: "node list \<Rightarrow> nat \<Rightarrow> node outcome" where
  "node_at ns i = (if i < length ns then Inr (ns ! i) else Inl Null_deref)"

text \<open>\<open>memcpy\<close> into a block and out of a block.\<close>

definition store :: "nat \<Rightarrow> nat \<Rightarrow> byte list \<Rightarrow> byte_array \<Rightarrow> byte_array outcome" where
  "store i off bs b =
     rbind (node_at (ba_nodes b) i) (\<lambda>n.
       if off + length bs \<le> length (node_mem n)
       then Inr (b\<lparr>ba_nodes := (ba_nodes b)[i := n\<lparr>node_mem := overlay (node_mem n) off (map Some bs)\<rparr>]\<rparr>)
       else Inl Heap_overflow)"

definition fetch :: "node list \<Rightarrow> nat \<Rightarrow> nat \<Rightarrow> nat \<Rightarrow> cell list outcome" where
  "fetch ns i off n =
     rbind (node_at ns i) (\<lambda>nd.
       if off + n \<le> length (node_mem nd) then Inr (take n (drop off (node_mem nd)))
       else Inl Heap_overflow)"

text \<open>Using copied memory as a value needs every byte of it to have been written.\<close>

definition load :: "cell list \<Rightarrow> byte list outcome" where
  "load cs = (if None \<in> set cs then Inl Indeterminate else Inr (map the cs))"

text \<open>The opening lines of the copying operations: \<open>npos\<close> and \<open>ncap\<close>.\<close>

definition locate :: "byte_array \<Rightarrow> nat \<Rightarrow> (nat \<times> nat) outcome" where
  "locate b p =
     (if ba_base b = 0 then Inl Div_by_zero
      else rbind (node_at (ba_nodes b) (ba_cur b)) (\<lambda>n.
        Inr (p mod ba_base b, usub (node_size n) (p mod ba_base b))))"

section \<open>Growing\<close>

fun grow :: "nat \<Rightarrow> byte_array \<Rightarrow> byte_array" where
  "grow 0 b = b"
| "grow (Suc n) b =
     grow n (b\<lparr>ba_nodes := ba_nodes b @ [new_node (ba_base b)], ba_cap := ba_cap b + ba_base b\<rparr>)"

text \<open>
  \<open>count = ceil(1.0 * size / baseSize_)\<close> is the exact ceiling: the quotient is computed in double
  precision, which represents every size below \<open>2 ^ 53\<close> and rounds the quotient of such a size to
  an integer only if it is one.
\<close>

definition addCapacity :: "nat \<Rightarrow> byte_array \<Rightarrow> byte_array outcome" where
  "addCapacity sz b =
     (if sz = 0 then Inr b
      else let old_cap = getCapacity b in
        if sz \<le> old_cap then Inr b
        else if ba_base b = 0 then Inl Div_by_zero
        else let sz' = sz - old_cap;
                 count = (sz' + ba_base b - 1) div ba_base b;
                 first = length (ba_nodes b);
                 b' = grow count b
             in Inr (if old_cap = 0 then b'\<lparr>ba_cur := first\<rparr> else b'))"

section \<open>Writing\<close>

lemma store_frame:
  assumes "store i off bs b = Inr b'"
  shows "length (ba_nodes b') = length (ba_nodes b)" "ba_cur b' = ba_cur b"
    "ba_pos b' = ba_pos b" "ba_size b' = ba_size b" "ba_cap b' = ba_cap b"
    "ba_base b' = ba_base b" "ba_endian b' = ba_endian b"
  using assms by (auto simp: store_def rbind_eq_Inr_iff split: if_splits)

lemma node_at_Inr [simp]: "node_at ns i = Inr n \<longleftrightarrow> i < length ns \<and> n = ns ! i"
  by (auto simp: node_at_def)

function write_loop :: "byte list \<Rightarrow> nat \<Rightarrow> nat \<Rightarrow> byte_array \<Rightarrow> byte_array outcome" where
  "write_loop buf npos ncap b =
     (if buf = [] then Inr b
      else if length buf \<le> ncap then
        rbind (store (ba_cur b) npos buf b) (\<lambda>b1.
        rbind (node_at (ba_nodes b1) (ba_cur b1)) (\<lambda>n.
          Inr (b1\<lparr>ba_cur := (if node_size n = npos + length buf then Suc (ba_cur b1) else ba_cur b1),
                  ba_pos := ba_pos b1 + length buf\<rparr>)))
      else
        rbind (store (ba_cur b) npos (take ncap buf) b) (\<lambda>b1.
        rbind (node_at (ba_nodes b1) (Suc (ba_cur b1))) (\<lambda>n.
          write_loop (drop ncap buf) 0 (node_size n)
            (b1\<lparr>ba_pos := ba_pos b1 + ncap, ba_cur := Suc (ba_cur b1)\<rparr>))))"
  by pat_completeness auto
termination
  by (relation "measure (\<lambda>(buf, npos, ncap, b). length buf + (length (ba_nodes b) - ba_cur b))")
     (auto simp: store_def rbind_eq_Inr_iff split: if_splits)

declare write_loop.simps [simp del]

definition ba_write :: "byte list \<Rightarrow> byte_array \<Rightarrow> byte_array outcome" where
  "ba_write buf b =
     (if buf = [] then Inr b
      else rbind (addCapacity (length buf) b) (\<lambda>b1.
           rbind (locate b1 (ba_pos b1)) (\<lambda>(npos, ncap).
           rbind (write_loop buf npos ncap b1) (\<lambda>b2.
             Inr (if ba_size b2 < ba_pos b2 then b2\<lparr>ba_size := ba_pos b2\<rparr> else b2)))))"

section \<open>Reading\<close>

text \<open>
  The copying loop of both \<open>read\<close> overloads; the first runs it on the members \<open>position_\<close> and
  \<open>cur_\<close>, the second on local copies.
\<close>

function read_loop ::
    "node list \<Rightarrow> nat \<Rightarrow> nat \<Rightarrow> nat \<Rightarrow> nat \<Rightarrow> nat \<Rightarrow> (cell list \<times> nat \<times> nat) outcome" where
  "read_loop ns sz npos ncap pos cur =
     (if sz = 0 then Inr ([], pos, cur)
      else if sz \<le> ncap then
        rbind (fetch ns cur npos sz) (\<lambda>cs.
        rbind (node_at ns cur) (\<lambda>n.
          Inr (cs, pos + sz, if node_size n = npos + sz then Suc cur else cur)))
      else
        rbind (fetch ns cur npos ncap) (\<lambda>cs.
        rbind (node_at ns (Suc cur)) (\<lambda>n.
        rbind (read_loop ns (sz - ncap) 0 (node_size n) (pos + ncap) (Suc cur)) (\<lambda>(cs', pos', cur').
          Inr (cs @ cs', pos', cur')))))"
  by pat_completeness auto
termination
  by (relation "measure (\<lambda>(ns, sz, npos, ncap, pos, cur). length ns - cur)") auto

declare read_loop.simps [simp del]

definition raw_read :: "nat \<Rightarrow> byte_array \<Rightarrow> (cell list \<times> byte_array) outcome" where
  "raw_read n b =
     (if getReadSize b < n then Inl Out_of_range
      else rbind (locate b (ba_pos b)) (\<lambda>(npos, ncap).
           rbind (read_loop (ba_nodes b) n npos ncap (ba_pos b) (ba_cur b)) (\<lambda>(cs, pos', cur').
             Inr (cs, b\<lparr>ba_pos := pos', ba_cur := cur'\<rparr>))))"

definition ba_read :: "nat \<Rightarrow> byte_array \<Rightarrow> (byte list \<times> byte_array) outcome" where
  "ba_read n b = rbind (raw_read n b) (\<lambda>(cs, b'). rbind (load cs) (\<lambda>bs. Inr (bs, b')))"

definition readAt :: "nat \<Rightarrow> nat \<Rightarrow> byte_array \<Rightarrow> cell list outcome" where
  "readAt n p b =
     (if usub (ba_size b) p < n then Inl Out_of_range
      else rbind (locate b p) (\<lambda>(npos, ncap).
           rbind (read_loop (ba_nodes b) n npos ncap p (ba_cur b)) (\<lambda>(cs, _, _). Inr cs)))"

section \<open>Moving and clearing\<close>

function setpos_loop :: "node list \<Rightarrow> nat \<Rightarrow> nat \<Rightarrow> nat outcome" where
  "setpos_loop ns v cur =
     rbind (node_at ns cur) (\<lambda>n.
       if node_size n < v then setpos_loop ns (v - node_size n) (Suc cur)
       else Inr (if v = node_size n then Suc cur else cur))"
  by pat_completeness auto
termination
  by (relation "measure (\<lambda>(ns, v, cur). length ns - cur)") auto

declare setpos_loop.simps [simp del]

definition setPosition :: "nat \<Rightarrow> byte_array \<Rightarrow> byte_array outcome" where
  "setPosition v b =
     (if ba_cap b < v then Inl Out_of_range
      else rbind (setpos_loop (ba_nodes b) v 0) (\<lambda>cur.
        Inr (b\<lparr>ba_pos := v, ba_size := max v (ba_size b), ba_cur := cur\<rparr>)))"

definition clear :: "byte_array \<Rightarrow> byte_array" where
  "clear b = b\<lparr>ba_pos := 0, ba_size := 0, ba_cap := ba_base b,
               ba_nodes := take 1 (ba_nodes b), ba_cur := 0\<rparr>"

section \<open>Scatter/gather views\<close>

function iov_loop :: "node list \<Rightarrow> nat \<Rightarrow> nat \<Rightarrow> nat \<Rightarrow> nat \<Rightarrow> iovec list outcome" where
  "iov_loop ns len npos ncap cur =
     (if len = 0 then Inr []
      else if len \<le> ncap then Inr [\<lparr>iov_block = cur, iov_off = npos, iov_len = len\<rparr>]
      else rbind (node_at ns (Suc cur)) (\<lambda>n.
           rbind (iov_loop ns (len - ncap) 0 (node_size n) (Suc cur)) (\<lambda>iovs.
             Inr (\<lparr>iov_block = cur, iov_off = npos, iov_len = ncap\<rparr> # iovs))))"
  by pat_completeness auto
termination
  by (relation "measure (\<lambda>(ns, len, npos, ncap, cur). length ns - cur)") auto

declare iov_loop.simps [simp del]

definition getReadBuffers ::
    "iovec list \<Rightarrow> nat \<Rightarrow> byte_array \<Rightarrow> (iovec list \<times> nat) outcome" where
  "getReadBuffers buffers len b =
     (let len' = (if getReadSize b < len then getReadSize b else len) in
      if len' = 0 then Inr (buffers, 0)
      else rbind (locate b (ba_pos b)) (\<lambda>(npos, ncap).
           rbind (iov_loop (ba_nodes b) len' npos ncap (ba_cur b)) (\<lambda>iovs.
             Inr (buffers @ iovs, len'))))"

text \<open>
  The overload with an explicit start follows \<open>next_\<close> from the root \<open>position / baseSize_\<close> times
  and reads the size of the block it reaches.
\<close>

definition getReadBuffersAt ::
    "iovec list \<Rightarrow> nat \<Rightarrow> nat \<Rightarrow> byte_array \<Rightarrow> (iovec list \<times> nat) outcome" where
  "getReadBuffersAt buffers len p b =
     (let len' = (if getReadSize b < len then getReadSize b else len) in
      if len' = 0 then Inr (buffers, 0)
      else if ba_base b = 0 then Inl Div_by_zero
      else let npos = p mod ba_base b; count = p div ba_base b in
           rbind (node_at (ba_nodes b) count) (\<lambda>n.
           rbind (iov_loop (ba_nodes b) len' npos (usub (node_size n) npos) count) (\<lambda>iovs.
             Inr (buffers @ iovs, len'))))"

definition getWriteBuffers ::
    "iovec list \<Rightarrow> nat \<Rightarrow> byte_array \<Rightarrow> (iovec list \<times> nat \<times> byte_array) outcome" where
  "getWriteBuffers buffers len b =
     (if len = 0 then Inr (buffers, 0, b)
      else rbind (addCapacity len b) (\<lambda>b1.
           rbind (locate b1 (ba_pos b1)) (\<lambda>(npos, ncap).
           rbind (iov_loop (ba_nodes b1) len npos ncap (ba_cur b1)) (\<lambda>iovs.
             Inr (buffers @ iovs, len, b1)))))"

section \<open>Text and files\<close>

definition toString :: "byte_array \<Rightarrow> byte list outcome" where
  "toString b =
     (if getReadSize b = 0 then Inr []
      else rbind (readAt (getReadSize b) (ba_pos b) b) load)"

definition hex_digit :: "nat \<Rightarrow> char" where
  "hex_digit d = ''0123456789abcdef'' ! d"

definition hex_byte :: "byte \<Rightarrow> string" where
  "hex_byte w = [hex_digit (unat w div 16), hex_digit (unat w mod 16)]"

fun hex_lines :: "nat \<Rightarrow> byte list \<Rightarrow> string" where
  "hex_lines i [] = []"
| "hex_lines i (w # ws) =
     (if 0 < i \<and> i mod 32 = 0 then ''\<newline>'' else []) @ hex_byte w @ '' '' @ hex_lines (Suc i) ws"

definition toHexString :: "byte_array \<Rightarrow> string outcome" where
  "toHexString b = rbind (toString b) (\<lambda>str. Inr (hex_lines 0 str))"

text \<open>
  \<open>writeToFile\<close> returns whether the file could be opened, and the bytes handed to the stream. A
  write of a negative count is an access outside the block.
\<close>

function file_loop :: "node list \<Rightarrow> nat \<Rightarrow> int \<Rightarrow> int \<Rightarrow> nat \<Rightarrow> byte list outcome" where
  "file_loop ns base read_size pos cur =
     (if read_size \<le> 0 then Inr []
      else if base = 0 then Inl Div_by_zero
      else let diff = pos mod int base;
               len = (if int base < read_size then int base else read_size) - diff
           in rbind (node_at ns cur) (\<lambda>n.
              if len < 0 then Inl Heap_overflow
              else rbind (fetch ns cur (nat diff) (nat len)) (\<lambda>cs.
                   rbind (load cs) (\<lambda>bs.
                   rbind (file_loop ns base (read_size - len) (pos + len) (Suc cur)) (\<lambda>bs'.
                     Inr (bs @ bs'))))))"
  by pat_completeness auto
termination
  by (relation "measure (\<lambda>(ns, base, read_size, pos, cur). length ns - cur)") auto

declare file_loop.simps [simp del]

definition writeToFile :: "bool \<Rightarrow> byte_array \<Rightarrow> (bool \<times> byte list) outcome" where
  "writeToFile opened b =
     (if \<not> opened then Inr (False, [])
      else rbind (file_loop (ba_nodes b) (ba_base b) (int (getReadSize b)) (int (ba_pos b)) (ba_cur b))
             (\<lambda>bs. Inr (True, bs)))"

text \<open>
  \<open>readFromFile\<close> reads blocks of \<open>baseSize_\<close> bytes until a short read sets \<open>eof\<close>. With a block
  size of zero no read ever reaches the end of the file and the loop does not return: \<open>None\<close>.
\<close>

function slurp :: "nat \<Rightarrow> byte list \<Rightarrow> byte_array \<Rightarrow> byte_array outcome option" where
  "slurp k file b =
     (if k = 0 then None
      else case ba_write (take k file) b of
             Inl e \<Rightarrow> Some (Inl e)
           | Inr b' \<Rightarrow> if length file < k then Some (Inr b') else slurp k (drop k file) b')"
  by pat_completeness auto
termination
  by (relation "measure (\<lambda>(k, file, b). length file)") auto

declare slurp.simps [simp del]

definition readFromFile ::
    "byte list option \<Rightarrow> byte_array \<Rightarrow> ((bool \<times> byte_array) outcome) option" where
  "readFromFile file b =
     (case file of
        None \<Rightarrow> Some (Inr (False, b))
      | Some bs \<Rightarrow> map_option (\<lambda>r. rbind r (\<lambda>b'. Inr (True, b'))) (slurp (ba_base b) bs b))"

end
