(* ===== verification/ByteArraySpec.thy ===== *)
theory ByteArraySpec
  imports ByteArray
begin

text \<open>
  What the buffer promises: it is a tape, a sequence of cells with a position. The chain invariant
  \<open>ba_inv\<close>, and the refinement of every operation of the block chain to its operation on the tape.
\<close>

section \<open>The chain invariant and the abstraction to a tape\<close>

definition blocks_ok :: "nat \<Rightarrow> node list \<Rightarrow> bool" where
  "blocks_ok k ns \<longleftrightarrow> 0 < k \<and> (\<forall>n \<in> set ns. node_size n = k \<and> length (node_mem n) = k)"

definition chain :: "node list \<Rightarrow> cell list" where
  "chain ns = concat (map node_mem ns)"

abbreviation flat :: "byte_array \<Rightarrow> cell list" where
  "flat b \<equiv> chain (ba_nodes b)"

definition ba_inv :: "byte_array \<Rightarrow> bool" where
  "ba_inv b \<longleftrightarrow>
     blocks_ok (ba_base b) (ba_nodes b) \<and> ba_nodes b \<noteq> [] \<and>
     ba_cap b = ba_base b * length (ba_nodes b) \<and>
     ba_pos b \<le> ba_size b \<and> ba_size b \<le> ba_cap b \<and>
     ba_cur b = ba_pos b div ba_base b"

definition content :: "byte_array \<Rightarrow> cell list" where
  "content b = take (ba_size b) (flat b)"

lemma blocks_ok_Nil [simp]: "blocks_ok k [] \<longleftrightarrow> 0 < k"
  by (simp add: blocks_ok_def)

lemma blocks_ok_append [simp]: "blocks_ok k (ns @ ms) \<longleftrightarrow> blocks_ok k ns \<and> blocks_ok k ms"
  by (auto simp: blocks_ok_def)

lemma blocks_ok_new [simp]: "blocks_ok k [new_node k] \<longleftrightarrow> 0 < k"
  by (simp add: blocks_ok_def new_node_def)

lemma blocks_ok_nth:
  "blocks_ok k ns \<Longrightarrow> i < length ns \<Longrightarrow> node_size (ns ! i) = k \<and> length (node_mem (ns ! i)) = k"
  by (simp add: blocks_ok_def)

lemma blocks_ok_pos: "blocks_ok k ns \<Longrightarrow> 0 < k"
  by (simp add: blocks_ok_def)

lemma length_chain: "blocks_ok k ns \<Longrightarrow> length (chain ns) = k * length ns"
  unfolding chain_def
  by (subst length_concat_blocks [where k = k]) (auto simp: blocks_ok_def)

lemma chain_append [simp]: "chain (ns @ ms) = chain ns @ chain ms"
  by (simp add: chain_def)

lemma chain_new [simp]: "chain [new_node k] = replicate k None"
  by (simp add: chain_def new_node_def)

section \<open>Copying in and out of one block\<close>

lemma store_ok:
  assumes "blocks_ok k (ba_nodes b)" and "i < length (ba_nodes b)" and "off + length bs \<le> k"
  obtains ns where "store i off bs b = Inr (b\<lparr>ba_nodes := ns\<rparr>)"
    and "chain ns = overlay (flat b) (k * i + off) (map Some bs)"
    and "blocks_ok k ns" and "length ns = length (ba_nodes b)"
proof
  let ?n = "ba_nodes b ! i"
  let ?ns = "(ba_nodes b)[i := ?n\<lparr>node_mem := overlay (node_mem ?n) off (map Some bs)\<rparr>]"
  have n: "node_size ?n = k" "length (node_mem ?n) = k"
    using blocks_ok_nth [OF assms(1,2)] by auto
  show "store i off bs b = Inr (b\<lparr>ba_nodes := ?ns\<rparr>)"
    using assms n by (simp add: store_def node_at_def)
  show "chain ?ns = overlay (flat b) (k * i + off) (map Some bs)"
    using concat_update_overlay [of "map node_mem (ba_nodes b)" k i off "map Some bs"] assms n
    by (auto simp: chain_def map_update blocks_ok_def)
  show "blocks_ok k ?ns"
    using assms n by (auto simp: blocks_ok_def dest!: set_update_subset_insert [THEN subsetD])
  show "length ?ns = length (ba_nodes b)" by simp
qed

lemma fetch_ok:
  assumes "blocks_ok k ns" and "i < length ns" and "off + n \<le> k"
  shows "fetch ns i off n = Inr (take n (drop (k * i + off) (chain ns)))"
  using assms blocks_ok_nth [OF assms(1,2)]
    take_drop_block [of "map node_mem ns" k i off n]
  by (auto simp: fetch_def node_at_def chain_def blocks_ok_def)

lemma next_block:
  fixes k cur len off m :: nat
  assumes "k * cur + off + len \<le> k * m" and "k - off < len" and "off \<le> k"
  shows "Suc cur < m"
proof -
  have "k * Suc cur < k * m" using assms by simp
  then show ?thesis by (simp only: mult_less_cancel1)
qed

lemma div_block:
  fixes k cur n :: nat
  assumes "0 < k" and "n \<le> k"
  shows "(k * cur + n) div k = (if n = k then Suc cur else cur)"
  using assms by auto

section \<open>The write loop\<close>

lemma write_loop_ok:
  assumes "blocks_ok k (ba_nodes b)" and "ba_cur b < length (ba_nodes b)"
    and "npos \<le> k" and "ncap = k - npos"
    and "k * ba_cur b + npos + length buf \<le> k * length (ba_nodes b)" and "buf \<noteq> []"
  shows "\<exists>ns. write_loop buf npos ncap b =
      Inr (b\<lparr>ba_nodes := ns, ba_pos := ba_pos b + length buf,
             ba_cur := (k * ba_cur b + npos + length buf) div k\<rparr>) \<and>
    chain ns = overlay (flat b) (k * ba_cur b + npos) (map Some buf) \<and>
    blocks_ok k ns \<and> length ns = length (ba_nodes b)"
  using assms
proof (induction buf npos ncap b rule: write_loop.induct)
  case (1 buf npos ncap b)
  note unfold = write_loop.simps [of buf npos ncap b]
  have k: "0 < k" using "1.prems"(1) by (rule blocks_ok_pos)
  show ?case
  proof (cases "length buf \<le> ncap")
    case True
    then have "npos + length buf \<le> k" using "1.prems" by simp
    with "1.prems" obtain ns where ns: "store (ba_cur b) npos buf b = Inr (b\<lparr>ba_nodes := ns\<rparr>)"
      "chain ns = overlay (flat b) (k * ba_cur b + npos) (map Some buf)"
      "blocks_ok k ns" "length ns = length (ba_nodes b)"
      by (elim store_ok [where i = "ba_cur b" and off = npos])
    moreover have "node_size (ns ! ba_cur b) = k"
      using blocks_ok_nth [OF ns(3)] ns(4) "1.prems"(2) by simp
    moreover have "(k * ba_cur b + npos + length buf) div k
        = (if k = npos + length buf then Suc (ba_cur b) else ba_cur b)"
      using div_block [OF k \<open>npos + length buf \<le> k\<close>] by (simp add: add.assoc)
    ultimately show ?thesis
      using True "1.prems"(2,6) by (intro exI [of _ ns]) (auto simp: unfold node_at_def)
  next
    case False
    then have len: "npos + length (take ncap buf) \<le> k" using "1.prems" by simp
    with "1.prems" obtain ns where ns:
      "store (ba_cur b) npos (take ncap buf) b = Inr (b\<lparr>ba_nodes := ns\<rparr>)"
      "chain ns = overlay (flat b) (k * ba_cur b + npos) (map Some (take ncap buf))"
      "blocks_ok k ns" "length ns = length (ba_nodes b)"
      by (elim store_ok [where i = "ba_cur b" and off = npos])
    have nxt: "Suc (ba_cur b) < length (ba_nodes b)"
      by (rule next_block [of k _ npos "length buf"]) (use "1.prems" False in auto)
    have sz: "node_size (ns ! Suc (ba_cur b)) = k"
      using blocks_ok_nth [OF ns(3)] ns(4) nxt by simp
    have at: "k * ba_cur b + npos + ncap = k * Suc (ba_cur b)"
      using "1.prems"(3,4) by simp
    let ?b1 = "b\<lparr>ba_nodes := ns, ba_pos := ba_pos b + ncap, ba_cur := Suc (ba_cur b)\<rparr>"
    have tot: "k * ba_cur ?b1 + 0 + length (drop ncap buf) = k * ba_cur b + npos + length buf"
      using at False by simp
    obtain ns' where ns': "write_loop (drop ncap buf) 0 (node_size (ns ! Suc (ba_cur b))) ?b1 =
        Inr (?b1\<lparr>ba_nodes := ns', ba_pos := ba_pos ?b1 + length (drop ncap buf),
               ba_cur := (k * ba_cur ?b1 + 0 + length (drop ncap buf)) div k\<rparr>)"
      "chain ns' = overlay (flat ?b1) (k * ba_cur ?b1 + 0) (map Some (drop ncap buf))"
      "blocks_ok k ns'" "length ns' = length (ba_nodes ?b1)"
      using "1.IH" [OF \<open>buf \<noteq> []\<close> False ns(1), of "ns ! Suc (ba_cur b)"]
        ns nxt sz tot "1.prems" False by auto
    let ?p = "k * ba_cur b + npos" and ?xs = "map Some (take ncap buf)" and ?ys = "map Some (drop ncap buf)"
    have at': "k * Suc (ba_cur b) = ?p + length ?xs" using at False by simp
    have "chain ns' = overlay (chain ns) (k * Suc (ba_cur b)) ?ys"
      using ns'(2) by simp
    also have "\<dots> = overlay (overlay (flat b) ?p ?xs) (?p + length ?xs) ?ys"
      by (simp only: ns(2) at')
    also have "\<dots> = overlay (flat b) ?p (?xs @ ?ys)"
      by (rule overlay_overlay) (use "1.prems"(1,5) False in \<open>simp add: length_chain\<close>)
    finally have "chain ns' = overlay (flat b) ?p (map Some buf)"
      by (simp flip: map_append)
    then show ?thesis
      using ns' ns tot nxt False "1.prems"(6) by (intro exI [of _ ns']) (simp add: unfold node_at_def)
  qed
qed

section \<open>The read loop\<close>

lemma read_loop_ok:
  assumes "blocks_ok k ns" and "cur < length ns \<or> sz = 0"
    and "npos \<le> k" and "ncap = k - npos"
    and "k * cur + npos + sz \<le> k * length ns"
  shows "read_loop ns sz npos ncap pos cur =
    Inr (take sz (drop (k * cur + npos) (chain ns)), pos + sz,
         if sz = 0 then cur else (k * cur + npos + sz) div k)"
  using assms
proof (induction ns sz npos ncap pos cur rule: read_loop.induct)
  case (1 ns sz npos ncap pos cur)
  note unfold = read_loop.simps [of ns sz npos ncap pos cur]
  have k: "0 < k" using "1.prems"(1) by (rule blocks_ok_pos)
  consider "sz = 0" | "0 < sz" "sz \<le> ncap" | "ncap < sz" by linarith
  then show ?case
  proof cases
    case 1
    then show ?thesis by (simp add: read_loop.simps [of ns 0])
  next
    case 2
    with "1.prems" have le: "npos + sz \<le> k" and cur: "cur < length ns" by auto
    have "(k * cur + npos + sz) div k = (if k = npos + sz then Suc cur else cur)"
      using div_block [OF k le] by (simp add: add.assoc)
    then show ?thesis
      using 2 fetch_ok [OF "1.prems"(1) cur le] blocks_ok_nth [OF "1.prems"(1) cur] cur
      by (auto simp: unfold node_at_def)
  next
    case 3
    with "1.prems" have cur: "cur < length ns" by auto
    have nxt: "Suc cur < length ns"
      by (rule next_block [of k _ npos sz]) (use "1.prems" 3 in auto)
    have f: "fetch ns cur npos ncap = Inr (take ncap (drop (k * cur + npos) (chain ns)))"
      using "1.prems" cur by (intro fetch_ok) auto
    have at: "k * cur + npos + ncap = k * Suc cur" using "1.prems"(3,4) by simp
    have IH: "read_loop ns (sz - ncap) 0 (node_size (ns ! Suc cur)) (pos + ncap) (Suc cur) =
        Inr (take (sz - ncap) (drop (k * Suc cur + 0) (chain ns)), pos + ncap + (sz - ncap),
             if sz - ncap = 0 then Suc cur else (k * Suc cur + 0 + (sz - ncap)) div k)"
      by (rule "1.IH" [OF _ _ f])
         (use 3 nxt at "1.prems" blocks_ok_nth [OF "1.prems"(1) nxt] in auto)
    have tot: "k * Suc cur + 0 + (sz - ncap) = k * cur + npos + sz" using at 3 by simp
    have cat: "take ncap (drop (k * cur + npos) (chain ns)) @ take (sz - ncap) (drop (k * Suc cur + 0) (chain ns))
        = take sz (drop (k * cur + npos) (chain ns))"
      using take_add_drop [of ncap "sz - ncap" "k * cur + npos" "chain ns"] 3 at by simp
    have "read_loop ns sz npos ncap pos cur =
        rbind (read_loop ns (sz - ncap) 0 (node_size (ns ! Suc cur)) (pos + ncap) (Suc cur))
          (\<lambda>(cs', pos', cur').
            Inr (take ncap (drop (k * cur + npos) (chain ns)) @ cs', pos', cur'))"
      using 3 nxt by (subst unfold) (simp add: f node_at_def)
    also have "\<dots> = Inr (take sz (drop (k * cur + npos) (chain ns)), pos + sz,
         (k * cur + npos + sz) div k)"
      unfolding IH using 3 by (simp only: rbind_Inr prod.case cat tot) simp
    finally show ?thesis using 3 by simp
  qed
qed

section \<open>Growing\<close>

lemma grow_eq:
  "grow n b = b\<lparr>ba_nodes := ba_nodes b @ replicate n (new_node (ba_base b)),
               ba_cap := ba_cap b + n * ba_base b\<rparr>"
proof (induction n arbitrary: b)
  case 0
  then show ?case by simp
next
  case (Suc n)
  show ?case
    by (simp add: Suc.IH replicate_app_Cons_same algebra_simps)
qed

lemma chain_replicate [simp]: "chain (replicate n (new_node k)) = replicate (n * k) None"
  by (induction n) (auto simp: chain_def new_node_def replicate_add)

lemma blocks_ok_replicate [simp]: "0 < k \<Longrightarrow> blocks_ok k (replicate n (new_node k))"
  by (simp add: blocks_ok_def new_node_def)

lemma ba_inv_base: "ba_inv b \<Longrightarrow> 0 < ba_base b"
  by (auto simp: ba_inv_def blocks_ok_def)

lemma ba_inv_sizes:
  assumes "ba_inv b"
  shows "getReadSize b = ba_size b - ba_pos b" "getCapacity b = ba_cap b - ba_pos b"
    "length (flat b) = ba_cap b" "length (content b) = ba_size b"
    "ba_pos b \<le> ba_size b" "ba_size b \<le> ba_cap b"
  using assms length_chain [of "ba_base b" "ba_nodes b"]
  by (auto simp: ba_inv_def getReadSize_def getCapacity_def content_def)

lemma ba_inv_cur: "ba_inv b \<Longrightarrow> ba_pos b < ba_cap b \<Longrightarrow> ba_cur b < length (ba_nodes b)"
  by (auto simp: ba_inv_def div_less_iff_less_mult mult.commute dest: blocks_ok_pos)

lemma locate_ok:
  assumes "ba_inv b" and "ba_pos b < ba_cap b"
  shows "locate b p = Inr (p mod ba_base b, ba_base b - p mod ba_base b)"
proof -
  have "ba_cur b < length (ba_nodes b)" using assms by (rule ba_inv_cur)
  moreover have "blocks_ok (ba_base b) (ba_nodes b)" using assms(1) by (simp add: ba_inv_def)
  ultimately show ?thesis
    using ba_inv_base [OF assms(1)] blocks_ok_nth [of "ba_base b" "ba_nodes b" "ba_cur b"]
    by (simp add: locate_def node_at_def less_imp_le)
qed

lemma addCapacity_ok:
  assumes "ba_inv b"
  obtains n where
    "addCapacity sz b = Inr (b\<lparr>ba_nodes := ba_nodes b @ replicate n (new_node (ba_base b)),
                              ba_cap := ba_cap b + n * ba_base b\<rparr>)"
    and "ba_pos b + sz \<le> ba_cap b + n * ba_base b"
    and "ba_inv (b\<lparr>ba_nodes := ba_nodes b @ replicate n (new_node (ba_base b)),
                  ba_cap := ba_cap b + n * ba_base b\<rparr>)"
proof -
  have inv: "ba_inv (b\<lparr>ba_nodes := ba_nodes b @ replicate n (new_node (ba_base b)),
                       ba_cap := ba_cap b + n * ba_base b\<rparr>)" for n
    using assms ba_inv_base [OF assms] by (auto simp: ba_inv_def algebra_simps)
  note sz = ba_inv_sizes [OF assms]
  show thesis
  proof (cases "sz \<le> ba_cap b - ba_pos b")
    case True
    then show thesis
      using sz inv [of 0] by (intro that [of 0]) (auto simp: addCapacity_def)
  next
    case False
    let ?d = "sz - (ba_cap b - ba_pos b)"
    let ?n = "(?d + ba_base b - 1) div ba_base b"
    have le: "?d \<le> ba_base b * ?n"
      by (rule ceil_div_le [OF ba_inv_base [OF assms]])
    have cur: "ba_cap b = ba_pos b \<Longrightarrow> ba_cur b = length (ba_nodes b)"
      using assms ba_inv_base [OF assms] unfolding ba_inv_def by (metis nonzero_mult_div_cancel_left not_gr_zero)
    show thesis
    proof (rule that [of ?n])
      show "ba_pos b + sz \<le> ba_cap b + ?n * ba_base b"
        using le False sz by (simp add: mult.commute)
      show "addCapacity sz b = Inr (b\<lparr>ba_nodes := ba_nodes b @ replicate ?n (new_node (ba_base b)),
                              ba_cap := ba_cap b + ?n * ba_base b\<rparr>)"
        using False sz ba_inv_base [OF assms] cur
        by (auto simp: addCapacity_def grow_eq Let_def)
    qed (rule inv)
  qed
qed

end
