(* ===== verification/Tape.thy ===== *)
theory Tape
  imports ByteArraySpec
begin

text \<open>
  The abstract machine of the buffer, a tape: its cells and a position in them. Every operation of
  \<open>ByteArray\<close> is shown to be the operation of the same name on the tape.
\<close>

section \<open>The tape\<close>

type_synonym tape = "cell list \<times> nat"

definition tape_of :: "byte_array \<Rightarrow> tape" where
  "tape_of b = (content b, ba_pos b)"

definition tape_write :: "byte list \<Rightarrow> tape \<Rightarrow> tape" where
  "tape_write bs t =
     (take (snd t) (fst t) @ map Some bs @ drop (snd t + length bs) (fst t), snd t + length bs)"

definition tape_read :: "nat \<Rightarrow> tape \<Rightarrow> cell list \<times> tape" where
  "tape_read n t = (take n (drop (snd t) (fst t)), (fst t, snd t + n))"

definition tape_ok :: "tape \<Rightarrow> bool" where
  "tape_ok t \<longleftrightarrow> snd t \<le> length (fst t)"

definition same_setup :: "byte_array \<Rightarrow> byte_array \<Rightarrow> bool" where
  "same_setup b b' \<longleftrightarrow> ba_base b' = ba_base b \<and> ba_endian b' = ba_endian b"

lemma same_setup_refl [simp]: "same_setup b b"
  by (simp add: same_setup_def)

lemma same_setup_trans [trans]: "same_setup a b \<Longrightarrow> same_setup b c \<Longrightarrow> same_setup a c"
  by (simp add: same_setup_def)

lemma tape_write_Nil [simp]: "tape_write [] t = t"
  by (cases t) (simp add: tape_write_def)

lemma tape_write_append:
  assumes "tape_ok t"
  shows "tape_write ys (tape_write xs t) = tape_write (xs @ ys) t"
  using assms by (simp add: tape_write_def tape_ok_def ac_simps)

lemma tape_read_after_write:
  assumes "tape_ok t"
  shows "fst (tape_read (length bs) (fst (tape_write bs t), snd t)) = map Some bs"
  using assms by (simp add: tape_read_def tape_write_def tape_ok_def)

lemma tape_ok_tape_of: "ba_inv b \<Longrightarrow> tape_ok (tape_of b)"
  using ba_inv_sizes [of b] by (simp add: tape_ok_def tape_of_def)

section \<open>Writing\<close>

lemma content_append_chain:
  assumes "ba_inv b" and "chain ns = overlay (flat b @ cs) (ba_pos b) (map Some bs)"
    and "ba_pos b + length bs \<le> ba_cap b + length cs"
  shows "take (max (ba_size b) (ba_pos b + length bs)) (chain ns) =
    fst (tape_write bs (tape_of b))"
proof -
  note sz = ba_inv_sizes [OF assms(1)]
  have "drop (ba_pos b + length bs) (content b) =
      take (ba_size b - (ba_pos b + length bs)) (drop (ba_pos b + length bs) (flat b))"
    by (simp add: content_def drop_take)
  moreover have "take (ba_pos b) (content b) = take (ba_pos b) (flat b)"
    using sz by (simp add: content_def min_absorb1)
  ultimately show ?thesis
    using sz assms(2,3) by (auto simp: tape_write_def tape_of_def overlay_def min_absorb1 max_def)
qed

lemma ba_write_refines:
  assumes "ba_inv b"
  shows "\<exists>b'. ba_write bs b = Inr b' \<and> ba_inv b' \<and> tape_of b' = tape_write bs (tape_of b) \<and>
    same_setup b b' \<and> ba_cap b \<le> ba_cap b'"
proof (cases "bs = []")
  case True
  then show ?thesis using assms by (simp add: ba_write_def)
next
  case False
  obtain n b1 where b1: "b1 = b\<lparr>ba_nodes := ba_nodes b @ replicate n (new_node (ba_base b)),
                                ba_cap := ba_cap b + n * ba_base b\<rparr>"
    and n: "addCapacity (length bs) b = Inr b1" "ba_pos b + length bs \<le> ba_cap b + n * ba_base b"
      "ba_inv b1"
    using addCapacity_ok [OF assms, of "length bs"] by metis
  have k: "0 < ba_base b" using assms by (rule ba_inv_base)
  have "0 < length bs" using False by simp
  then have room: "ba_pos b1 < ba_cap b1"
    using n(2) by (simp add: b1 del: length_greater_0_conv)
  let ?p = "ba_pos b mod ba_base b"
  have at: "ba_base b * ba_cur b + ?p = ba_pos b" "ba_cur b1 < length (ba_nodes b1)"
    using ba_inv_cur [OF n(3) room] assms by (auto simp: ba_inv_def b1)
  have cap1: "ba_cap b1 = ba_base b * length (ba_nodes b1)" and blk: "blocks_ok (ba_base b) (ba_nodes b1)"
    using n(3) by (auto simp: ba_inv_def b1)
  have loc: "locate b1 (ba_pos b1) = Inr (?p, ba_base b - ?p)"
    using locate_ok [OF n(3) room, of "ba_pos b1"] by (simp add: b1)
  have "\<exists>ns. write_loop bs ?p (ba_base b - ?p) b1 =
      Inr (b1\<lparr>ba_nodes := ns, ba_pos := ba_pos b1 + length bs,
             ba_cur := (ba_base b * ba_cur b1 + ?p + length bs) div ba_base b\<rparr>) \<and>
    chain ns = overlay (flat b1) (ba_base b * ba_cur b1 + ?p) (map Some bs) \<and>
    blocks_ok (ba_base b) ns \<and> length ns = length (ba_nodes b1)"
    using n(2) at cap1 k False
    by (intro write_loop_ok [OF blk]) (auto simp: less_imp_le b1)
  then obtain ns b2 where b2: "b2 = b1\<lparr>ba_nodes := ns, ba_pos := ba_pos b + length bs,
                                    ba_cur := (ba_pos b + length bs) div ba_base b\<rparr>"
    and ns: "write_loop bs ?p (ba_base b - ?p) b1 = Inr b2"
    "chain ns = overlay (flat b @ replicate (n * ba_base b) None) (ba_pos b) (map Some bs)"
    "blocks_ok (ba_base b) ns" "length ns = length (ba_nodes b1)"
    using at by (auto simp: b1)
  let ?b3 = "if ba_size b2 < ba_pos b2 then b2\<lparr>ba_size := ba_pos b2\<rparr> else b2"
  have b3: "ba_write bs b = Inr ?b3"
    using False by (simp add: ba_write_def n(1) loc ns(1))
  have "ba_inv ?b3"
    using assms n(2) cap1 ns(3,4) False k by (auto simp: ba_inv_def b1 b2)
  moreover have "tape_of ?b3 = tape_write bs (tape_of b)"
    using content_append_chain [OF assms ns(2)] n(2)
    by (auto simp: tape_of_def content_def max_def tape_write_def b1 b2)
  ultimately show ?thesis using b3 by (auto simp: same_setup_def b1 b2)
qed

lemma ba_write_ok:
  assumes "ba_inv b"
  obtains b' where "ba_write bs b = Inr b'" "ba_inv b'" "tape_of b' = tape_write bs (tape_of b)"
    "same_setup b b'" "ba_cap b \<le> ba_cap b'"
  using ba_write_refines [OF assms, of bs] by blast

section \<open>Reading\<close>

lemma raw_read_eq:
  assumes "ba_inv b" and "n \<le> getReadSize b" and "0 < n \<or> ba_pos b < ba_cap b"
  shows "raw_read n b = Inr (take n (drop (ba_pos b) (content b)),
    b\<lparr>ba_pos := ba_pos b + n, ba_cur := (ba_pos b + n) div ba_base b\<rparr>)"
proof -
  note sz = ba_inv_sizes [OF assms(1)]
  have room: "ba_pos b < ba_cap b" using assms(2,3) sz by auto
  let ?p = "ba_pos b mod ba_base b"
  have inv: "blocks_ok (ba_base b) (ba_nodes b)" "ba_base b * ba_cur b + ?p = ba_pos b"
      "ba_cur b = ba_pos b div ba_base b" "ba_cap b = ba_base b * length (ba_nodes b)"
    using assms(1) by (auto simp: ba_inv_def)
  have loop: "read_loop (ba_nodes b) n ?p (ba_base b - ?p) (ba_pos b) (ba_cur b) =
    Inr (take n (drop (ba_base b * ba_cur b + ?p) (flat b)), ba_pos b + n,
         if n = 0 then ba_cur b else (ba_base b * ba_cur b + ?p + n) div ba_base b)"
    using inv ba_inv_cur [OF assms(1) room] ba_inv_base [OF assms(1)] sz assms(2)
    by (intro read_loop_ok) (auto simp: less_imp_le)
  have "take n (drop (ba_pos b) (flat b)) = take n (drop (ba_pos b) (content b))"
    using assms(2) sz by (simp add: content_def drop_take min_absorb1)
  then show ?thesis
    using loop inv sz assms(2) by (auto simp: raw_read_def locate_ok [OF assms(1) room])
qed

lemma raw_read_refines:
  assumes "ba_inv b" and "n \<le> getReadSize b" and "0 < n \<or> ba_pos b < ba_cap b"
  shows "\<exists>b'. raw_read n b = Inr (fst (tape_read n (tape_of b)), b') \<and> ba_inv b' \<and>
    tape_of b' = snd (tape_read n (tape_of b)) \<and> same_setup b b' \<and> ba_cap b' = ba_cap b"
  using raw_read_eq [OF assms] assms(1,2) ba_inv_sizes [OF assms(1)]
  by (auto simp: tape_of_def tape_read_def content_def same_setup_def ba_inv_def)

lemma raw_read_short: "getReadSize b < n \<Longrightarrow> raw_read n b = Inl Out_of_range"
  by (simp add: raw_read_def)

section \<open>Moving the position\<close>

lemma setpos_loop_ok:
  assumes "blocks_ok k ns" and "cur < length ns" and "v \<le> k * (length ns - cur)"
  shows "setpos_loop ns v cur = Inr (cur + v div k)"
  using assms
proof (induction ns v cur rule: setpos_loop.induct)
  case (1 ns v cur)
  note unfold = setpos_loop.simps [of ns v cur]
  have k: "0 < k" "node_size (ns ! cur) = k"
    using "1.prems" blocks_ok_pos blocks_ok_nth by auto
  show ?case
  proof (cases "k < v")
    case True
    have nxt: "Suc cur < length ns"
    proof (rule ccontr)
      assume "\<not> Suc cur < length ns"
      then have "length ns - cur = 1" using "1.prems"(2) by simp
      then show False using "1.prems"(3) True by simp
    qed
    have "length ns - cur = Suc (length ns - Suc cur)" using "1.prems"(2) by simp
    then have "v - k \<le> k * (length ns - Suc cur)" using "1.prems"(3) by simp
    then have "setpos_loop ns (v - k) (Suc cur) = Inr (Suc cur + (v - k) div k)"
      using "1.IH" [of "ns ! cur"] "1.prems"(1,2) nxt True k by (simp add: node_at_def)
    then show ?thesis
      using True k "1.prems"(2) by (simp add: unfold node_at_def le_div_geq)
  next
    case False
    then show ?thesis
      using k "1.prems"(2) by (auto simp: unfold node_at_def)
  qed
qed

lemma setPosition_eq:
  assumes "ba_inv b" and "v \<le> ba_cap b"
  shows "setPosition v b =
    Inr (b\<lparr>ba_pos := v, ba_size := max v (ba_size b), ba_cur := v div ba_base b\<rparr>)"
proof -
  have "setpos_loop (ba_nodes b) v 0 = Inr (0 + v div ba_base b)"
    using assms by (intro setpos_loop_ok) (auto simp: ba_inv_def)
  then show ?thesis using assms(2) by (simp add: setPosition_def)
qed

lemma setPosition_inv:
  assumes "ba_inv b" and "setPosition v b = Inr b'"
  shows "ba_inv b'" "same_setup b b'" "ba_cap b' = ba_cap b"
proof -
  have "v \<le> ba_cap b" using assms(2) by (auto simp: setPosition_def split: if_splits)
  then show "ba_inv b'" "same_setup b b'" "ba_cap b' = ba_cap b"
    using assms setPosition_eq [OF assms(1)] by (auto simp: ba_inv_def same_setup_def)
qed

lemma setPosition_within:
  assumes "ba_inv b" and "v \<le> ba_size b"
  shows "\<exists>b'. setPosition v b = Inr b' \<and> ba_inv b' \<and> tape_of b' = (content b, v) \<and>
    same_setup b b' \<and> ba_cap b' = ba_cap b"
proof -
  have "v \<le> ba_cap b" using assms ba_inv_sizes [OF assms(1)] by simp
  then show ?thesis
    using setPosition_eq [OF assms(1)] assms
    by (auto simp: ba_inv_def same_setup_def tape_of_def content_def max_absorb2)
qed

lemma clear_ok:
  assumes "ba_inv b"
  shows "ba_inv (clear b)" "tape_of (clear b) = ([], 0)" "same_setup b (clear b)"
  using assms
  by (auto simp: ba_inv_def clear_def tape_of_def content_def same_setup_def neq_Nil_conv blocks_ok_def)

lemma new_byte_array_ok:
  assumes "0 < k"
  shows "ba_inv (new_byte_array k)" "tape_of (new_byte_array k) = ([], 0)"
    "ba_base (new_byte_array k) = k" "ba_endian (new_byte_array k) = Big"
  using assms by (auto simp: ba_inv_def new_byte_array_def tape_of_def content_def)

section \<open>The contents as a string\<close>

lemma readAt_eq:
  assumes "ba_inv b" and "n \<le> getReadSize b" and "ba_pos b < ba_cap b"
  shows "readAt n (ba_pos b) b = Inr (take n (drop (ba_pos b) (content b)))"
proof -
  have "raw_read n b = Inr (take n (drop (ba_pos b) (content b)),
    b\<lparr>ba_pos := ba_pos b + n, ba_cur := (ba_pos b + n) div ba_base b\<rparr>)"
    using assms by (intro raw_read_eq) auto
  then show ?thesis
    using assms(2)
    by (auto simp: raw_read_def readAt_def rbind_eq_Inr_iff getReadSize_def split: if_splits)
qed

lemma toString_eq:
  assumes "ba_inv b"
  shows "toString b = load (drop (ba_pos b) (content b))"
proof -
  note sz = ba_inv_sizes [OF assms]
  show ?thesis
  proof (cases "ba_pos b < ba_size b")
    case True
    then have "readAt (getReadSize b) (ba_pos b) b = Inr (drop (ba_pos b) (content b))"
      using readAt_eq [OF assms, of "getReadSize b"] sz by simp
    then show ?thesis using True sz by (simp add: toString_def)
  next
    case False
    then have "drop (ba_pos b) (content b) = []" using sz by simp
    then show ?thesis using False sz by (simp add: toString_def load_def)
  qed
qed

section \<open>Scatter/gather views\<close>

definition iov_bytes :: "node list \<Rightarrow> iovec \<Rightarrow> cell list" where
  "iov_bytes ns v = take (iov_len v) (drop (iov_off v) (node_mem (ns ! iov_block v)))"

definition gather :: "node list \<Rightarrow> iovec list \<Rightarrow> cell list" where
  "gather ns iovs = concat (map (iov_bytes ns) iovs)"

text \<open>An entry that stays inside its block.\<close>

definition iov_valid :: "node list \<Rightarrow> iovec \<Rightarrow> bool" where
  "iov_valid ns v \<longleftrightarrow> iov_block v < length ns \<and> 0 < iov_len v \<and>
     iov_off v + iov_len v \<le> length (node_mem (ns ! iov_block v))"

lemma iov_loop_ok:
  assumes "blocks_ok k ns" and "cur < length ns" and "npos < k" and "ncap = k - npos"
    and "k * cur + npos + len \<le> k * length ns"
  shows "\<exists>iovs. iov_loop ns len npos ncap cur = Inr iovs \<and>
    gather ns iovs = take len (drop (k * cur + npos) (chain ns)) \<and>
    (\<forall>v \<in> set iovs. iov_valid ns v)"
  using assms
proof (induction ns len npos ncap cur rule: iov_loop.induct)
  case (1 ns len npos ncap cur)
  note unfold = iov_loop.simps [of ns len npos ncap cur]
  note here = blocks_ok_nth [OF "1.prems"(1,2)]
  have blk: "take m (drop npos (node_mem (ns ! cur))) = take m (drop (k * cur + npos) (chain ns))"
    if "npos + m \<le> k" for m
    using take_drop_block [of "map node_mem ns" k cur npos m] "1.prems"(1,2) that
    by (auto simp: chain_def blocks_ok_def)
  show ?case
  proof (cases "len \<le> ncap")
    case True
    then have fits: "npos + len \<le> k" using "1.prems"(3,4) by simp
    show ?thesis
    proof (cases "len = 0")
      case True
      then show ?thesis by (simp add: iov_loop.simps [of ns 0] gather_def)
    next
      case nonempty: False
      let ?v = "\<lparr>iov_block = cur, iov_off = npos, iov_len = len\<rparr>"
      have "iov_loop ns len npos ncap cur = Inr [?v]"
        using True nonempty by (simp add: unfold)
      moreover have "gather ns [?v] = take len (drop (k * cur + npos) (chain ns))"
        using blk [OF fits] by (simp add: gather_def iov_bytes_def)
      moreover have "iov_valid ns ?v"
        using fits nonempty here "1.prems"(2) by (simp add: iov_valid_def)
      ultimately show ?thesis by auto
    qed
  next
    case False
    have nxt: "Suc cur < length ns"
      by (rule next_block [of k _ npos len]) (use "1.prems" False in auto)
    have at: "k * cur + npos + ncap = k * Suc cur" using "1.prems"(3,4) by simp
    have IH: "\<exists>iovs. iov_loop ns (len - ncap) 0 (node_size (ns ! Suc cur)) (Suc cur) = Inr iovs \<and>
        gather ns iovs = take (len - ncap) (drop (k * Suc cur + 0) (chain ns)) \<and>
        (\<forall>v \<in> set iovs. iov_valid ns v)"
      by (rule "1.IH") (use False nxt at "1.prems" blocks_ok_nth [OF "1.prems"(1) nxt] in auto)
    then obtain iovs where iovs:
      "iov_loop ns (len - ncap) 0 (node_size (ns ! Suc cur)) (Suc cur) = Inr iovs"
      "gather ns iovs = take (len - ncap) (drop (k * cur + npos + ncap) (chain ns))"
      "\<forall>v \<in> set iovs. iov_valid ns v"
      using at by auto
    let ?v = "\<lparr>iov_block = cur, iov_off = npos, iov_len = ncap\<rparr>"
    have "iov_loop ns len npos ncap cur = Inr (?v # iovs)"
      using False iovs(1) nxt by (simp add: unfold node_at_def)
    moreover have "gather ns (?v # iovs) = take len (drop (k * cur + npos) (chain ns))"
      using take_add_drop [of ncap "len - ncap" "k * cur + npos" "chain ns"] False iovs(2)
        blk [of ncap] "1.prems"(3,4)
      by (simp add: gather_def iov_bytes_def)
    moreover have "iov_valid ns ?v"
      using "1.prems"(2,3,4) here by (simp add: iov_valid_def)
    ultimately show ?thesis using iovs(3) by auto
  qed
qed

end
