(* ===== verification/Stream.thy ===== *)
theory Stream
  imports Endian
begin

text \<open>
  The interface between the byte buffer and the encodings built on it. A reader \<open>f\<close> \<open>parses\<close> the
  bytes \<open>bs\<close> as the value \<open>v\<close> when, from any good state whose unread bytes start with \<open>bs\<close>, it returns
  \<open>v\<close> and leaves exactly the bytes after \<open>bs\<close>. A writer \<open>emits\<close> \<open>bs\<close> when it appends them. Both
  compose; the two locales ask the provider for the one primitive of each side.
\<close>

section \<open>Readers and writers\<close>

type_synonym ('s, 'a) reader = "'s \<Rightarrow> ('a \<times> 's) outcome"

type_synonym 's writer = "'s \<Rightarrow> 's outcome"

definition parses ::
    "('s \<Rightarrow> bool) \<Rightarrow> ('s \<Rightarrow> byte list) \<Rightarrow> ('s, 'a) reader \<Rightarrow> byte list \<Rightarrow> 'a \<Rightarrow> bool" where
  "parses ok rest f bs v \<longleftrightarrow>
     (\<forall>s zs. ok s \<and> rest s = bs @ zs \<longrightarrow> (\<exists>s'. f s = Inr (v, s') \<and> ok s' \<and> rest s' = zs))"

definition emits :: "('s \<Rightarrow> bool) \<Rightarrow> ('s \<Rightarrow> byte list) \<Rightarrow> 's writer \<Rightarrow> byte list \<Rightarrow> bool" where
  "emits ok out f bs \<longleftrightarrow> (\<forall>s. ok s \<longrightarrow> (\<exists>s'. f s = Inr s' \<and> ok s' \<and> out s' = out s @ bs))"

named_theorems parse_intros "composition of readers"
named_theorems emit_intros "composition of writers"

lemma parsesD:
  assumes "parses ok rest f bs v" and "ok s" and "rest s = bs @ zs"
  obtains s' where "f s = Inr (v, s')" "ok s'" "rest s' = zs"
  using assms unfolding parses_def by blast

lemma emitsD:
  assumes "emits ok out f bs" and "ok s"
  obtains s' where "f s = Inr s'" "ok s'" "out s' = out s @ bs"
  using assms unfolding emits_def by blast

lemma parses_return [parse_intros]: "parses ok rest (\<lambda>s. Inr (v, s)) [] v"
  by (simp add: parses_def)

lemma parses_bind:
  assumes "parses ok rest f xs v" and "parses ok rest (g v) ys w"
  shows "parses ok rest (\<lambda>s. rbind (f s) (\<lambda>(x, s'). g x s')) (xs @ ys) w"
  unfolding parses_def
proof (intro allI impI, elim conjE)
  fix s zs assume s: "ok s" "rest s = (xs @ ys) @ zs"
  then obtain s1 where s1: "f s = Inr (v, s1)" "ok s1" "rest s1 = ys @ zs"
    using parsesD [OF assms(1), of s "ys @ zs"] by auto
  then obtain s2 where "g v s1 = Inr (w, s2)" "ok s2" "rest s2 = zs"
    using parsesD [OF assms(2)] by blast
  then show "\<exists>s'. rbind (f s) (\<lambda>(x, s'). g x s') = Inr (w, s') \<and> ok s' \<and> rest s' = zs"
    using s1 by simp
qed

lemma parses_map:
  "parses ok rest f bs v \<Longrightarrow> parses ok rest (\<lambda>s. rbind (f s) (\<lambda>(x, s'). Inr (h x, s'))) bs (h v)"
  using parses_bind [of ok rest f bs v "\<lambda>x s. Inr (h x, s)" "[]" "h v"]
  by (simp add: parses_return)

lemma emits_return [emit_intros]: "emits ok out Inr []"
  by (simp add: emits_def)

lemma emits_bind [emit_intros]:
  assumes "emits ok out f xs" and "emits ok out g ys"
  shows "emits ok out (\<lambda>s. rbind (f s) g) (xs @ ys)"
  using assms unfolding emits_def by (metis append_assoc rbind_Inr)

lemma parses_cong: "parses ok rest f bs v \<Longrightarrow> (\<And>s. f s = g s) \<Longrightarrow> parses ok rest g bs v"
  by (simp add: parses_def)

text \<open>
  What a reader may do with arbitrary input: return a value having moved forward over some of it, or
  throw a C++ exception. Undefined behaviour is excluded.
\<close>

definition guarded :: "('s \<Rightarrow> bool) \<Rightarrow> ('s \<Rightarrow> byte list) \<Rightarrow> ('s, 'a) reader \<Rightarrow> bool" where
  "guarded ok rest f \<longleftrightarrow>
     (\<forall>s. ok s \<longrightarrow> (case f s of Inl e \<Rightarrow> is_exception e
                          | Inr (v, s') \<Rightarrow> ok s' \<and> (\<exists>xs. rest s = xs @ rest s')))"

named_theorems guarded_intros "composition of readers on arbitrary input"

lemma guardedD:
  assumes "guarded ok rest f" and "ok s"
  obtains (throws) e where "f s = Inl e" "is_exception e"
  | (returns) v s' xs where "f s = Inr (v, s')" "ok s'" "rest s = xs @ rest s'"
proof (cases "f s")
  case (Inl e)
  then show ?thesis using assms throws by (auto simp: guarded_def)
next
  case (Inr a)
  obtain v s' where a: "a = (v, s')" by (cases a)
  have "case f s of Inl e \<Rightarrow> is_exception e | Inr (v, s') \<Rightarrow> ok s' \<and> (\<exists>xs. rest s = xs @ rest s')"
    using assms unfolding guarded_def by blast
  then show ?thesis using returns [of v s'] Inr a by auto
qed

lemma guarded_return [guarded_intros]: "guarded ok rest (\<lambda>s. Inr (v, s))"
  by (simp add: guarded_def)

lemma guarded_throw [guarded_intros]: "is_exception e \<Longrightarrow> guarded ok rest (\<lambda>s. Inl e)"
  by (simp add: guarded_def)

lemma guarded_bind [guarded_intros]:
  assumes "guarded ok rest f" and "\<And>x. guarded ok rest (g x)"
  shows "guarded ok rest (\<lambda>s. rbind (f s) (\<lambda>(x, s'). g x s'))"
  unfolding guarded_def
proof (intro allI impI)
  fix s assume "ok s"
  with assms(1) show "case rbind (f s) (\<lambda>(x, s'). g x s') of Inl e \<Rightarrow> is_exception e
      | Inr (v, s') \<Rightarrow> ok s' \<and> (\<exists>xs. rest s = xs @ rest s')"
  proof (cases rule: guardedD)
    case (returns v s1 xs)
    from assms(2) [of v] \<open>ok s1\<close> show ?thesis
      by (rule guardedD) (use returns in auto)
  qed simp
qed

lemma guarded_if [guarded_intros]:
  "guarded ok rest f \<Longrightarrow> guarded ok rest g \<Longrightarrow> guarded ok rest (\<lambda>s. if c then f s else g s)"
  by (cases c) simp_all

text \<open>A reader runs out of input on every proper prefix of what it accepts.\<close>

definition starves :: "('s \<Rightarrow> bool) \<Rightarrow> ('s \<Rightarrow> byte list) \<Rightarrow> ('s, 'a) reader \<Rightarrow> byte list \<Rightarrow> bool" where
  "starves ok rest f bs \<longleftrightarrow>
     (\<forall>s n. ok s \<longrightarrow> n < length bs \<longrightarrow> rest s = take n bs \<longrightarrow> f s = Inl Out_of_range)"

named_theorems starve_intros "composition of readers on truncated input"

lemma starvesD:
  "starves ok rest f bs \<Longrightarrow> ok s \<Longrightarrow> n < length bs \<Longrightarrow> rest s = take n bs \<Longrightarrow> f s = Inl Out_of_range"
  by (simp add: starves_def)

lemma starves_Nil [starve_intros]: "starves ok rest f []"
  by (simp add: starves_def)

lemma starves_bind:
  assumes "starves ok rest f xs" and "parses ok rest f xs v" and "starves ok rest (g v) ys"
  shows "starves ok rest (\<lambda>s. rbind (f s) (\<lambda>(x, s'). g x s')) (xs @ ys)"
  unfolding starves_def
proof (intro allI impI)
  fix s n assume s: "ok s" "n < length (xs @ ys)" "rest s = take n (xs @ ys)"
  show "rbind (f s) (\<lambda>(x, s'). g x s') = Inl Out_of_range"
  proof (cases "n < length xs")
    case True
    then show ?thesis using starvesD [OF assms(1) s(1), of n] s(3) by simp
  next
    case False
    then have "rest s = xs @ take (n - length xs) ys" using s(3) by simp
    then obtain s' where "f s = Inr (v, s')" "ok s'" "rest s' = take (n - length xs) ys"
      by (rule parsesD [OF assms(2) s(1)])
    then show ?thesis using starvesD [OF assms(3), of s' "n - length xs"] s(2) False by simp
  qed
qed

lemma starves_map: "starves ok rest f bs \<Longrightarrow> starves ok rest (\<lambda>s. rbind (f s) h) bs"
  by (simp add: starves_def)

section \<open>The primitives of the buffer's clients\<close>

text \<open>Integers of a fixed width: \<open>readFint\<close>/\<open>writeFint\<close> over a \<open>read\<close>/\<open>write\<close> of bytes.\<close>

definition fint_bytes :: "bool \<Rightarrow> endian \<Rightarrow> endian \<Rightarrow> 'a::len word \<Rightarrow> byte list" where
  "fint_bytes sg native e w = mem_bytes native (if e \<noteq> native then byte_swap sg w else w)"

definition fint_read ::
    "(nat \<Rightarrow> ('s, byte list) reader) \<Rightarrow> bool \<Rightarrow> endian \<Rightarrow> endian \<Rightarrow> ('s, 'a::len word) reader" where
  "fint_read get sg native e s =
     rbind (get (LENGTH('a) div 8) s) (\<lambda>(bs, s').
       let v = of_mem native bs in Inr (if e = native then v else byte_swap sg v, s'))"

definition byte_read :: "(nat \<Rightarrow> ('s, byte list) reader) \<Rightarrow> ('s, byte) reader" where
  "byte_read get s = rbind (get 1 s) (\<lambda>(bs, s'). Inr (hd bs, s'))"

text \<open>The continuation-bit loops of \<open>writeUint32/64\<close> and \<open>readUint32/64\<close>.\<close>

lemma unat_drop7: "unat (drop_bit 7 (v :: 'a::len word)) = unat v div 128"
  unfolding unat_drop_bit_eq by (simp add: drop_bit_eq_div)

function varint_bytes :: "'a::len word \<Rightarrow> byte list" where
  "varint_bytes v =
     (if 128 \<le> unat v then ((ucast v AND 127) OR 128) # varint_bytes (drop_bit 7 v)
      else [ucast v])"
  by pat_completeness auto
termination
  by (relation "measure unat") (auto simp: unat_drop7)

declare varint_bytes.simps [simp del]

function varint_read ::
    "(nat \<Rightarrow> ('s, byte list) reader) \<Rightarrow> nat \<Rightarrow> 'a::len word \<Rightarrow> ('s, 'a word) reader" where
  "varint_read get i result s =
     (if i < LENGTH('a) then
        rbind (byte_read get s) (\<lambda>(b, s').
          if b < 128 then Inr (result OR push_bit i (ucast b), s')
          else varint_read get (i + 7) (result OR push_bit i (ucast (b AND 127))) s')
      else Inr (result, s))"
  by pat_completeness auto
termination
  by (relation "measure (\<lambda>(get, i, result, s). size result - i)") (auto simp: word_size)

declare varint_read.simps [simp del]

text \<open>
  A string of a declared length: \<open>buff.resize(len)\<close>, which throws for a length no string can have,
  and then a read of that many bytes.
\<close>

definition string_max_size :: nat where
  "string_max_size = 2 ^ 62 - 1"

definition body_read :: "(nat \<Rightarrow> ('s, byte list) reader) \<Rightarrow> nat \<Rightarrow> ('s, byte list) reader" where
  "body_read get len s = (if string_max_size < len then Inl Length_error else get len s)"

text \<open>The bytes written are those of the requested order, whatever the machine's own order.\<close>

lemma fint_bytes_eq:
  assumes "LENGTH('a::len) \<in> {16, 32, 64}"
  shows "fint_bytes sg native e (w :: 'a word) = mem_bytes e w"
  using mem_bytes_byte_swap [OF assms] by (simp add: fint_bytes_def)

section \<open>A source of bytes\<close>

text \<open>
  \<open>roomy\<close> says that the source also serves requests for no bytes at all; without it a reader may
  only ask for at least one.
\<close>

locale byte_source =
  fixes ok :: "'s \<Rightarrow> bool"
    and rest :: "'s \<Rightarrow> byte list"
    and get :: "nat \<Rightarrow> ('s, byte list) reader"
    and roomy :: bool
  assumes get_parses: "bs \<noteq> [] \<or> roomy \<Longrightarrow> parses ok rest (get (length bs)) bs bs"
    and get_short: "ok s \<Longrightarrow> length (rest s) < n \<Longrightarrow> get n s = Inl Out_of_range"
begin

lemma get_parses_len:
  "0 < n \<or> roomy \<Longrightarrow> length bs = n \<Longrightarrow> parses ok rest (get n) bs bs"
  using get_parses [of bs] by auto

lemma byte_parses: "parses ok rest (byte_read get) [b] b"
  using parses_map [OF get_parses_len [of 1 "[b]"], of hd]
  by (simp add: byte_read_def [abs_def])

lemma fint_parses:
  assumes "LENGTH('a::len) \<in> {16, 32, 64}"
  shows "parses ok rest (fint_read get sg native e) (mem_bytes e (w :: 'a word)) w"
proof -
  have "8 dvd LENGTH('a)" using assms by auto
  then have val: "(if e = native then of_mem native (mem_bytes e w)
      else byte_swap sg (of_mem native (mem_bytes e w))) = w"
    using assms mem_bytes_byte_swap [OF assms, of e native sg w] byte_swap_involution [OF assms]
      of_mem_mem_bytes [of native "byte_swap sg w"] of_mem_mem_bytes [of native w]
    by (cases "e = native") auto
  show ?thesis
    using parses_map [OF get_parses_len [of "LENGTH('a) div 8" "mem_bytes e w"],
        of "\<lambda>bs. if e = native then of_mem native bs
               else byte_swap sg (of_mem native bs :: 'a word)"]
      assms
    by (auto simp: fint_read_def [abs_def] Let_def val)
qed

lemma body_parses:
  assumes "length bs \<le> string_max_size" and "length bs = n" and "0 < n \<or> roomy"
  shows "parses ok rest (body_read get n) bs bs"
  using get_parses_len [OF assms(3,2)] assms by (simp add: body_read_def [abs_def])

lemma byte_short: "ok s \<Longrightarrow> rest s = [] \<Longrightarrow> byte_read get s = Inl Out_of_range"
  using get_short [of s 1] by (simp add: byte_read_def)

lemma fint_short:
  assumes "ok s" and "length (rest s) < LENGTH('a::len) div 8"
  shows "(fint_read get sg native e s :: ('a word \<times> 's) outcome) = Inl Out_of_range"
  using get_short [OF assms] by (simp add: fint_read_def)

lemma get_starves: "length bs = n \<Longrightarrow> starves ok rest (get n) bs"
  using get_short by (simp add: starves_def)

lemma byte_starves: "starves ok rest (byte_read get) [b]"
  unfolding byte_read_def [abs_def] by (intro starves_map get_starves) simp

lemma fint_starves:
  "starves ok rest (fint_read get sg native e :: ('s, 'a::len word) reader) (mem_bytes e (w :: 'a word))"
  unfolding fint_read_def [abs_def] Let_def by (intro starves_map get_starves) simp

lemma body_starves:
  "length bs \<le> string_max_size \<Longrightarrow> length bs = n \<Longrightarrow> starves ok rest (body_read get n) bs"
  using get_starves [of bs n] by (simp add: body_read_def [abs_def])

lemma get_guarded: "roomy \<Longrightarrow> guarded ok rest (get n)"
  unfolding guarded_def
proof (intro allI impI)
  fix s assume "roomy" "ok s"
  show "case get n s of Inl e \<Rightarrow> is_exception e
      | Inr (v, s') \<Rightarrow> ok s' \<and> (\<exists>xs. rest s = xs @ rest s')"
  proof (cases "length (rest s) < n")
    case True
    then show ?thesis using get_short [OF \<open>ok s\<close>] by simp
  next
    case False
    have "parses ok rest (get n) (take n (rest s)) (take n (rest s))"
      using get_parses_len [of n "take n (rest s)"] \<open>roomy\<close> False by simp
    then obtain s' where "get n s = Inr (take n (rest s), s')" "ok s'" "rest s' = drop n (rest s)"
      by (rule parsesD [where zs = "drop n (rest s)"]) (simp_all add: \<open>ok s\<close>)
    then show ?thesis by (auto intro: exI [of _ "take n (rest s)"])
  qed
qed

lemma byte_guarded: "roomy \<Longrightarrow> guarded ok rest (byte_read get)"
  unfolding byte_read_def [abs_def] by (intro guarded_intros get_guarded)

lemma fint_guarded: "roomy \<Longrightarrow> guarded ok rest (fint_read get sg native e)"
  unfolding fint_read_def [abs_def] Let_def by (intro guarded_intros get_guarded)

lemma body_guarded: "roomy \<Longrightarrow> guarded ok rest (body_read get n)"
  unfolding body_read_def [abs_def] by (intro guarded_intros get_guarded) simp_all

lemma varint_guarded: "roomy \<Longrightarrow> guarded ok rest (varint_read get i r)"
proof (induction "LENGTH('a) - i" arbitrary: i r rule: less_induct)
  case (less i r)
  have step: "guarded ok rest (\<lambda>s. rbind (byte_read get s) (\<lambda>(b, s').
      if b < 128 then Inr (r OR push_bit i (ucast b), s')
      else varint_read get (i + 7) (r OR push_bit i (ucast (b AND 127))) s'))"
    if "i < LENGTH('a)"
    using that less by (intro guarded_intros byte_guarded) simp_all
  show ?case
    by (subst varint_read.simps [abs_def]) (use step in \<open>cases "i < LENGTH('a)"\<close>, simp_all add: guarded_return)
qed

end

section \<open>A sink of bytes\<close>

locale byte_sink =
  fixes ok :: "'s \<Rightarrow> bool"
    and out :: "'s \<Rightarrow> byte list"
    and put :: "byte list \<Rightarrow> 's writer"
  assumes put_emits: "emits ok out (put bs) bs"
begin

lemma put2_emits: "emits ok out (\<lambda>s. rbind (put xs s) (put ys)) (xs @ ys)"
  by (intro emits_bind put_emits)

end

end
