(* ===== verification/Varint.thy ===== *)
theory Varint
  imports Stream
begin

text \<open>
  The variable-length integers of \<open>src/base/ByteArray.cpp\<close>: zigzag coding of signed values and the
  seven-bit groups with continuation bits.
\<close>

section \<open>Zigzag\<close>

definition EncodeZigzag32 :: "32 word \<Rightarrow> 32 word" where
  "EncodeZigzag32 v = (if sint v < 0 then (- v) * 2 - 1 else v * 2)"

definition EncodeZigzag64 :: "64 word \<Rightarrow> 64 word" where
  "EncodeZigzag64 v = (if sint v < 0 then (- v) * 2 - 1 else v * 2)"

definition DecodeZigzag32 :: "32 word \<Rightarrow> 32 word" where
  "DecodeZigzag32 v = drop_bit 1 v XOR - (v AND 1)"

definition DecodeZigzag64 :: "64 word \<Rightarrow> 64 word" where
  "DecodeZigzag64 v = drop_bit 1 v XOR - (v AND 1)"

text \<open>
  The encoders negate and double in signed arithmetic, whose overflow C++ leaves undefined; the
  model takes the two's complement result. These are the arguments for which the C++ expression
  stays in range.
\<close>

definition zigzag_in_range :: "nat \<Rightarrow> int \<Rightarrow> bool" where
  "zigzag_in_range n x \<longleftrightarrow>
     (if x < 0 then - x \<le> 2 ^ (n - 1) - 1 else x * 2 \<le> 2 ^ (n - 1) - 1)"

lemma zigzag_even:
  fixes v :: "'a::len word"
  assumes "2 * unat v < 2 ^ LENGTH('a)"
  shows "drop_bit 1 (v * 2) XOR - ((v * 2) AND 1) = v"
proof -
  have "v * 2 = word_of_nat (2 * unat v)"
    by (simp add: mult.commute)
  then have "unat (v * 2) = 2 * unat v"
    using assms by (intro of_nat_inverse) auto
  then have "unat (drop_bit 1 (v * 2)) = unat v"
    unfolding unat_drop_bit_eq by (simp add: drop_bit_eq_div)
  then have "drop_bit 1 (v * 2) = v"
    by (simp only: word_unat_eq_iff)
  moreover have "(v * 2) AND 1 = 0"
    by (simp add: and_one_eq mod_2_eq_odd)
  ultimately show ?thesis by simp
qed

lemma zigzag_odd:
  fixes u :: "'a::len word"
  assumes "0 < unat u" and "2 * unat u \<le> 2 ^ LENGTH('a)"
  shows "drop_bit 1 (u * 2 - 1) XOR - ((u * 2 - 1) AND 1) = - u"
proof -
  have "u * 2 - 1 = word_of_nat (2 * unat u - 1)"
    using assms(1) by (simp add: of_nat_diff mult.commute)
  moreover have "2 * unat u - 1 < 2 ^ LENGTH('a)" using assms by simp
  ultimately have val: "unat (u * 2 - 1) = 2 * unat u - 1"
    by (intro of_nat_inverse) auto
  have "unat (u - 1) = unat u - 1"
    using assms(1) by (simp add: unat_sub word_le_nat_alt Suc_leI)
  moreover have "unat (drop_bit 1 (u * 2 - 1)) = (2 * unat u - 1) div 2"
    unfolding unat_drop_bit_eq val by (simp add: drop_bit_eq_div)
  ultimately have half: "drop_bit 1 (u * 2 - 1) = u - 1"
    using assms(1) unfolding word_unat_eq_iff by linarith
  have "odd (u * 2 - 1)" by simp
  then have low: "(u * 2 - 1) AND 1 = 1" by (simp add: and_one_eq mod_2_eq_odd)
  have "(u - 1) XOR - 1 = NOT (u - 1)" by simp
  then show ?thesis
    by (simp only: half low minus_eq_not_minus_1 [of u])
qed

lemma sint_nonneg_unat:
  fixes v :: "'a::len word"
  assumes "0 \<le> sint v"
  shows "2 * unat v < 2 ^ LENGTH('a)"
proof -
  have "int (unat v) = sint v"
  proof -
    have "sint v < 2 ^ LENGTH('a)"
      by (rule less_le_trans [OF sint_less]) (simp add: power_increasing)
    then have "uint v = sint v"
      using assms by (simp add: uint_sint take_bit_int_eq_self)
    then show ?thesis by simp
  qed
  moreover have "sint v < 2 ^ (LENGTH('a) - 1)" using sint_less [of v] by simp
  ultimately have "int (2 * unat v) < int (2 * 2 ^ (LENGTH('a) - 1))" by simp
  then have "2 * unat v < 2 * 2 ^ (LENGTH('a) - 1)" by (simp only: of_nat_less_iff)
  then show ?thesis by (simp flip: power_Suc)
qed

lemma sint_neg_unat:
  fixes v :: "'a::len word"
  assumes "sint v < 0"
  shows "0 < unat (- v)" "2 * unat (- v) \<le> 2 ^ LENGTH('a)"
proof -
  have v: "v = word_of_int (sint v)" by simp
  have lo: "- (2 ^ (LENGTH('a) - 1)) \<le> sint v" by (rule sint_ge)
  have "- v = word_of_nat (nat (- sint v))"
    using assms by (subst v) simp
  moreover have "nat (- sint v) \<le> 2 ^ (LENGTH('a) - 1)" using lo by (simp add: nat_le_iff)
  moreover have "(2::nat) ^ LENGTH('a) = 2 * 2 ^ (LENGTH('a) - 1)" by (simp flip: power_Suc)
  moreover have "(0::nat) < 2 ^ (LENGTH('a) - 1)" by simp
  ultimately have "unat (- v) = nat (- sint v)"
    by (intro of_nat_inverse) (simp, linarith)
  then show "0 < unat (- v)" "2 * unat (- v) \<le> 2 ^ LENGTH('a)"
    using assms \<open>nat (- sint v) \<le> _\<close> \<open>2 ^ LENGTH('a) = _\<close> by auto
qed

lemma zigzag32: "DecodeZigzag32 (EncodeZigzag32 v) = v"
  using zigzag_even [of v] zigzag_odd [of "- v"] sint_nonneg_unat [of v] sint_neg_unat [of v]
  by (simp add: DecodeZigzag32_def EncodeZigzag32_def not_less)

lemma zigzag64: "DecodeZigzag64 (EncodeZigzag64 v) = v"
  using zigzag_even [of v] zigzag_odd [of "- v"] sint_nonneg_unat [of v] sint_neg_unat [of v]
  by (simp add: DecodeZigzag64_def EncodeZigzag64_def not_less)

text \<open>The codings are bijections: an injective map of a finite type into itself is onto.\<close>

lemma left_inverse_finite:
  fixes f g :: "'a::finite \<Rightarrow> 'a"
  assumes "\<And>x. f (g x) = x"
  shows "g (f y) = y"
proof -
  have "inj g" using assms by (rule inj_on_inverseI)
  then have "surj g" by (simp add: finite_UNIV_inj_surj)
  then obtain x where "y = g x" by (rule surjE)
  then show ?thesis using assms by simp
qed

lemma zigzag32_inverse: "EncodeZigzag32 (DecodeZigzag32 u) = u"
  by (rule left_inverse_finite) (rule zigzag32)

lemma zigzag64_inverse: "EncodeZigzag64 (DecodeZigzag64 u) = u"
  by (rule left_inverse_finite) (rule zigzag64)

section \<open>The groups of a variable-length integer\<close>

lemma varint_bytes_nonempty [simp]: "varint_bytes v \<noteq> []"
  by (subst varint_bytes.simps) simp

text \<open>A value below \<open>2 ^ m\<close> takes at most \<open>m / 7\<close> bytes, rounded up: the arrays \<open>tmp\<close> suffice.\<close>

lemma length_varint_bytes:
  assumes "unat v < 2 ^ m" and "0 < m"
  shows "length (varint_bytes v) \<le> (m + 6) div 7"
  using assms
proof (induction v arbitrary: m rule: varint_bytes.induct)
  case (1 v)
  show ?case
  proof (cases "128 \<le> unat v")
    case True
    have "7 < m"
    proof (rule ccontr)
      assume "\<not> 7 < m"
      then have "(2::nat) ^ m \<le> 2 ^ 7" by (intro power_increasing) auto
      then show False using True "1.prems"(1) by simp
    qed
    then have m: "m = (m - 7) + 7" by simp
    have "unat v < 2 ^ (m - 7) * 2 ^ 7"
      using "1.prems"(1) by (subst (asm) m) (simp only: power_add)
    then have "unat (drop_bit 7 v) < 2 ^ (m - 7)"
      by (simp add: unat_drop7 div_less_iff_less_mult)
    then have "length (varint_bytes (drop_bit 7 v)) \<le> (m - 7 + 6) div 7"
      using "1.IH" [OF True, of "m - 7"] \<open>7 < m\<close> by simp
    moreover have "(m + 6) div 7 = Suc ((m - 7 + 6) div 7)"
      using \<open>7 < m\<close> by (subst m) simp
    ultimately show ?thesis using True by (subst varint_bytes.simps) simp
  next
    case False
    then show ?thesis using "1.prems"(2) by (subst varint_bytes.simps) simp
  qed
qed

lemma length_varint_word:
  "length (varint_bytes (v :: 'a::len word)) \<le> (LENGTH('a) + 6) div 7"
  by (rule length_varint_bytes) auto

lemma varint_short: "unat v < 128 \<Longrightarrow> length (varint_bytes v) = 1"
  by (subst varint_bytes.simps) simp

text \<open>One group: the continuation bit and the seven payload bits of its byte.\<close>

lemma group_last:
  fixes v :: "'a::len word"
  assumes "unat v < 128" and "8 \<le> LENGTH('a)"
  shows "(ucast v :: byte) < 128" "ucast (ucast v :: byte) = v"
proof -
  have "unat (ucast v :: byte) = unat v"
    using assms(1) by (simp add: unsigned_ucast_eq take_bit_nat_eq_self)
  then show "(ucast v :: byte) < 128" using assms(1) by (simp add: word_less_nat_alt)
  have "unat (ucast (ucast v :: byte) :: 'a word) = take_bit LENGTH('a) (unat (ucast v :: byte))"
    by (rule unsigned_ucast_eq)
  also have "\<dots> = take_bit LENGTH('a) (unat v)"
    using \<open>unat (ucast v :: byte) = unat v\<close> by (simp only:)
  also have "\<dots> = unat v"
    by (rule take_bit_nat_eq_self) simp
  finally show "ucast (ucast v :: byte) = v" by (simp only: word_unat_eq_iff)
qed

lemma group_more:
  fixes v :: "'a::len word"
  shows "\<not> (ucast v AND 127) OR 128 < (128 :: byte)"
    and "((ucast v AND 127) OR 128) AND 127 = (ucast v AND 127 :: byte)"
proof -
  have "(128 :: byte) \<le> (ucast v AND 127) OR 128"
    by (simp add: word_le_def unsigned_or_eq or.commute [of _ 128] or_greater_eq)
  then show "\<not> (ucast v AND 127) OR 128 < (128 :: byte)" by simp
  show "((ucast v AND 127) OR 128) AND 127 = (ucast v AND 127 :: byte)"
    by (simp add: bit.conj_disj_distrib2 and.assoc)
qed

lemma group_join:
  fixes v :: "'a::len word"
  assumes "8 \<le> LENGTH('a)"
  shows "push_bit i (ucast (ucast v AND 127 :: byte)) OR push_bit (i + 7) (drop_bit 7 v) = push_bit i v"
proof (rule bit_word_eqI)
  fix n assume n: "n < LENGTH('a)"
  have m127: "bit (127 :: byte) k \<longleftrightarrow> k < 7" if "k < 8" for k
  proof -
    have "(127 :: byte) = mask 7" by (simp add: mask_eq_exp_minus_1)
    then show ?thesis using that by (simp only: bit_mask_iff) auto
  qed
  have "bit (ucast (ucast v AND 127 :: byte) :: 'a word) k \<longleftrightarrow> k < 7 \<and> bit v k" for k
    using assms m127 [of k]
    by (cases "k < 8") (auto simp: bit_ucast_iff bit_and_iff dest: bit_imp_le_length)
  note low = this
  show "bit (push_bit i (ucast (ucast v AND 127 :: byte)) OR push_bit (i + 7) (drop_bit 7 v)) n
      \<longleftrightarrow> bit (push_bit i v) n"
  proof (cases "n < i")
    case True
    then show ?thesis by (simp add: bit_or_iff bit_push_bit_iff)
  next
    case False
    then obtain k where k: "n = i + k" by (auto simp: not_less le_iff_add)
    show ?thesis
      using n low [of k]
      by (cases "k < 7") (auto simp: k bit_or_iff bit_push_bit_iff bit_drop_bit_eq)
  qed
qed

text \<open>If another group follows, there are bits left for it.\<close>

lemma varint_room:
  fixes v :: "'a::len word"
  assumes "unat v < 2 ^ (LENGTH('a) - i)" and "128 \<le> unat v"
  shows "i + 7 < LENGTH('a)" "unat (drop_bit 7 v) < 2 ^ (LENGTH('a) - (i + 7))"
proof -
  have 7: "7 < LENGTH('a) - i"
  proof (rule ccontr)
    assume "\<not> 7 < LENGTH('a) - i"
    then have "(2::nat) ^ (LENGTH('a) - i) \<le> 2 ^ 7" by (intro power_increasing) auto
    then show False using assms by simp
  qed
  then show "i + 7 < LENGTH('a)" by simp
  have i7: "LENGTH('a) - i = (LENGTH('a) - (i + 7)) + 7" using 7 by simp
  have "unat v < 2 ^ (LENGTH('a) - (i + 7)) * 2 ^ 7"
    using assms(1) by (subst (asm) i7) (simp only: power_add)
  then show "unat (drop_bit 7 v) < 2 ^ (LENGTH('a) - (i + 7))"
    by (simp add: unat_drop7 div_less_iff_less_mult)
qed

context byte_source
begin

lemma varint_parses_at:
  fixes v r :: "'a::len word"
  assumes "8 \<le> LENGTH('a)" and "i < LENGTH('a)" and "unat v < 2 ^ (LENGTH('a) - i)"
  shows "parses ok rest (varint_read get i r) (varint_bytes v) (r OR push_bit i v)"
  using assms
proof (induction v arbitrary: i r rule: varint_bytes.induct)
  case (1 v)
  let ?g = "\<lambda>(b :: byte) s'. if b < 128 then Inr (r OR push_bit i (ucast b), s')
          else varint_read get (i + 7) (r OR push_bit i (ucast (b AND 127))) s'"
  show ?case
  proof (cases "128 \<le> unat v")
    case True
    let ?b = "(ucast v AND 127) OR 128 :: byte"
    let ?r = "r OR push_bit i (ucast (?b AND 127)) :: 'a word"
    have "i + 7 < LENGTH('a)" "unat (drop_bit 7 v) < 2 ^ (LENGTH('a) - (i + 7))"
      by (rule varint_room [OF "1.prems"(3) True])+
    then have "parses ok rest (varint_read get (i + 7) ?r) (varint_bytes (drop_bit 7 v))
        (?r OR push_bit (i + 7) (drop_bit 7 v))"
      using "1.prems"(1) by (intro "1.IH" [OF True])
    then have "parses ok rest (varint_read get (i + 7) ?r) (varint_bytes (drop_bit 7 v))
        (r OR push_bit i v)"
      using group_join [OF "1.prems"(1), of i v] by (simp add: group_more or.assoc)
    then have step: "parses ok rest (?g ?b) (varint_bytes (drop_bit 7 v)) (r OR push_bit i v)"
      by (simp only: group_more(1) if_False)
    show ?thesis
      using parses_bind [where g = ?g, OF byte_parses step] "1.prems"(2) True
      by (subst varint_read.simps [abs_def], subst varint_bytes.simps) simp
  next
    case False
    then have v: "unat v < 128" by simp
    have step: "parses ok rest (?g (ucast v)) [] (r OR push_bit i v)"
      using group_last [OF v "1.prems"(1)] by (simp add: parses_return)
    show ?thesis
      using parses_bind [where g = ?g, OF byte_parses step] "1.prems"(2) False
      by (subst varint_read.simps [abs_def], subst varint_bytes.simps) simp
  qed
qed

lemma varint_parses:
  assumes "8 \<le> LENGTH('a::len)"
  shows "parses ok rest (varint_read get 0 0) (varint_bytes v) (v :: 'a word)"
  using varint_parses_at [OF assms, of 0 v 0] by simp

lemma varint_starves_at:
  fixes v r :: "'a::len word"
  assumes "8 \<le> LENGTH('a)" and "i < LENGTH('a)" and "unat v < 2 ^ (LENGTH('a) - i)"
  shows "starves ok rest (varint_read get i r) (varint_bytes v)"
  using assms
proof (induction v arbitrary: i r rule: varint_bytes.induct)
  case (1 v)
  let ?g = "\<lambda>(b :: byte) s'. if b < 128 then Inr (r OR push_bit i (ucast b), s')
          else varint_read get (i + 7) (r OR push_bit i (ucast (b AND 127))) s'"
  have eq: "varint_read get i r = (\<lambda>s. rbind (byte_read get s) (\<lambda>(b, s'). ?g b s'))"
    using "1.prems"(2) by (intro ext) (simp add: varint_read.simps [of get i r])
  show ?case
  proof (cases "128 \<le> unat v")
    case True
    let ?b = "(ucast v AND 127) OR 128 :: byte"
    have i7: "i + 7 < LENGTH('a)" "unat (drop_bit 7 v) < 2 ^ (LENGTH('a) - (i + 7))"
      using varint_room [OF "1.prems"(3) True] by auto
    have "starves ok rest (?g ?b) (varint_bytes (drop_bit 7 v))"
      using "1.IH" [OF True "1.prems"(1) i7] by (simp add: group_more(1))
    then have "starves ok rest (\<lambda>s. rbind (byte_read get s) (\<lambda>(b, s'). ?g b s'))
        ([?b] @ varint_bytes (drop_bit 7 v))"
      by (rule starves_bind [where g = ?g, OF byte_starves byte_parses])
    then show ?thesis using True by (simp add: eq varint_bytes.simps [of v])
  next
    case False
    then show ?thesis
      using starves_map [OF byte_starves] by (simp add: eq varint_bytes.simps [of v])
  qed
qed

lemma varint_starves:
  assumes "8 \<le> LENGTH('a::len)"
  shows "starves ok rest (varint_read get 0 (0 :: 'a word)) (varint_bytes (v :: 'a word))"
  using varint_starves_at [OF assms, of 0 v 0] by simp

end

end
