(* ===== verification/Codec.thy ===== *)
theory Codec
  imports Tape Varint
begin

text \<open>
  The typed operations of \<open>ByteArray\<close> (\<open>writeFint8\<close> to \<open>readStringVint\<close>): each is an encoding of
  \<open>Stream\<close> run on the buffer's \<open>write\<close> and \<open>read\<close>. The buffer provides the two interfaces of
  \<open>Stream\<close>, so what the operations write and read back follows from the lemmas proved there.
\<close>

section \<open>The buffer as a source and a sink of bytes\<close>

text \<open>
  A buffer whose cells have all been written. With \<open>r\<close>, the chain also has room after the last
  byte, so that the position never leaves the chain and \<open>cur_\<close> is never null.
\<close>

definition readable :: "bool \<Rightarrow> endian \<Rightarrow> byte_array \<Rightarrow> bool" where
  "readable r e b \<longleftrightarrow>
     ba_inv b \<and> (r \<longrightarrow> ba_size b < ba_cap b) \<and> None \<notin> set (content b) \<and> ba_endian b = e"

definition ba_rest :: "byte_array \<Rightarrow> byte list" where
  "ba_rest b = map the (drop (ba_pos b) (content b))"

text \<open>A buffer that is written at its end.\<close>

definition writable :: "nat \<Rightarrow> endian \<Rightarrow> byte_array \<Rightarrow> bool" where
  "writable k e b \<longleftrightarrow> ba_inv b \<and> ba_pos b = ba_size b \<and> None \<notin> set (content b) \<and>
     ba_endian b = e \<and> ba_base b = k"

definition ba_out :: "byte_array \<Rightarrow> byte list" where
  "ba_out b = map the (content b)"

lemma load_Some [simp]: "load (map Some bs) = Inr bs"
  by (auto simp: load_def comp_def)

lemma map_Some_the: "None \<notin> set cs \<Longrightarrow> map Some (map the cs) = cs"
  by (induction cs) auto

lemma load_written: "None \<notin> set cs \<Longrightarrow> load cs = Inr (map the cs)"
  by (simp add: load_def)

lemma None_notin_set:
  "None \<notin> set cs \<Longrightarrow> None \<notin> set (take n cs) \<and> None \<notin> set (drop n cs)"
  by (auto dest: in_set_takeD in_set_dropD)

lemma length_ba_rest: "ba_inv b \<Longrightarrow> length (ba_rest b) = getReadSize b"
  using ba_inv_sizes [of b] by (simp add: ba_rest_def)

interpretation src: byte_source "readable r e" ba_rest ba_read r for r e
proof unfold_locales
  fix bs :: "byte list"
  assume ne: "bs \<noteq> [] \<or> r"
  show "parses (readable r e) ba_rest (ba_read (length bs)) bs bs"
    unfolding parses_def
  proof (intro allI impI, elim conjE)
    fix b zs assume b: "readable r e b" "ba_rest b = bs @ zs"
    then have inv: "ba_inv b" and room: "r \<longrightarrow> ba_size b < ba_cap b" and w: "None \<notin> set (content b)"
      by (auto simp: readable_def)
    note sz = ba_inv_sizes [OF inv]
    have len: "length bs \<le> getReadSize b"
      using length_ba_rest [OF inv] b(2) by simp
    let ?b' = "b\<lparr>ba_pos := ba_pos b + length bs, ba_cur := (ba_pos b + length bs) div ba_base b\<rparr>"
    have raw: "raw_read (length bs) b = Inr (take (length bs) (drop (ba_pos b) (content b)), ?b')"
      by (rule raw_read_eq [OF inv len]) (use sz room ne in auto)
    have "map the (take (length bs) (drop (ba_pos b) (content b))) = bs"
      using b(2) by (simp add: ba_rest_def flip: take_map)
    moreover have "None \<notin> set (take (length bs) (drop (ba_pos b) (content b)))"
      using w by (auto dest: in_set_takeD in_set_dropD)
    ultimately have "ba_read (length bs) b = Inr (bs, ?b')"
      by (simp add: ba_read_def raw load_written)
    moreover have "readable r e ?b'"
      using b inv sz len by (auto simp: readable_def content_def ba_inv_def)
    moreover have "ba_rest ?b' = drop (length bs) (ba_rest b)"
      by (simp add: ba_rest_def content_def drop_map add.commute)
    then have "ba_rest ?b' = zs" using b(2) by simp
    ultimately show "\<exists>s'. ba_read (length bs) b = Inr (bs, s') \<and> readable r e s' \<and> ba_rest s' = zs"
      by blast
  qed
next
  fix b n assume "readable r e b" and "length (ba_rest b) < n"
  then show "ba_read n b = Inl Out_of_range"
    using length_ba_rest [of b] by (simp add: readable_def ba_read_def raw_read_short)
qed

interpretation snk: byte_sink "writable k e" ba_out ba_write for k e
proof unfold_locales
  fix bs :: "byte list"
  show "emits (writable k e) ba_out (ba_write bs) bs"
    unfolding emits_def
  proof (intro allI impI)
    fix b assume b: "writable k e b"
    then have inv: "ba_inv b" and w: "None \<notin> set (content b)" and at: "ba_pos b = ba_size b"
      by (auto simp: writable_def)
    obtain b' where b': "ba_write bs b = Inr b'" "ba_inv b'" "tape_of b' = tape_write bs (tape_of b)"
        "same_setup b b'"
      using ba_write_ok [OF inv, of bs] .
    have "content b' = content b @ map Some bs" "ba_pos b' = ba_pos b + length bs"
      using b'(3) at ba_inv_sizes [OF inv] by (auto simp: tape_of_def tape_write_def)
    then show "\<exists>s'. ba_write bs b = Inr s' \<and> writable k e s' \<and> ba_out s' = ba_out b @ bs"
      using b b' ba_inv_sizes(4) [OF inv] ba_inv_sizes(4) [OF b'(2)]
      by (auto simp: writable_def ba_out_def same_setup_def)
  qed
qed

text \<open>
  From writing to reading: what was appended from position \<open>p\<close> on is what is read from there. The
  chain has room after it unless it ends exactly at the end of a block.
\<close>

lemma rewind_readable:
  assumes "writable k e b" and "p \<le> ba_size b"
    and "r \<Longrightarrow> ba_size b mod k \<noteq> 0 \<or> ba_size b = 0"
  obtains b' where "setPosition p b = Inr b'" "readable r e b'" "ba_rest b' = drop p (ba_out b)"
    "ba_base b' = ba_base b"
proof -
  have inv: "ba_inv b" and w: "None \<notin> set (content b)" using assms(1) by (auto simp: writable_def)
  have "ba_cap b = ba_base b * length (ba_nodes b)" "ba_size b \<le> ba_cap b" "ba_nodes b \<noteq> []"
    using inv by (auto simp: ba_inv_def)
  moreover have "ba_base b = k" using assms(1) by (simp add: writable_def)
  ultimately have room: "r \<Longrightarrow> ba_size b < ba_cap b"
    using assms(3) ba_inv_base [OF inv] by (cases "ba_size b = ba_cap b") auto
  obtain b' where b': "setPosition p b = Inr b'" "ba_inv b'" "tape_of b' = (content b, p)"
      "same_setup b b'" "ba_cap b' = ba_cap b"
    using setPosition_within [OF inv assms(2)] by blast
  then have "ba_size b' = ba_size b"
    using ba_inv_sizes(4) [OF inv] ba_inv_sizes(4) [OF b'(2)] by (auto simp: tape_of_def)
  then show thesis
    using that [of b'] b' room w assms(1)
    by (auto simp: readable_def writable_def tape_of_def same_setup_def ba_rest_def ba_out_def drop_map)
qed

lemma new_writable: "0 < k \<Longrightarrow> writable k Big (new_byte_array k) \<and> ba_out (new_byte_array k) = []"
  using new_byte_array_ok [of k] ba_inv_sizes(4) [of "new_byte_array k"]
  by (auto simp: writable_def ba_out_def tape_of_def)

lemma writable_size: "writable k e b \<Longrightarrow> ba_size b = length (ba_out b)"
  using ba_inv_sizes(4) [of b] by (simp add: writable_def ba_out_def)

section \<open>Operations that write\<close>

definition writeFint :: "bool \<Rightarrow> 'a::len word \<Rightarrow> byte_array \<Rightarrow> byte_array outcome" where
  "writeFint sg v b = ba_write (fint_bytes sg native_endian (ba_endian b) v) b"

definition writeFint8 :: "8 word \<Rightarrow> byte_array \<Rightarrow> byte_array outcome" where
  "writeFint8 v = ba_write [v]"

definition writeFuint8 :: "8 word \<Rightarrow> byte_array \<Rightarrow> byte_array outcome" where
  "writeFuint8 v = ba_write [v]"

definition writeFint16 :: "16 word \<Rightarrow> byte_array \<Rightarrow> byte_array outcome" where
  "writeFint16 = writeFint True"

definition writeFuint16 :: "16 word \<Rightarrow> byte_array \<Rightarrow> byte_array outcome" where
  "writeFuint16 = writeFint False"

definition writeFint32 :: "32 word \<Rightarrow> byte_array \<Rightarrow> byte_array outcome" where
  "writeFint32 = writeFint True"

definition writeFuint32 :: "32 word \<Rightarrow> byte_array \<Rightarrow> byte_array outcome" where
  "writeFuint32 = writeFint False"

definition writeFint64 :: "64 word \<Rightarrow> byte_array \<Rightarrow> byte_array outcome" where
  "writeFint64 = writeFint True"

definition writeFuint64 :: "64 word \<Rightarrow> byte_array \<Rightarrow> byte_array outcome" where
  "writeFuint64 = writeFint False"

definition writeUint32 :: "32 word \<Rightarrow> byte_array \<Rightarrow> byte_array outcome" where
  "writeUint32 v = ba_write (varint_bytes v)"

definition writeUint64 :: "64 word \<Rightarrow> byte_array \<Rightarrow> byte_array outcome" where
  "writeUint64 v = ba_write (varint_bytes v)"

definition writeInt32 :: "32 word \<Rightarrow> byte_array \<Rightarrow> byte_array outcome" where
  "writeInt32 v = writeUint32 (EncodeZigzag32 v)"

definition writeInt64 :: "64 word \<Rightarrow> byte_array \<Rightarrow> byte_array outcome" where
  "writeInt64 v = writeUint64 (EncodeZigzag64 v)"

text \<open>Floating-point values are their bit patterns (\<open>memcpy\<close> into an integer of the same size).\<close>

definition writeFloat :: "32 word \<Rightarrow> byte_array \<Rightarrow> byte_array outcome" where
  "writeFloat v = writeFuint32 v"

definition writeDouble :: "64 word \<Rightarrow> byte_array \<Rightarrow> byte_array outcome" where
  "writeDouble v = writeFuint64 v"

definition writeStringF16 :: "byte list \<Rightarrow> byte_array \<Rightarrow> byte_array outcome" where
  "writeStringF16 s b = rbind (writeFuint16 (word_of_nat (length s)) b) (ba_write s)"

definition writeStringF32 :: "byte list \<Rightarrow> byte_array \<Rightarrow> byte_array outcome" where
  "writeStringF32 s b = rbind (writeFuint32 (word_of_nat (length s)) b) (ba_write s)"

definition writeStringF64 :: "byte list \<Rightarrow> byte_array \<Rightarrow> byte_array outcome" where
  "writeStringF64 s b = rbind (writeFuint64 (word_of_nat (length s)) b) (ba_write s)"

definition writeStringVint :: "byte list \<Rightarrow> byte_array \<Rightarrow> byte_array outcome" where
  "writeStringVint s b = rbind (writeUint64 (word_of_nat (length s)) b) (ba_write s)"

definition writeStringWithoutLength :: "byte list \<Rightarrow> byte_array \<Rightarrow> byte_array outcome" where
  "writeStringWithoutLength s = ba_write s"

section \<open>Operations that read\<close>

definition readFint8 :: "(byte_array, 8 word) reader" where
  "readFint8 = byte_read ba_read"

definition readFuint8 :: "(byte_array, 8 word) reader" where
  "readFuint8 = byte_read ba_read"

definition readFint :: "bool \<Rightarrow> (byte_array, 'a::len word) reader" where
  "readFint sg b = fint_read ba_read sg native_endian (ba_endian b) b"

definition readFint16 :: "(byte_array, 16 word) reader" where
  "readFint16 = readFint True"

definition readFuint16 :: "(byte_array, 16 word) reader" where
  "readFuint16 = readFint False"

definition readFint32 :: "(byte_array, 32 word) reader" where
  "readFint32 = readFint True"

definition readFuint32 :: "(byte_array, 32 word) reader" where
  "readFuint32 = readFint False"

definition readFint64 :: "(byte_array, 64 word) reader" where
  "readFint64 = readFint True"

definition readFuint64 :: "(byte_array, 64 word) reader" where
  "readFuint64 = readFint False"

definition readUint32 :: "(byte_array, 32 word) reader" where
  "readUint32 = varint_read ba_read 0 0"

definition readUint64 :: "(byte_array, 64 word) reader" where
  "readUint64 = varint_read ba_read 0 0"

definition readInt32 :: "(byte_array, 32 word) reader" where
  "readInt32 b = rbind (readUint32 b) (\<lambda>(v, b'). Inr (DecodeZigzag32 v, b'))"

definition readInt64 :: "(byte_array, 64 word) reader" where
  "readInt64 b = rbind (readUint64 b) (\<lambda>(v, b'). Inr (DecodeZigzag64 v, b'))"

definition readFloat :: "(byte_array, 32 word) reader" where
  "readFloat = readFuint32"

definition readDouble :: "(byte_array, 64 word) reader" where
  "readDouble = readFuint64"

definition readStringF16 :: "(byte_array, byte list) reader" where
  "readStringF16 b = rbind (readFuint16 b) (\<lambda>(len, b'). body_read ba_read (unat len) b')"

definition readStringF32 :: "(byte_array, byte list) reader" where
  "readStringF32 b = rbind (readFuint32 b) (\<lambda>(len, b'). body_read ba_read (unat len) b')"

definition readStringF64 :: "(byte_array, byte list) reader" where
  "readStringF64 b = rbind (readFuint64 b) (\<lambda>(len, b'). body_read ba_read (unat len) b')"

definition readStringVint :: "(byte_array, byte list) reader" where
  "readStringVint b = rbind (readUint64 b) (\<lambda>(len, b'). body_read ba_read (unat len) b')"

section \<open>What is written\<close>

lemma emits_writeFint:
  assumes "LENGTH('a::len) \<in> {16, 32, 64}"
  shows "emits (writable k e) ba_out (writeFint sg (v :: 'a word)) (mem_bytes e v)"
  unfolding emits_def
proof (intro allI impI)
  fix b assume b: "writable k e b"
  then have "fint_bytes sg native_endian (ba_endian b) v = mem_bytes e v"
    using fint_bytes_eq [OF assms] by (simp add: writable_def)
  then show "\<exists>s'. writeFint sg v b = Inr s' \<and> writable k e s' \<and> ba_out s' = ba_out b @ mem_bytes e v"
    using emitsD [OF snk.put_emits b] by (metis writeFint_def)
qed

lemma emits_fixed [emit_intros]:
  "emits (writable k e) ba_out (writeFint8 w8) [w8]"
  "emits (writable k e) ba_out (writeFuint8 w8) [w8]"
  "emits (writable k e) ba_out (writeFint16 w16) (mem_bytes e w16)"
  "emits (writable k e) ba_out (writeFuint16 w16) (mem_bytes e w16)"
  "emits (writable k e) ba_out (writeFint32 w32) (mem_bytes e w32)"
  "emits (writable k e) ba_out (writeFuint32 w32) (mem_bytes e w32)"
  "emits (writable k e) ba_out (writeFint64 w64) (mem_bytes e w64)"
  "emits (writable k e) ba_out (writeFuint64 w64) (mem_bytes e w64)"
  "emits (writable k e) ba_out (writeFloat w32) (mem_bytes e w32)"
  "emits (writable k e) ba_out (writeDouble w64) (mem_bytes e w64)"
  by (simp_all add: writeFint8_def writeFuint8_def writeFint16_def writeFuint16_def writeFint32_def
      writeFuint32_def writeFint64_def writeFuint64_def writeFloat_def writeDouble_def
      snk.put_emits emits_writeFint)

lemma emits_varint [emit_intros]:
  "emits (writable k e) ba_out (writeUint32 w32) (varint_bytes w32)"
  "emits (writable k e) ba_out (writeUint64 w64) (varint_bytes w64)"
  "emits (writable k e) ba_out (writeInt32 w32) (varint_bytes (EncodeZigzag32 w32))"
  "emits (writable k e) ba_out (writeInt64 w64) (varint_bytes (EncodeZigzag64 w64))"
  by (simp_all add: writeUint32_def writeUint64_def writeInt32_def writeInt64_def snk.put_emits)

lemma emits_string [emit_intros]:
  "emits (writable k e) ba_out (writeStringF16 s) (mem_bytes e (word_of_nat (length s) :: 16 word) @ s)"
  "emits (writable k e) ba_out (writeStringF32 s) (mem_bytes e (word_of_nat (length s) :: 32 word) @ s)"
  "emits (writable k e) ba_out (writeStringF64 s) (mem_bytes e (word_of_nat (length s) :: 64 word) @ s)"
  "emits (writable k e) ba_out (writeStringVint s) (varint_bytes (word_of_nat (length s) :: 64 word) @ s)"
  "emits (writable k e) ba_out (writeStringWithoutLength s) s"
  unfolding writeStringF16_def [abs_def] writeStringF32_def [abs_def] writeStringF64_def [abs_def]
    writeStringVint_def [abs_def] writeStringWithoutLength_def
  by (intro emit_intros snk.put_emits)+

section \<open>What is read\<close>

lemma parses_readFint:
  assumes "LENGTH('a::len) \<in> {16, 32, 64}"
  shows "parses (readable r e) ba_rest (readFint sg) (mem_bytes e (v :: 'a word)) v"
  using src.fint_parses [OF assms, of r e sg native_endian e v]
  by (simp add: parses_def readFint_def readable_def)

lemma parses_fixed [parse_intros]:
  "parses (readable r e) ba_rest readFint8 [w8] w8"
  "parses (readable r e) ba_rest readFuint8 [w8] w8"
  "parses (readable r e) ba_rest readFint16 (mem_bytes e w16) w16"
  "parses (readable r e) ba_rest readFuint16 (mem_bytes e w16) w16"
  "parses (readable r e) ba_rest readFint32 (mem_bytes e w32) w32"
  "parses (readable r e) ba_rest readFuint32 (mem_bytes e w32) w32"
  "parses (readable r e) ba_rest readFint64 (mem_bytes e w64) w64"
  "parses (readable r e) ba_rest readFuint64 (mem_bytes e w64) w64"
  "parses (readable r e) ba_rest readFloat (mem_bytes e w32) w32"
  "parses (readable r e) ba_rest readDouble (mem_bytes e w64) w64"
  by (simp_all add: readFint8_def readFuint8_def readFint16_def readFuint16_def readFint32_def
      readFuint32_def readFint64_def readFuint64_def readFloat_def readDouble_def
      src.byte_parses parses_readFint)

lemma parses_varint [parse_intros]:
  "parses (readable r e) ba_rest readUint32 (varint_bytes w32) w32"
  "parses (readable r e) ba_rest readUint64 (varint_bytes w64) w64"
  by (simp_all add: readUint32_def readUint64_def src.varint_parses)

lemma parses_zigzag [parse_intros]:
  "parses (readable r e) ba_rest readInt32 (varint_bytes (EncodeZigzag32 w32)) w32"
  "parses (readable r e) ba_rest readInt64 (varint_bytes (EncodeZigzag64 w64)) w64"
  using parses_map [OF parses_varint(1) [of r e "EncodeZigzag32 w32"], where h = DecodeZigzag32]
    parses_map [OF parses_varint(2) [of r e "EncodeZigzag64 w64"], where h = DecodeZigzag64]
  by (simp_all add: readInt32_def [abs_def] readInt64_def [abs_def] zigzag32 zigzag64)

text \<open>A length-prefixed string, for any reader of the prefix.\<close>

lemma parses_prefixed:
  assumes "parses (readable r e) ba_rest f pre len" and "h len = length s"
    and "length s \<le> string_max_size" and "s \<noteq> [] \<or> r"
  shows "parses (readable r e) ba_rest (\<lambda>b. rbind (f b) (\<lambda>(n, b'). body_read ba_read (h n) b')) (pre @ s) s"
  by (rule parses_bind [where g = "\<lambda>n b'. body_read ba_read (h n) b'", OF assms(1)])
     (use assms(2,3,4) in \<open>auto intro: src.body_parses\<close>)

lemma parses_string:
  "length s < 2 ^ 16 \<Longrightarrow> s \<noteq> [] \<or> r \<Longrightarrow>
    parses (readable r e) ba_rest readStringF16 (mem_bytes e (word_of_nat (length s) :: 16 word) @ s) s"
  "length s < 2 ^ 32 \<Longrightarrow> s \<noteq> [] \<or> r \<Longrightarrow>
    parses (readable r e) ba_rest readStringF32 (mem_bytes e (word_of_nat (length s) :: 32 word) @ s) s"
  "length s < 2 ^ 62 \<Longrightarrow> s \<noteq> [] \<or> r \<Longrightarrow>
    parses (readable r e) ba_rest readStringF64 (mem_bytes e (word_of_nat (length s) :: 64 word) @ s) s"
  "length s < 2 ^ 62 \<Longrightarrow> s \<noteq> [] \<or> r \<Longrightarrow>
    parses (readable r e) ba_rest readStringVint (varint_bytes (word_of_nat (length s) :: 64 word) @ s) s"
  unfolding readStringF16_def [abs_def] readStringF32_def [abs_def] readStringF64_def [abs_def]
    readStringVint_def [abs_def]
  by (rule parses_prefixed, rule parse_intros,
      auto simp: string_max_size_def unat_of_nat take_bit_nat_eq_self)+

text \<open>Reading nothing is harmless wherever more bytes follow.\<close>

lemma read_nothing:
  assumes "readable r e b" and "ba_rest b \<noteq> []"
  obtains b' where "ba_read 0 b = Inr ([], b')" "readable r e b'" "ba_rest b' = ba_rest b"
proof -
  have inv: "ba_inv b" using assms(1) by (simp add: readable_def)
  note sz = ba_inv_sizes [OF inv]
  have "ba_pos b < ba_cap b" using assms(2) length_ba_rest [OF inv] sz by (auto simp flip: length_greater_0_conv)
  then have raw: "raw_read 0 b = Inr ([], b\<lparr>ba_pos := ba_pos b, ba_cur := ba_pos b div ba_base b\<rparr>)"
    using raw_read_eq [OF inv, of 0] by simp
  show thesis
    by (rule that [of "b\<lparr>ba_pos := ba_pos b, ba_cur := ba_pos b div ba_base b\<rparr>"])
      (use assms(1) inv raw in \<open>auto simp: ba_read_def load_def readable_def ba_rest_def content_def ba_inv_def\<close>)
qed

lemma readStringVint_empty:
  assumes "readable r e b" and "ba_rest b = varint_bytes (0 :: 64 word) @ zs" and "zs \<noteq> []"
  obtains b' where "readStringVint b = Inr ([], b')" "readable r e b'" "ba_rest b' = zs"
proof -
  obtain b1 where b1: "readUint64 b = Inr (0, b1)" "readable r e b1" "ba_rest b1 = zs"
    by (rule parsesD [OF parses_varint(2) assms(1,2)])
  obtain b2 where "ba_read 0 b1 = Inr ([], b2)" "readable r e b2" "ba_rest b2 = ba_rest b1"
    by (rule read_nothing [OF b1(2)]) (use b1(3) assms(3) in auto)
  then show thesis using that [of b2] b1 by (simp add: readStringVint_def body_read_def)
qed

section \<open>Truncated input\<close>

lemma starves_readFint:
  "starves (readable r e) ba_rest (readFint sg :: (byte_array, 'a::len word) reader) (mem_bytes e (v :: 'a word))"
  using src.fint_starves [of r e sg native_endian e v]
  by (simp add: starves_def readFint_def readable_def)

lemma starves_fixed [starve_intros]:
  "starves (readable r e) ba_rest readFint8 [w8]"
  "starves (readable r e) ba_rest readFuint8 [w8]"
  "starves (readable r e) ba_rest readFint16 (mem_bytes e (w16 :: 16 word))"
  "starves (readable r e) ba_rest readFuint16 (mem_bytes e (w16 :: 16 word))"
  "starves (readable r e) ba_rest readFint32 (mem_bytes e (w32 :: 32 word))"
  "starves (readable r e) ba_rest readFuint32 (mem_bytes e (w32 :: 32 word))"
  "starves (readable r e) ba_rest readFint64 (mem_bytes e (w64 :: 64 word))"
  "starves (readable r e) ba_rest readFuint64 (mem_bytes e (w64 :: 64 word))"
  "starves (readable r e) ba_rest readFloat (mem_bytes e (w32 :: 32 word))"
  "starves (readable r e) ba_rest readDouble (mem_bytes e (w64 :: 64 word))"
  by (simp_all add: readFint8_def readFuint8_def readFint16_def readFuint16_def readFint32_def
      readFuint32_def readFint64_def readFuint64_def readFloat_def readDouble_def
      src.byte_starves starves_readFint)

lemma starves_varint [starve_intros]:
  "starves (readable r e) ba_rest readUint32 (varint_bytes (w32 :: 32 word))"
  "starves (readable r e) ba_rest readUint64 (varint_bytes (w64 :: 64 word))"
  "starves (readable r e) ba_rest readInt32 (varint_bytes (EncodeZigzag32 w32))"
  "starves (readable r e) ba_rest readInt64 (varint_bytes (EncodeZigzag64 w64))"
  unfolding readInt32_def [abs_def] readInt64_def [abs_def] readUint32_def readUint64_def
  by (intro starves_map src.varint_starves, simp)+

lemma starves_prefixed:
  assumes "parses (readable r e) ba_rest f pre len" and "starves (readable r e) ba_rest f pre"
    and "h len = length s" and "length s \<le> string_max_size"
  shows "starves (readable r e) ba_rest (\<lambda>b. rbind (f b) (\<lambda>(n, b'). body_read ba_read (h n) b')) (pre @ s)"
  by (rule starves_bind [where g = "\<lambda>n b'. body_read ba_read (h n) b'", OF assms(2,1)])
     (use assms(3,4) in \<open>auto intro: src.body_starves\<close>)

lemma starves_string [starve_intros]:
  "length s < 2 ^ 16 \<Longrightarrow>
    starves (readable r e) ba_rest readStringF16 (mem_bytes e (word_of_nat (length s) :: 16 word) @ s)"
  "length s < 2 ^ 32 \<Longrightarrow>
    starves (readable r e) ba_rest readStringF32 (mem_bytes e (word_of_nat (length s) :: 32 word) @ s)"
  "length s < 2 ^ 62 \<Longrightarrow>
    starves (readable r e) ba_rest readStringF64 (mem_bytes e (word_of_nat (length s) :: 64 word) @ s)"
  "length s < 2 ^ 62 \<Longrightarrow>
    starves (readable r e) ba_rest readStringVint (varint_bytes (word_of_nat (length s) :: 64 word) @ s)"
  unfolding readStringF16_def [abs_def] readStringF32_def [abs_def] readStringF64_def [abs_def]
    readStringVint_def [abs_def]
  by (rule starves_prefixed, rule parse_intros, rule starve_intros,
      auto simp: string_max_size_def unat_of_nat take_bit_nat_eq_self)+

section \<open>Arbitrary input\<close>

lemma guarded_readFint:
  "guarded (readable True e) ba_rest (readFint sg :: (byte_array, 'a::len word) reader)"
  using src.fint_guarded [of True e sg native_endian e]
  by (simp add: guarded_def readFint_def readable_def)

lemma guarded_fixed [guarded_intros]:
  "guarded (readable True e) ba_rest readFint8"
  "guarded (readable True e) ba_rest readFuint8"
  "guarded (readable True e) ba_rest readFint16"
  "guarded (readable True e) ba_rest readFuint16"
  "guarded (readable True e) ba_rest readFint32"
  "guarded (readable True e) ba_rest readFuint32"
  "guarded (readable True e) ba_rest readFint64"
  "guarded (readable True e) ba_rest readFuint64"
  "guarded (readable True e) ba_rest readFloat"
  "guarded (readable True e) ba_rest readDouble"
  by (simp_all add: readFint8_def readFuint8_def readFint16_def readFuint16_def readFint32_def
      readFuint32_def readFint64_def readFuint64_def readFloat_def readDouble_def
      src.byte_guarded guarded_readFint)

lemma guarded_varint [guarded_intros]:
  "guarded (readable True e) ba_rest readUint32"
  "guarded (readable True e) ba_rest readUint64"
  "guarded (readable True e) ba_rest readInt32"
  "guarded (readable True e) ba_rest readInt64"
  unfolding readInt32_def [abs_def] readInt64_def [abs_def] readUint32_def readUint64_def
  by (intro guarded_intros src.varint_guarded TrueI)+

lemma guarded_string [guarded_intros]:
  "guarded (readable True e) ba_rest readStringF16"
  "guarded (readable True e) ba_rest readStringF32"
  "guarded (readable True e) ba_rest readStringF64"
  "guarded (readable True e) ba_rest readStringVint"
  unfolding readStringF16_def [abs_def] readStringF32_def [abs_def] readStringF64_def [abs_def]
    readStringVint_def [abs_def]
  by (intro guarded_intros src.body_guarded TrueI)+

end
