(* ===== verification/Serializer.thy ===== *)
theory Serializer
  imports Codec
begin

text \<open>
  The serializer of \<open>include/rpc/Serializer.h\<close>: the values it accepts, one constructor for each
  static type its \<open>if constexpr\<close> chains and overloads distinguish, and the two directions
  \<open>operator<<\<close> and \<open>operator>>\<close> over a shared \<open>ByteArray\<close>.
\<close>

section \<open>Types and values\<close>

datatype ckind =
    C_list | C_vector | C_set | C_multiset | C_unordered_set | C_unordered_multiset
  | C_map | C_multimap | C_unordered_map | C_unordered_multimap

text \<open>
  \<open>TEnum sg w\<close> is an enumeration whose underlying type has \<open>w\<close> bits and is signed if \<open>sg\<close>. The element
  type of a map is the pair of its key and its value type. \<open>TOther\<close> stands for the arithmetic types no
  branch of \<open>read\<close> and \<open>write\<close> mentions, such as \<open>long long\<close> where \<open>int64_t\<close> is \<open>long\<close>.
\<close>

datatype ty =
    TBool | TChar | TUchar | TInt8 | TFloat | TDouble
  | TInt16 | TUint16 | TInt32 | TUint32 | TInt64 | TUint64
  | TString | TEnum bool nat
  | TStruct "ty list" | TTuple "ty list" | TPair ty ty | TCont ckind ty
  | TOther

datatype val =
    VBool bool | VChar "8 word" | VUchar "8 word" | VInt8 "8 word" | VFloat "32 word" | VDouble "64 word"
  | VInt16 "16 word" | VUint16 "16 word" | VInt32 "32 word" | VUint32 "32 word"
  | VInt64 "64 word" | VUint64 "64 word"
  | VString "byte list" | VEnum bool nat int
  | VStruct "val list" | VTuple "val list" | VPair val val | VCont ckind "val list"
  | VOther "64 word"

section \<open>Inserting into the standard containers\<close>

text \<open>
  The comparison of the keys of an ordered container and the equality of the keys of an unordered
  one belong to the element type (\<open>std::less\<close>, \<open>std::equal_to\<close>, or the user's own).
\<close>

record key_ops =
  key_less :: "val \<Rightarrow> val \<Rightarrow> bool"
  key_equal :: "val \<Rightarrow> val \<Rightarrow> bool"

fun key_of :: "ckind \<Rightarrow> val \<Rightarrow> val" where
  "key_of C_map (VPair k v) = k"
| "key_of C_multimap (VPair k v) = k"
| "key_of C_unordered_map (VPair k v) = k"
| "key_of C_unordered_multimap (VPair k v) = k"
| "key_of _ v = v"

text \<open>\<open>emplace\<close> of a \<open>set\<close>: at the lower bound, unless an equivalent element is there.\<close>

definition emplace_unique :: "('a \<Rightarrow> 'a \<Rightarrow> bool) \<Rightarrow> 'a \<Rightarrow> 'a list \<Rightarrow> 'a list" where
  "emplace_unique lt x xs =
     (case dropWhile (\<lambda>y. lt y x) xs of
        [] \<Rightarrow> xs @ [x]
      | y # ys \<Rightarrow> if lt x y then takeWhile (\<lambda>y. lt y x) xs @ x # y # ys else xs)"

text \<open>\<open>emplace\<close> of a \<open>multiset\<close>: at the upper bound.\<close>

definition emplace_multi :: "('a \<Rightarrow> 'a \<Rightarrow> bool) \<Rightarrow> 'a \<Rightarrow> 'a list \<Rightarrow> 'a list" where
  "emplace_multi lt x xs =
     takeWhile (\<lambda>y. \<not> lt x y) xs @ x # dropWhile (\<lambda>y. \<not> lt x y) xs"

text \<open>
  A hash container is listed in the order its elements came in; the standard leaves the order of its
  iteration open.
\<close>

definition emplace_hashed :: "('a \<Rightarrow> 'a \<Rightarrow> bool) \<Rightarrow> 'a \<Rightarrow> 'a list \<Rightarrow> 'a list" where
  "emplace_hashed eq x xs = (if \<exists>y \<in> set xs. eq y x then xs else xs @ [x])"

definition emplace :: "key_ops \<Rightarrow> ckind \<Rightarrow> val \<Rightarrow> val list \<Rightarrow> val list" where
  "emplace ops k x xs =
     (let lt = (\<lambda>a b. key_less ops (key_of k a) (key_of k b));
          eq = (\<lambda>a b. key_equal ops (key_of k a) (key_of k b)) in
      if k \<in> {C_list, C_vector} then xs @ [x]
      else if k \<in> {C_set, C_map} then emplace_unique lt x xs
      else if k \<in> {C_multiset, C_multimap} then emplace_multi lt x xs
      else if k \<in> {C_unordered_set, C_unordered_map} then emplace_hashed eq x xs
      else xs @ [x])"

section \<open>Writing\<close>

fun write_all :: "'s writer list \<Rightarrow> 's writer" where
  "write_all [] s = Inr s"
| "write_all (f # fs) s = rbind (f s) (write_all fs)"

fun ser :: "val \<Rightarrow> byte_array writer" where
  "ser (VBool v) = writeFint8 (if v then 1 else 0)"
| "ser (VChar v) = writeFint8 v"
| "ser (VUchar v) = writeFint8 v"
| "ser (VInt8 v) = writeFint8 v"
| "ser (VFloat v) = writeFloat v"
| "ser (VDouble v) = writeDouble v"
| "ser (VInt16 v) = writeFint16 v"
| "ser (VUint16 v) = writeFuint16 v"
| "ser (VInt32 v) = writeInt32 v"
| "ser (VUint32 v) = writeUint32 v"
| "ser (VInt64 v) = writeInt64 v"
| "ser (VUint64 v) = writeUint64 v"
| "ser (VString s) = writeStringVint s"
| "ser (VEnum sg w i) = writeInt32 (word_of_int i)"
| "ser (VStruct vs) = write_all (map ser vs)"
| "ser (VTuple vs) = write_all (map ser vs)"
| "ser (VPair u v) = (\<lambda>b. rbind (ser u b) (ser v))"
| "ser (VCont k vs) = (\<lambda>b. rbind (writeUint64 (word_of_nat (length vs)) b) (write_all (map ser vs)))"
| "ser (VOther v) = Inr"

section \<open>Reading\<close>

fun read_all :: "('s, 'a) reader list \<Rightarrow> ('s, 'a list) reader" where
  "read_all [] s = Inr ([], s)"
| "read_all (f # fs) s =
     rbind (f s) (\<lambda>(v, s'). rbind (read_all fs s') (\<lambda>(vs, s''). Inr (v # vs, s'')))"

fun read_n :: "('a \<Rightarrow> 'b \<Rightarrow> 'b) \<Rightarrow> nat \<Rightarrow> ('s, 'a) reader \<Rightarrow> 'b \<Rightarrow> ('s, 'b) reader" where
  "read_n ins 0 f acc s = Inr (acc, s)"
| "read_n ins (Suc n) f acc s = rbind (f s) (\<lambda>(v, s'). read_n ins n f (ins v acc) s')"

definition read_map :: "('a \<Rightarrow> 'b) \<Rightarrow> ('s, 'a) reader \<Rightarrow> ('s, 'b) reader" where
  "read_map h f s = rbind (f s) (\<lambda>(v, s'). Inr (h v, s'))"

text \<open>\<open>static_cast\<close> of an \<open>int32_t\<close> to an enumeration with the given underlying type.\<close>

definition enum_cast :: "bool \<Rightarrow> nat \<Rightarrow> 32 word \<Rightarrow> int" where
  "enum_cast sg w x = (if sg then signed_take_bit (w - 1) (sint x) else take_bit w (sint x))"

fun deser :: "key_ops \<Rightarrow> ty \<Rightarrow> (byte_array, val) reader" where
  "deser ops TBool = read_map (\<lambda>v. VBool (v \<noteq> 0)) readFint8"
| "deser ops TChar = read_map VChar readFint8"
| "deser ops TUchar = read_map VUchar readFint8"
| "deser ops TInt8 = read_map VInt8 readFint8"
| "deser ops TFloat = read_map VFloat readFloat"
| "deser ops TDouble = read_map VDouble readDouble"
| "deser ops TInt16 = read_map VInt16 readFint16"
| "deser ops TUint16 = read_map VUint16 readFuint16"
| "deser ops TInt32 = read_map VInt32 readInt32"
| "deser ops TUint32 = read_map VUint32 readUint32"
| "deser ops TInt64 = read_map VInt64 readInt64"
| "deser ops TUint64 = read_map VUint64 readUint64"
| "deser ops TString = read_map VString readStringVint"
| "deser ops (TEnum sg w) = read_map (\<lambda>v. VEnum sg w (enum_cast sg w v)) readInt32"
| "deser ops (TStruct ts) = read_map VStruct (read_all (map (deser ops) ts))"
| "deser ops (TTuple ts) = read_map VTuple (read_all (map (deser ops) ts))"
| "deser ops (TPair t u) = (\<lambda>b. rbind (deser ops t b) (\<lambda>(x, b'). read_map (VPair x) (deser ops u) b'))"
| "deser ops (TCont k t) = (\<lambda>b. rbind (readUint64 b) (\<lambda>(n, b').
     read_map (VCont k) (read_n (emplace ops k) (unat n) (deser ops t) []) b'))"
| "deser ops TOther = (\<lambda>b. Inr (VOther 0, b))"

section \<open>The class\<close>

text \<open>A \<open>Serializer\<close> is its \<open>byte_array_\<close>; copies of it share that buffer.\<close>

definition new_serializer :: byte_array where
  "new_serializer = new_byte_array 4096"

text \<open>
  \<open>writeRowData\<close> takes its length as an \<open>int\<close>, which becomes a \<open>size_t\<close> again when it is passed on: a
  length of \<open>2 ^ 31\<close> or more turns into a huge one, and the copy runs past the source string.
\<close>

definition int_to_size :: "nat \<Rightarrow> nat" where
  "int_to_size n = unat (scast (word_of_nat n :: 32 word) :: 64 word)"

definition writeRowData :: "byte list \<Rightarrow> byte_array writer" where
  "writeRowData s b =
     (let n = int_to_size (length s)
      in if length s < n then Inl Heap_overflow else ba_write (take n s) b)"

definition reset :: "byte_array writer" where
  "reset b = setPosition 0 b"

definition serializer_of :: "byte list \<Rightarrow> byte_array outcome" where
  "serializer_of s = rbind (writeRowData s new_serializer) reset"

definition offset :: "int \<Rightarrow> byte_array writer" where
  "offset off b =
     (let old = sint (word_of_nat (ba_pos b) :: 32 word)
      in setPosition (unat (scast (word_of_int (old + off) :: 32 word) :: 64 word)) b)"

definition ser_size :: "byte_array \<Rightarrow> int" where
  "ser_size b = sint (word_of_nat (ba_size b) :: 32 word)"

end
