(* ===== verification/SerializerSpec.thy ===== *)
theory SerializerSpec
  imports Serializer
begin

text \<open>
  The wire format of the serializer as a function from values to bytes, the values that survive the
  trip, and the two halves of its correctness: \<open>operator<<\<close> emits the format and \<open>operator>>\<close> parses
  it, for every type built from the supported ones.
\<close>

section \<open>Well-typed values\<close>

lemma size_zip_left [termination_simp]:
  "(t, v) \<in> set (zip ts vs) \<Longrightarrow> size t < Suc (size_list size ts)"
  by (drule set_zip_leftD, drule size_list_estimation' [where f = size, OF _ order_refl]) simp

definition is_map :: "ckind \<Rightarrow> bool" where
  "is_map k \<longleftrightarrow> k \<in> {C_map, C_multimap, C_unordered_map, C_unordered_multimap}"

fun is_pair :: "val \<Rightarrow> bool" where
  "is_pair (VPair u v) = True"
| "is_pair _ = False"

fun has_type :: "ty \<Rightarrow> val \<Rightarrow> bool" where
  "has_type TBool v = (case v of VBool x \<Rightarrow> True | _ \<Rightarrow> False)"
| "has_type TChar v = (case v of VChar x \<Rightarrow> True | _ \<Rightarrow> False)"
| "has_type TUchar v = (case v of VUchar x \<Rightarrow> True | _ \<Rightarrow> False)"
| "has_type TInt8 v = (case v of VInt8 x \<Rightarrow> True | _ \<Rightarrow> False)"
| "has_type TFloat v = (case v of VFloat x \<Rightarrow> True | _ \<Rightarrow> False)"
| "has_type TDouble v = (case v of VDouble x \<Rightarrow> True | _ \<Rightarrow> False)"
| "has_type TInt16 v = (case v of VInt16 x \<Rightarrow> True | _ \<Rightarrow> False)"
| "has_type TUint16 v = (case v of VUint16 x \<Rightarrow> True | _ \<Rightarrow> False)"
| "has_type TInt32 v = (case v of VInt32 x \<Rightarrow> True | _ \<Rightarrow> False)"
| "has_type TUint32 v = (case v of VUint32 x \<Rightarrow> True | _ \<Rightarrow> False)"
| "has_type TInt64 v = (case v of VInt64 x \<Rightarrow> True | _ \<Rightarrow> False)"
| "has_type TUint64 v = (case v of VUint64 x \<Rightarrow> True | _ \<Rightarrow> False)"
| "has_type TString v = (case v of VString x \<Rightarrow> True | _ \<Rightarrow> False)"
| "has_type (TEnum sg w) v = (case v of VEnum sg' w' i \<Rightarrow> sg' = sg \<and> w' = w | _ \<Rightarrow> False)"
| "has_type (TStruct ts) v = (case v of
     VStruct vs \<Rightarrow> length ts = length vs \<and> list_all (\<lambda>(t, x). has_type t x) (zip ts vs)
   | _ \<Rightarrow> False)"
| "has_type (TTuple ts) v = (case v of
     VTuple vs \<Rightarrow> length ts = length vs \<and> list_all (\<lambda>(t, x). has_type t x) (zip ts vs)
   | _ \<Rightarrow> False)"
| "has_type (TPair t u) v = (case v of VPair x y \<Rightarrow> has_type t x \<and> has_type u y | _ \<Rightarrow> False)"
| "has_type (TCont k t) v = (case v of
     VCont k' vs \<Rightarrow> k' = k \<and> list_all (has_type t) vs \<and> (is_map k \<longrightarrow> list_all is_pair vs)
   | _ \<Rightarrow> False)"
| "has_type TOther v = (case v of VOther x \<Rightarrow> True | _ \<Rightarrow> False)"

text \<open>The contents a container can have, as a list in the order of its iteration.\<close>

definition canonical :: "key_ops \<Rightarrow> ckind \<Rightarrow> val list \<Rightarrow> bool" where
  "canonical ops k vs =
     (let lt = (\<lambda>a b. key_less ops (key_of k a) (key_of k b));
          eq = (\<lambda>a b. key_equal ops (key_of k a) (key_of k b)) in
      if k \<in> {C_set, C_map} then sorted_wrt lt vs
      else if k \<in> {C_multiset, C_multimap} then sorted_wrt (\<lambda>a b. \<not> lt b a) vs
      else if k \<in> {C_unordered_set, C_unordered_map} then sorted_wrt (\<lambda>a b. \<not> eq a b) vs
      else True)"

text \<open>An enumerator is sent as an \<open>int32_t\<close>: which ones come back.\<close>

definition enum_fits :: "bool \<Rightarrow> nat \<Rightarrow> int \<Rightarrow> bool" where
  "enum_fits sg w i \<longleftrightarrow>
     0 < w \<and>
     (if sg then - (2 ^ (w - 1)) \<le> i \<and> i < 2 ^ (w - 1) else 0 \<le> i \<and> i < 2 ^ w) \<and>
     (w \<le> 32 \<or> - (2 ^ 31) \<le> i \<and> i < 2 ^ 31)"

fun storable :: "key_ops \<Rightarrow> val \<Rightarrow> bool" where
  "storable ops (VString s) = (length s < 2 ^ 62)"
| "storable ops (VEnum sg w i) = enum_fits sg w i"
| "storable ops (VStruct vs) = list_all (storable ops) vs"
| "storable ops (VTuple vs) = list_all (storable ops) vs"
| "storable ops (VPair u v) = (storable ops u \<and> storable ops v)"
| "storable ops (VCont k vs) =
     (length vs < 2 ^ 64 \<and> canonical ops k vs \<and> list_all (storable ops) vs)"
| "storable ops (VOther v) = False"
| "storable ops _ = True"

text \<open>Values without an empty string: reading them never asks the buffer for zero bytes.\<close>

fun no_empty :: "val \<Rightarrow> bool" where
  "no_empty (VString s) = (s \<noteq> [])"
| "no_empty (VStruct vs) = list_all no_empty vs"
| "no_empty (VTuple vs) = list_all no_empty vs"
| "no_empty (VPair u v) = (no_empty u \<and> no_empty v)"
| "no_empty (VCont k vs) = list_all no_empty vs"
| "no_empty _ = True"

section \<open>The wire format\<close>

fun enc :: "endian \<Rightarrow> val \<Rightarrow> byte list" where
  "enc e (VBool v) = [if v then 1 else 0]"
| "enc e (VChar v) = [v]"
| "enc e (VUchar v) = [v]"
| "enc e (VInt8 v) = [v]"
| "enc e (VFloat v) = mem_bytes e v"
| "enc e (VDouble v) = mem_bytes e v"
| "enc e (VInt16 v) = mem_bytes e v"
| "enc e (VUint16 v) = mem_bytes e v"
| "enc e (VInt32 v) = varint_bytes (EncodeZigzag32 v)"
| "enc e (VUint32 v) = varint_bytes v"
| "enc e (VInt64 v) = varint_bytes (EncodeZigzag64 v)"
| "enc e (VUint64 v) = varint_bytes v"
| "enc e (VString s) = varint_bytes (word_of_nat (length s) :: 64 word) @ s"
| "enc e (VEnum sg w i) = varint_bytes (EncodeZigzag32 (word_of_int i))"
| "enc e (VStruct vs) = concat (map (enc e) vs)"
| "enc e (VTuple vs) = concat (map (enc e) vs)"
| "enc e (VPair u v) = enc e u @ enc e v"
| "enc e (VCont k vs) =
     varint_bytes (word_of_nat (length vs) :: 64 word) @ concat (map (enc e) vs)"
| "enc e (VOther v) = []"

section \<open>Writing emits the format\<close>

lemma emits_write_all:
  assumes "\<And>x. x \<in> set xs \<Longrightarrow> emits ok out (f x) (g x)"
  shows "emits ok out (write_all (map f xs)) (concat (map g xs))"
  using assms
proof (induction xs)
  case Nil
  have "write_all (map f []) = Inr" by (rule ext) simp
  then show ?case by (simp add: emits_return)
next
  case (Cons x xs)
  have "write_all (map f (x # xs)) = (\<lambda>s. rbind (f x s) (write_all (map f xs)))"
    by (rule ext) simp
  then show ?case using Cons by (simp add: emits_bind)
qed

lemma ser_emits: "emits (writable k e) ba_out (ser v) (enc e v)"
proof (induction v)
  case (VStruct vs)
  then show ?case by (simp add: emits_write_all)
next
  case (VTuple vs)
  then show ?case by (simp add: emits_write_all)
next
  case (VPair u v)
  then show ?case by (simp add: emits_bind)
next
  case (VCont k vs)
  then show ?case by (simp add: emits_bind emits_varint emits_write_all)
qed (simp_all add: emits_fixed emits_varint emits_string emits_return)

section \<open>Containers are rebuilt\<close>

lemma emplace_unique_last:
  assumes "\<And>y. y \<in> set xs \<Longrightarrow> lt y x"
  shows "emplace_unique lt x xs = xs @ [x]"
proof -
  have "dropWhile (\<lambda>y. lt y x) xs = []" using assms by simp
  then show ?thesis by (simp only: emplace_unique_def list.case)
qed

lemma emplace_multi_last:
  assumes "\<And>y. y \<in> set xs \<Longrightarrow> \<not> lt x y"
  shows "emplace_multi lt x xs = xs @ [x]"
proof -
  have "takeWhile (\<lambda>y. \<not> lt x y) xs = xs" "dropWhile (\<lambda>y. \<not> lt x y) xs = []"
    using assms by auto
  then show ?thesis by (simp add: emplace_multi_def)
qed

lemma emplace_last:
  assumes "canonical ops k (xs @ [x])"
  shows "emplace ops k x xs = xs @ [x]"
  using assms
  by (cases k) (simp_all add: emplace_def canonical_def Let_def sorted_wrt_append emplace_unique_last
      emplace_multi_last emplace_hashed_def)

lemma canonical_append: "canonical ops k (xs @ ys) \<Longrightarrow> canonical ops k xs"
  by (auto simp: canonical_def Let_def sorted_wrt_append split: if_splits)

lemma fold_emplace:
  "canonical ops k (acc @ vs) \<Longrightarrow> fold (emplace ops k) vs acc = acc @ vs"
proof (induction vs arbitrary: acc)
  case Nil
  then show ?case by simp
next
  case (Cons v vs)
  then have "canonical ops k ((acc @ [v]) @ vs)" by simp
  then have "emplace ops k v acc = acc @ [v]"
    by (rule emplace_last [OF canonical_append])
  moreover have "fold (emplace ops k) vs (acc @ [v]) = (acc @ [v]) @ vs"
    using \<open>canonical ops k ((acc @ [v]) @ vs)\<close> by (rule Cons.IH)
  ultimately show ?case by simp
qed

lemma parses_read_n:
  assumes "\<And>v. v \<in> set vs \<Longrightarrow> parses ok rest f (g v) v"
  shows "parses ok rest (read_n ins (length vs) f acc) (concat (map g vs)) (fold ins vs acc)"
  using assms
proof (induction vs arbitrary: acc)
  case Nil
  have "read_n ins (length []) f acc = (\<lambda>s. Inr (acc, s))" by (rule ext) simp
  then show ?case by (simp add: parses_return)
next
  case (Cons v vs)
  have "read_n ins (length (v # vs)) f acc =
      (\<lambda>s. rbind (f s) (\<lambda>(x, s'). read_n ins (length vs) f (ins x acc) s'))"
    by (rule ext) simp
  moreover have "parses ok rest f (g v) v" using Cons.prems by simp
  moreover have "parses ok rest (read_n ins (length vs) f (ins v acc)) (concat (map g vs))
      (fold ins vs (ins v acc))"
    using Cons by simp
  ultimately show ?case
    using parses_bind [where g = "\<lambda>x. read_n ins (length vs) f (ins x acc)" and f = f] by simp
qed

lemma parses_read_all:
  assumes "length ts = length vs"
    and "\<And>t v. (t, v) \<in> set (zip ts vs) \<Longrightarrow> parses ok rest (f t) (g v) v"
  shows "parses ok rest (read_all (map f ts)) (concat (map g vs)) vs"
  using assms
proof (induction ts vs rule: list_induct2)
  case Nil
  have "read_all (map f []) = (\<lambda>s. Inr ([], s))" by (rule ext) simp
  then show ?case by (simp add: parses_return)
next
  case (Cons t ts v vs)
  have "read_all (map f (t # ts)) =
      (\<lambda>s. rbind (f t s) (\<lambda>(x, s'). rbind (read_all (map f ts) s') (\<lambda>(xs, s''). Inr (x # xs, s''))))"
    by (rule ext) simp
  moreover have "parses ok rest (\<lambda>s'. rbind (read_all (map f ts) s') (\<lambda>(xs, s''). Inr (v # xs, s'')))
      (concat (map g vs)) (v # vs)"
    by (rule parses_map) (use Cons in auto)
  moreover have "parses ok rest (f t) (g v) v" using Cons.prems by simp
  ultimately show ?case
    using parses_bind [where g = "\<lambda>x s'. rbind (read_all (map f ts) s') (\<lambda>(xs, s''). Inr (x # xs, s''))"
        and f = "f t"] by simp
qed

lemma parses_read_map: "parses ok rest f bs v \<Longrightarrow> parses ok rest (read_map h f) bs (h v)"
  using parses_map [of ok rest f bs v h] by (simp add: read_map_def [abs_def])

section \<open>Enumerations\<close>

lemma enum_cast_fits:
  assumes "enum_fits sg w i"
  shows "enum_cast sg w (word_of_int i) = i"
proof -
  have s: "sint (word_of_int i :: 32 word) = signed_take_bit 31 i"
    using sint_sbintrunc' [of i, where 'a = 32] by simp
  have w: "0 < w" using assms by (simp add: enum_fits_def)
  show ?thesis
  proof (cases "w \<le> 32")
    case True
    show ?thesis
    proof (cases sg)
      case sg: True
      have "signed_take_bit (w - 1) (signed_take_bit 31 i) = signed_take_bit (w - 1) i"
        using True by (simp add: signed_take_bit_signed_take_bit min_absorb1)
      also have "\<dots> = i"
        using assms sg by (intro signed_take_bit_int_eq_self) (auto simp: enum_fits_def)
      finally show ?thesis using sg by (simp add: enum_cast_def s)
    next
      case sg: False
      have "take_bit w (signed_take_bit 31 i) = take_bit w i"
        using True w by (simp add: take_bit_signed_take_bit)
      also have "\<dots> = i"
        using assms sg by (intro take_bit_int_eq_self) (auto simp: enum_fits_def)
      finally show ?thesis using sg by (simp add: enum_cast_def s)
    qed
  next
    case False
    have "signed_take_bit 31 i = i"
      using False assms by (intro signed_take_bit_int_eq_self) (auto simp: enum_fits_def)
    then show ?thesis
      using assms by (auto simp: enum_cast_def s enum_fits_def
          intro!: signed_take_bit_int_eq_self take_bit_int_eq_self)
  qed
qed

section \<open>Reading parses the format\<close>

lemmas parses_scalar =
  parses_fixed [THEN parses_read_map] parses_varint [THEN parses_read_map]
  parses_zigzag [THEN parses_read_map] parses_string [THEN parses_read_map]

lemma parses_zip:
  assumes "\<And>t v. t \<in> set ts \<Longrightarrow> has_type t v \<Longrightarrow> storable ops v \<Longrightarrow> r \<or> no_empty v \<Longrightarrow>
      parses (readable r e) ba_rest (deser ops t) (enc e v) v"
    and "length ts = length vs" and "list_all (\<lambda>(t, v). has_type t v) (zip ts vs)"
    and "list_all (storable ops) vs" and "r \<or> list_all no_empty vs"
  shows "parses (readable r e) ba_rest (read_all (map (deser ops) ts)) (concat (map (enc e) vs)) vs"
  using assms(2-5)
  by (intro parses_read_all assms(1))
     (auto simp: list_all_iff dest: set_zip_rightD set_zip_leftD)

lemma deser_parses:
  assumes "has_type t v" and "storable ops v" and "r \<or> no_empty v"
  shows "parses (readable r e) ba_rest (deser ops t) (enc e v) v"
  using assms
proof (induction t arbitrary: v)
  case TBool
  then obtain x where v: "v = VBool x" by (auto split: val.splits)
  show ?case
    using parses_scalar(1) [of r e "\<lambda>v. VBool (v \<noteq> 0)" "if x then 1 else 0"] by (cases x) (simp_all add: v)
next
  case (TEnum sg w)
  then obtain i where v: "v = VEnum sg w i" by (auto split: val.splits)
  show ?case
    using parses_scalar(13) [of r e "\<lambda>v. VEnum sg w (enum_cast sg w v)" "word_of_int i"] TEnum.prems(2)
    by (simp add: v enum_cast_fits)
next
  case (TStruct ts)
  then show ?case
    by (auto split: val.splits intro!: parses_read_map parses_zip)
next
  case (TTuple ts)
  then show ?case
    by (auto split: val.splits intro!: parses_read_map parses_zip)
next
  case (TPair t u)
  then obtain x y where v: "v = VPair x y" "has_type t x" "has_type u y"
    by (auto split: val.splits)
  have "parses (readable r e) ba_rest (deser ops t) (enc e x) x"
    and "parses (readable r e) ba_rest (read_map (VPair x) (deser ops u)) (enc e y) (VPair x y)"
    using TPair v by (auto intro: parses_read_map)
  then show ?case
    using parses_bind [where g = "\<lambda>x. read_map (VPair x) (deser ops u)" and f = "deser ops t"]
    by (simp add: v)
next
  case (TCont k u)
  then obtain vs where v: "v = VCont k vs" "list_all (has_type u) vs" by (auto split: val.splits)
  let ?g = "\<lambda>n. read_map (VCont k) (read_n (emplace ops k) (unat (n :: 64 word)) (deser ops u) [])"
  have "parses (readable r e) ba_rest (read_n (emplace ops k) (length vs) (deser ops u) [])
      (concat (map (enc e) vs)) (fold (emplace ops k) vs [])"
    using TCont v by (intro parses_read_n) (auto simp: list_all_iff)
  moreover have "fold (emplace ops k) vs [] = vs"
    using TCont.prems(2) fold_emplace [of ops k "[]" vs] by (simp add: v)
  moreover have "unat (word_of_nat (length vs) :: 64 word) = length vs"
    using TCont.prems(2) by (simp add: v unat_of_nat take_bit_nat_eq_self)
  ultimately have "parses (readable r e) ba_rest (?g (word_of_nat (length vs)))
      (concat (map (enc e) vs)) (VCont k vs)"
    by (simp add: parses_read_map)
  then show ?case
    using parses_bind [where g = ?g, OF parses_varint(2)] by (simp add: v)
qed (auto split: val.splits intro: parses_scalar)

section \<open>Truncated input\<close>

lemma starves_read_map: "starves ok rest f bs \<Longrightarrow> starves ok rest (read_map h f) bs"
  unfolding read_map_def [abs_def] by (rule starves_map)

lemma starves_read_n:
  assumes "\<And>v. v \<in> set vs \<Longrightarrow> parses ok rest f (g v) v"
    and "\<And>v. v \<in> set vs \<Longrightarrow> starves ok rest f (g v)"
  shows "starves ok rest (read_n ins (length vs) f acc) (concat (map g vs))"
  using assms
proof (induction vs arbitrary: acc)
  case Nil
  then show ?case by (simp add: starves_Nil)
next
  case (Cons v vs)
  have "read_n ins (length (v # vs)) f acc =
      (\<lambda>s. rbind (f s) (\<lambda>(x, s'). read_n ins (length vs) f (ins x acc) s'))"
    by (rule ext) simp
  moreover have "starves ok rest (\<lambda>s. rbind (f s) (\<lambda>(x, s'). read_n ins (length vs) f (ins x acc) s'))
      (g v @ concat (map g vs))"
    by (rule starves_bind [where v = v and g = "\<lambda>x. read_n ins (length vs) f (ins x acc)"])
       (use Cons in auto)
  ultimately show ?case by simp
qed

lemma starves_read_all:
  assumes "length ts = length vs"
    and "\<And>t v. (t, v) \<in> set (zip ts vs) \<Longrightarrow> parses ok rest (f t) (g v) v"
    and "\<And>t v. (t, v) \<in> set (zip ts vs) \<Longrightarrow> starves ok rest (f t) (g v)"
  shows "starves ok rest (read_all (map f ts)) (concat (map g vs))"
  using assms
proof (induction ts vs rule: list_induct2)
  case Nil
  then show ?case by (simp add: starves_Nil)
next
  case (Cons t ts v vs)
  have "read_all (map f (t # ts)) = (\<lambda>s. rbind (f t s) (\<lambda>(v, s').
      rbind (read_all (map f ts) s') (\<lambda>(vs, s''). Inr (v # vs, s''))))"
    by (rule ext) simp
  moreover have "starves ok rest (read_all (map f ts)) (concat (map g vs))"
    using Cons.prems by (intro Cons.IH) auto
  then have "starves ok rest (\<lambda>s. rbind (f t s) (\<lambda>(v, s').
      rbind (read_all (map f ts) s') (\<lambda>(vs, s''). Inr (v # vs, s'')))) (g v @ concat (map g vs))"
    using Cons.prems
    by (intro starves_bind [where v = v and g = "\<lambda>v s'. rbind (read_all (map f ts) s')
          (\<lambda>(vs, s''). Inr (v # vs, s''))"] starves_map) auto
  ultimately show ?case by simp
qed

lemmas starves_scalar =
  starves_fixed [THEN starves_read_map] starves_varint [THEN starves_read_map]
  starves_string [THEN starves_read_map]

lemma starves_zip:
  assumes "\<And>t v. t \<in> set ts \<Longrightarrow> has_type t v \<Longrightarrow> storable ops v \<Longrightarrow> r \<or> no_empty v \<Longrightarrow>
      starves (readable r e) ba_rest (deser ops t) (enc e v)"
    and "length ts = length vs" and "list_all (\<lambda>(t, v). has_type t v) (zip ts vs)"
    and "list_all (storable ops) vs" and "r \<or> list_all no_empty vs"
  shows "starves (readable r e) ba_rest (read_all (map (deser ops) ts)) (concat (map (enc e) vs))"
  using assms(2-5)
  by (intro starves_read_all deser_parses assms(1))
     (auto simp: list_all_iff dest: set_zip_rightD set_zip_leftD)

lemma deser_starves:
  assumes "has_type t v" and "storable ops v" and "r \<or> no_empty v"
  shows "starves (readable r e) ba_rest (deser ops t) (enc e v)"
  using assms
proof (induction t arbitrary: v)
  case (TStruct ts)
  then show ?case
    by (auto split: val.splits intro!: starves_read_map starves_zip)
next
  case (TTuple ts)
  then show ?case
    by (auto split: val.splits intro!: starves_read_map starves_zip)
next
  case (TPair t u)
  then obtain x y where v: "v = VPair x y" "has_type t x" "has_type u y"
    by (auto split: val.splits)
  have "starves (readable r e) ba_rest (deser ops t) (enc e x)"
    and "parses (readable r e) ba_rest (deser ops t) (enc e x) x"
    and "starves (readable r e) ba_rest (read_map (VPair x) (deser ops u)) (enc e y)"
    using TPair v by (auto intro: starves_read_map deser_parses)
  then show ?case
    using starves_bind [where g = "\<lambda>x. read_map (VPair x) (deser ops u)" and f = "deser ops t"]
    by (simp add: v)
next
  case (TCont k u)
  then obtain vs where v: "v = VCont k vs" "list_all (has_type u) vs" by (auto split: val.splits)
  let ?g = "\<lambda>n. read_map (VCont k) (read_n (emplace ops k) (unat (n :: 64 word)) (deser ops u) [])"
  have "starves (readable r e) ba_rest (read_n (emplace ops k) (length vs) (deser ops u) [])
      (concat (map (enc e) vs))"
    using TCont v by (intro starves_read_n deser_parses) (auto simp: list_all_iff)
  moreover have "unat (word_of_nat (length vs) :: 64 word) = length vs"
    using TCont.prems(2) by (simp add: v unat_of_nat take_bit_nat_eq_self)
  ultimately have "starves (readable r e) ba_rest (?g (word_of_nat (length vs)))
      (concat (map (enc e) vs))"
    by (simp add: starves_read_map)
  then show ?case
    using starves_bind [where g = ?g, OF starves_varint(2) parses_varint(2)] by (simp add: v)
qed (auto split: val.splits intro: starves_scalar starves_Nil)

section \<open>Arbitrary input\<close>

lemma guarded_read_map: "guarded ok rest f \<Longrightarrow> guarded ok rest (read_map h f)"
  unfolding read_map_def [abs_def] by (intro guarded_intros)

lemma guarded_read_n: "guarded ok rest f \<Longrightarrow> guarded ok rest (read_n ins n f acc)"
proof (induction n arbitrary: acc)
  case 0
  have "read_n ins 0 f acc = (\<lambda>s. Inr (acc, s))" by (rule ext) simp
  then show ?case by (simp add: guarded_return)
next
  case (Suc n)
  have "read_n ins (Suc n) f acc = (\<lambda>s. rbind (f s) (\<lambda>(v, s'). read_n ins n f (ins v acc) s'))"
    by (rule ext) simp
  then show ?case using Suc by (simp add: guarded_bind)
qed

lemma guarded_read_all: "(\<And>f. f \<in> set fs \<Longrightarrow> guarded ok rest f) \<Longrightarrow> guarded ok rest (read_all fs)"
proof (induction fs)
  case Nil
  have "read_all [] = (\<lambda>s. Inr ([], s))" by (rule ext) simp
  then show ?case by (simp add: guarded_return)
next
  case (Cons f fs)
  have "read_all (f # fs) =
      (\<lambda>s. rbind (f s) (\<lambda>(v, s'). rbind (read_all fs s') (\<lambda>(vs, s''). Inr (v # vs, s''))))"
    by (rule ext) simp
  moreover have "guarded ok rest f" "guarded ok rest (read_all fs)" using Cons by auto
  ultimately show ?case by (simp add: guarded_bind guarded_return)
qed

lemma guarded_deser: "guarded (readable True e) ba_rest (deser ops t)"
proof (induction t)
  case (TStruct ts)
  then show ?case by (auto intro!: guarded_read_map guarded_read_all)
next
  case (TTuple ts)
  then show ?case by (auto intro!: guarded_read_map guarded_read_all)
next
  case (TPair t u)
  then show ?case by (auto intro!: guarded_bind guarded_read_map)
next
  case (TCont k t)
  then show ?case
    using guarded_bind [OF guarded_varint(2), of e "\<lambda>n. read_map (VCont k)
        (read_n (emplace ops k) (unat n) (deser ops t) [])"]
    by (simp add: guarded_read_map guarded_read_n)
qed (auto intro!: guarded_read_map guarded_intros simp del: split_paired_All)

end
