(* ===== verification/Protocol.thy ===== *)
theory Protocol
  imports Codec
begin

text \<open>
  The message frame of \<open>include/rpc/Protocol.h\<close>:
  magic, version, type, sequence id, content length, content.
\<close>

section \<open>Data\<close>

datatype MsgType =
    HEARTBEAT_PACKET | RPC_PROVIDER | RPC_CONSUMER | RPC_REQUEST | RPC_RESPONSE
  | RPC_METHOD_REQUEST | RPC_METHOD_RESPONSE
  | RPC_SERVICE_REGISTER | RPC_SERVICE_REGISTER_RESPONSE
  | RPC_SERVICE_DISCOVER | RPC_SERVICE_DISCOVER_RESPONSE

fun msg_code :: "MsgType \<Rightarrow> byte" where
  "msg_code HEARTBEAT_PACKET = 0"
| "msg_code RPC_PROVIDER = 1"
| "msg_code RPC_CONSUMER = 2"
| "msg_code RPC_REQUEST = 3"
| "msg_code RPC_RESPONSE = 4"
| "msg_code RPC_METHOD_REQUEST = 5"
| "msg_code RPC_METHOD_RESPONSE = 6"
| "msg_code RPC_SERVICE_REGISTER = 7"
| "msg_code RPC_SERVICE_REGISTER_RESPONSE = 8"
| "msg_code RPC_SERVICE_DISCOVER = 9"
| "msg_code RPC_SERVICE_DISCOVER_RESPONSE = 10"

definition MAGIC :: byte where
  "MAGIC = 0x09"

definition DEFAULT_VERSION :: byte where
  "DEFAULT_VERSION = 0x01"

definition BASE_LENGTH :: nat where
  "BASE_LENGTH = 11"

record protocol =
  p_magic :: byte
  p_version :: byte
  p_type :: byte
  p_seq :: "32 word"
  p_length :: "32 word"
  p_content :: "byte list"

definition new_protocol :: protocol where
  "new_protocol = \<lparr>p_magic = MAGIC, p_version = DEFAULT_VERSION, p_type = 0, p_seq = 0,
                  p_length = 0, p_content = []\<rparr>"

definition setMagic :: "byte \<Rightarrow> protocol \<Rightarrow> protocol" where
  "setMagic magic p = p\<lparr>p_magic := magic\<rparr>"

definition setVersion :: "byte \<Rightarrow> protocol \<Rightarrow> protocol" where
  "setVersion version p = p\<lparr>p_version := version\<rparr>"

definition setMsgType :: "MsgType \<Rightarrow> protocol \<Rightarrow> protocol" where
  "setMsgType t p = p\<lparr>p_type := msg_code t\<rparr>"

definition setSequenceId :: "32 word \<Rightarrow> protocol \<Rightarrow> protocol" where
  "setSequenceId n p = p\<lparr>p_seq := n\<rparr>"

definition setContentLength :: "32 word \<Rightarrow> protocol \<Rightarrow> protocol" where
  "setContentLength len p = p\<lparr>p_length := len\<rparr>"

definition setContent :: "byte list \<Rightarrow> protocol \<Rightarrow> protocol" where
  "setContent body p = p\<lparr>p_content := body\<rparr>"

definition Create :: "MsgType \<Rightarrow> byte list \<Rightarrow> 32 word \<Rightarrow> protocol" where
  "Create t body n = new_protocol\<lparr>p_type := msg_code t, p_content := body, p_seq := n\<rparr>"

lemma Create_sets: "Create t body n = setSequenceId n (setContent body (setMsgType t new_protocol))"
  by (simp add: Create_def setSequenceId_def setContent_def setMsgType_def)

definition HeartBeat :: protocol where
  "HeartBeat = Create HEARTBEAT_PACKET [] 0"

section \<open>Operations\<close>

definition encodeMeta :: "protocol \<Rightarrow> byte_array outcome" where
  "encodeMeta p =
     rbind (writeFuint8 (p_magic p) (new_byte_array 4096)) (\<lambda>bt.
     rbind (writeFuint8 (p_version p) bt) (\<lambda>bt.
     rbind (writeFuint8 (p_type p) bt) (\<lambda>bt.
     rbind (writeFuint32 (p_seq p) bt) (\<lambda>bt.
     rbind (writeFuint32 (word_of_nat (length (p_content p))) bt) (\<lambda>bt.
     setPosition 0 bt)))))"

definition encode :: "protocol \<Rightarrow> byte_array outcome" where
  "encode p =
     rbind (writeFuint8 (p_magic p) (new_byte_array 4096)) (\<lambda>bt.
     rbind (writeFuint8 (p_version p) bt) (\<lambda>bt.
     rbind (writeFuint8 (p_type p) bt) (\<lambda>bt.
     rbind (writeFuint32 (p_seq p) bt) (\<lambda>bt.
     rbind (writeStringF32 (p_content p) bt) (\<lambda>bt.
     setPosition 0 bt)))))"

definition decodeMeta :: "protocol \<Rightarrow> (byte_array, protocol) reader" where
  "decodeMeta p bt =
     rbind (readFuint8 bt) (\<lambda>(m, bt).
     rbind (readFuint8 bt) (\<lambda>(v, bt).
     rbind (readFuint8 bt) (\<lambda>(t, bt).
     rbind (readFuint32 bt) (\<lambda>(n, bt).
     rbind (readFuint32 bt) (\<lambda>(len, bt).
     Inr (p\<lparr>p_magic := m, p_version := v, p_type := t, p_seq := n, p_length := len\<rparr>, bt))))))"

definition decode :: "protocol \<Rightarrow> (byte_array, protocol) reader" where
  "decode p bt =
     rbind (readFuint8 bt) (\<lambda>(m, bt).
     rbind (readFuint8 bt) (\<lambda>(v, bt).
     rbind (readFuint8 bt) (\<lambda>(t, bt).
     rbind (readFuint32 bt) (\<lambda>(n, bt).
     rbind (readStringF32 bt) (\<lambda>(body, bt).
     Inr (p\<lparr>p_magic := m, p_version := v, p_type := t, p_seq := n,
            p_length := word_of_nat (length body), p_content := body\<rparr>, bt))))))"

section \<open>The frame on the wire\<close>

definition header_bytes :: "protocol \<Rightarrow> byte list" where
  "header_bytes p =
     [p_magic p] @ [p_version p] @ [p_type p] @ mem_bytes Big (p_seq p) @
     mem_bytes Big (word_of_nat (length (p_content p)) :: 32 word)"

definition frame_bytes :: "protocol \<Rightarrow> byte list" where
  "frame_bytes p = header_bytes p @ p_content p"

lemma length_header_bytes [simp]: "length (header_bytes p) = BASE_LENGTH"
  by (simp add: header_bytes_def BASE_LENGTH_def)

lemma length_frame_bytes: "length (frame_bytes p) = BASE_LENGTH + length (p_content p)"
  by (simp add: frame_bytes_def)

text \<open>A sequence of writers run on a fresh buffer and rewound.\<close>

lemma emit_from_new:
  assumes "emits (writable 4096 Big) ba_out f bs" and "r \<Longrightarrow> length bs mod 4096 \<noteq> 0 \<or> bs = []"
  obtains b b1 where "f (new_byte_array 4096) = Inr b1" "setPosition 0 b1 = Inr b"
    "readable r Big b" "ba_rest b = bs"
proof -
  note fresh = new_writable [of 4096, simplified]
  obtain b1 where b1: "f (new_byte_array 4096) = Inr b1" "writable 4096 Big b1"
      "ba_out b1 = ba_out (new_byte_array 4096) @ bs"
    using assms(1) fresh by (auto elim: emitsD)
  have out: "ba_out b1 = bs" using b1(3) fresh by simp
  have size: "ba_size b1 = length bs" using writable_size [OF b1(2)] out by simp
  obtain b where "setPosition 0 b1 = Inr b" "readable r Big b" "ba_rest b = drop 0 (ba_out b1)"
    using rewind_readable [OF b1(2), of 0 r] assms(2) size by auto
  then show thesis using that b1(1) out by simp
qed

lemma encode_ok:
  assumes "r \<Longrightarrow> length (frame_bytes p) mod 4096 \<noteq> 0"
  obtains b where "encode p = Inr b" "readable r Big b" "ba_rest b = frame_bytes p"
proof -
  let ?f = "\<lambda>bt. rbind (writeFuint8 (p_magic p) bt) (\<lambda>bt.
     rbind (writeFuint8 (p_version p) bt) (\<lambda>bt.
     rbind (writeFuint8 (p_type p) bt) (\<lambda>bt.
     rbind (writeFuint32 (p_seq p) bt) (writeStringF32 (p_content p)))))"
  have "emits (writable 4096 Big) ba_out ?f (frame_bytes p)"
    unfolding frame_bytes_def header_bytes_def append_assoc
    by (intro emit_intros)
  then obtain b b1 where "?f (new_byte_array 4096) = Inr b1" "setPosition 0 b1 = Inr b"
      "readable r Big b" "ba_rest b = frame_bytes p"
    by (rule emit_from_new [where r = r]) (use assms in blast)+
  moreover have "encode p = rbind (?f (new_byte_array 4096)) (setPosition 0)"
    by (simp add: encode_def rbind_assoc)
  ultimately show thesis using that by simp
qed

lemma encodeMeta_ok:
  obtains b where "encodeMeta p = Inr b" "readable True Big b" "ba_rest b = header_bytes p"
proof -
  let ?f = "\<lambda>bt. rbind (writeFuint8 (p_magic p) bt) (\<lambda>bt.
     rbind (writeFuint8 (p_version p) bt) (\<lambda>bt.
     rbind (writeFuint8 (p_type p) bt) (\<lambda>bt.
     rbind (writeFuint32 (p_seq p) bt) (writeFuint32 (word_of_nat (length (p_content p)))))))"
  have "emits (writable 4096 Big) ba_out ?f (header_bytes p)"
    unfolding header_bytes_def
    by (intro emit_intros)
  then obtain b b1 where "?f (new_byte_array 4096) = Inr b1" "setPosition 0 b1 = Inr b"
      "readable True Big b" "ba_rest b = header_bytes p"
    by (rule emit_from_new [where r = True]) (simp_all add: BASE_LENGTH_def)
  moreover have "encodeMeta p = rbind (?f (new_byte_array 4096)) (setPosition 0)"
    by (simp add: encodeMeta_def rbind_assoc)
  ultimately show thesis using that by simp
qed

text \<open>The fields the reader of a frame sets.\<close>

definition header_of :: "protocol \<Rightarrow> protocol \<Rightarrow> protocol" where
  "header_of q p =
     q\<lparr>p_magic := p_magic p, p_version := p_version p, p_type := p_type p, p_seq := p_seq p,
       p_length := word_of_nat (length (p_content p))\<rparr>"

lemma decodeMeta_parses:
  "parses (readable r Big) ba_rest (decodeMeta q) (header_bytes p) (header_of q p)"
proof -
  have "parses (readable r Big) ba_rest (decodeMeta q)
      ([p_magic p] @ [p_version p] @ [p_type p] @ mem_bytes Big (p_seq p) @
       mem_bytes Big (word_of_nat (length (p_content p)) :: 32 word) @ []) (header_of q p)"
    unfolding decodeMeta_def [abs_def] header_of_def
    by (rule parses_bind parse_intros)+
  then show ?thesis by (simp add: header_bytes_def)
qed

lemma decode_parses:
  assumes "length (p_content p) < 2 ^ 32" and "p_content p \<noteq> [] \<or> r"
  shows "parses (readable r Big) ba_rest (decode q) (frame_bytes p)
    ((header_of q p)\<lparr>p_content := p_content p\<rparr>)"
proof -
  have "parses (readable r Big) ba_rest (decode q)
      ([p_magic p] @ [p_version p] @ [p_type p] @ mem_bytes Big (p_seq p) @
       (mem_bytes Big (word_of_nat (length (p_content p)) :: 32 word) @ p_content p) @ [])
      (q\<lparr>p_magic := p_magic p, p_version := p_version p, p_type := p_type p, p_seq := p_seq p,
         p_length := word_of_nat (length (p_content p)), p_content := p_content p\<rparr>)"
    unfolding decode_def [abs_def]
    by (rule parses_bind parse_intros parses_string(2) [OF assms])+
  then show ?thesis by (simp add: frame_bytes_def header_bytes_def header_of_def)
qed

lemma decode_starves:
  assumes "length (p_content p) < 2 ^ 32" and "p_content p \<noteq> [] \<or> r"
  shows "starves (readable r Big) ba_rest (decode q) (frame_bytes p)"
proof -
  have "starves (readable r Big) ba_rest (decode q)
      ([p_magic p] @ [p_version p] @ [p_type p] @ mem_bytes Big (p_seq p) @
       (mem_bytes Big (word_of_nat (length (p_content p)) :: 32 word) @ p_content p) @ [])"
    unfolding decode_def [abs_def]
    by (rule starves_bind [OF starves_fixed(2) parses_fixed(2)],
        rule starves_bind [OF starves_fixed(2) parses_fixed(2)],
        rule starves_bind [OF starves_fixed(2) parses_fixed(2)],
        rule starves_bind [OF starves_fixed(6) parses_fixed(6)],
        rule starves_bind [OF starves_string(2) [OF assms(1)] parses_string(2) [OF assms]],
        rule starves_Nil)
  then show ?thesis by (simp add: frame_bytes_def header_bytes_def)
qed

lemma guarded_decode [guarded_intros]:
  "guarded (readable True Big) ba_rest (decode q)"
  "guarded (readable True Big) ba_rest (decodeMeta q)"
  unfolding decode_def [abs_def] decodeMeta_def [abs_def]
  by (intro guarded_intros)+

end
