(* ===== verification/RPCCommon.thy ===== *)
theory RPCCommon
  imports SerializerSpec Protocol
begin

text \<open>
  The result of a remote call, \<open>RPCResult\<close> of \<open>include/rpc/RPCCommon.h\<close>, and its two serialization
  operators.
\<close>

section \<open>Data\<close>

datatype RPCState =
  RPC_SUCCESS | RPC_FAIL | RPC_NO_MATCH | RPC_NO_METHOD | RPC_CLOSED | RPC_TIMEOUT

fun state_code :: "RPCState \<Rightarrow> 16 word" where
  "state_code RPC_SUCCESS = 0"
| "state_code RPC_FAIL = 1"
| "state_code RPC_NO_MATCH = 2"
| "state_code RPC_NO_METHOD = 3"
| "state_code RPC_CLOSED = 4"
| "state_code RPC_TIMEOUT = 5"

text \<open>\<open>void\<close> is \<open>None\<close>; a \<open>void\<close> call carries an \<open>int8_t\<close>.\<close>

definition return_type :: "ty option \<Rightarrow> ty" where
  "return_type t = (case t of None \<Rightarrow> TInt8 | Some t' \<Rightarrow> t')"

record rpc_result =
  r_code :: "16 word"
  r_msg :: "byte list"
  r_val :: val

text \<open>
  The constructor leaves \<open>val_\<close> alone: for a type without a constructor of its own it is whatever
  the memory held, the argument \<open>junk\<close>.
\<close>

definition new_result :: "val \<Rightarrow> rpc_result" where
  "new_result junk = \<lparr>r_code = 0, r_msg = [], r_val = junk\<rparr>"

definition Success :: "val \<Rightarrow> rpc_result" where
  "Success junk = (new_result junk)\<lparr>r_code := state_code RPC_SUCCESS, r_msg := str_bytes ''success''\<rparr>"

definition Fail :: "val \<Rightarrow> rpc_result" where
  "Fail junk = (new_result junk)\<lparr>r_code := state_code RPC_FAIL, r_msg := str_bytes ''fail''\<rparr>"

definition result_valid :: "rpc_result \<Rightarrow> bool" where
  "result_valid r \<longleftrightarrow> r_code r = 0"

section \<open>Serialization\<close>

definition ser_result :: "rpc_result \<Rightarrow> byte_array writer" where
  "ser_result d b =
     rbind (ser (VUint16 (r_code d)) b) (\<lambda>b. rbind (ser (VString (r_msg d)) b) (ser (r_val d)))"

definition deser_result :: "key_ops \<Rightarrow> ty \<Rightarrow> rpc_result \<Rightarrow> (byte_array, rpc_result) reader" where
  "deser_result ops t d b =
     rbind (readFuint16 b) (\<lambda>(c, b).
     rbind (readStringVint b) (\<lambda>(m, b).
       if c = 0 then rbind (deser ops t b) (\<lambda>(v, b). Inr (d\<lparr>r_code := c, r_msg := m, r_val := v\<rparr>, b))
       else Inr (d\<lparr>r_code := c, r_msg := m\<rparr>, b)))"

section \<open>The result on the wire\<close>

definition status_bytes :: "rpc_result \<Rightarrow> byte list" where
  "status_bytes d = enc Big (VUint16 (r_code d)) @ enc Big (VString (r_msg d))"

definition result_bytes :: "rpc_result \<Rightarrow> byte list" where
  "result_bytes d = status_bytes d @ enc Big (r_val d)"

lemma ser_result_emits: "emits (writable k Big) ba_out (ser_result d) (result_bytes d)"
  unfolding ser_result_def [abs_def] result_bytes_def status_bytes_def append_assoc
  by (intro emits_bind ser_emits)

lemma deser_result_parses:
  assumes "r_code d = 0" and "length (r_msg d) < 2 ^ 62" and "r_msg d \<noteq> [] \<or> r"
    and "has_type t (r_val d)" and "storable ops (r_val d)" and "r \<or> no_empty (r_val d)"
  shows "parses (readable r Big) ba_rest (deser_result ops t q) (result_bytes d) d"
proof -
  have "parses (readable r Big) ba_rest (deser_result ops t q)
     (mem_bytes Big (r_code d) @ (varint_bytes (word_of_nat (length (r_msg d)) :: 64 word) @ r_msg d) @
      enc Big (r_val d)) (q\<lparr>r_code := r_code d, r_msg := r_msg d, r_val := r_val d\<rparr>)"
    unfolding deser_result_def [abs_def]
    by (rule parses_bind [OF parses_fixed(4)], rule parses_bind [OF parses_string(4) [OF assms(2,3)]])
       (use parses_map [OF deser_parses [OF assms(4-6)],
          where h = "\<lambda>v. q\<lparr>r_code := 0, r_msg := r_msg d, r_val := v\<rparr>"] in
        \<open>simp add: assms(1)\<close>)
  moreover have "q\<lparr>r_code := r_code d, r_msg := r_msg d, r_val := r_val d\<rparr> = d"
    by (rule rpc_result.equality) simp_all
  ultimately show ?thesis by (simp add: result_bytes_def status_bytes_def)
qed

text \<open>With a value that never ends in a read of nothing, it does not matter that there is no message.\<close>

lemma deser_result_parses_dense:
  assumes "r_code d = 0" and "r_msg d = []" and "has_type t (r_val d)" and "storable ops (r_val d)"
    and "no_empty (r_val d)" and "enc Big (r_val d) \<noteq> []"
  shows "parses (readable r Big) ba_rest (deser_result ops t q) (result_bytes d) d"
  unfolding parses_def
proof (intro allI impI, elim conjE)
  fix b zs assume b: "readable r Big b" "ba_rest b = result_bytes d @ zs"
  obtain b1 where b1: "readFuint16 b = Inr (0, b1)" "readable r Big b1"
      "ba_rest b1 = varint_bytes (0 :: 64 word) @ enc Big (r_val d) @ zs"
    by (rule parsesD [OF parses_fixed(4) b(1)]) (use b(2) assms(1,2) in \<open>simp add: result_bytes_def status_bytes_def\<close>)
  obtain b2 where b2: "readStringVint b1 = Inr ([], b2)" "readable r Big b2" "ba_rest b2 = enc Big (r_val d) @ zs"
    by (rule readStringVint_empty [OF b1(2,3)]) (use assms(6) in simp)
  have dense: "r \<or> no_empty (r_val d)" using assms(5) by simp
  obtain b3 where "deser ops t b2 = Inr (r_val d, b3)" "readable r Big b3" "ba_rest b3 = zs"
    by (rule parsesD [OF deser_parses [OF assms(3,4) dense] b2(2,3)])
  moreover have "q\<lparr>r_code := 0, r_msg := [], r_val := r_val d\<rparr> = d"
    using assms(1,2) by (intro rpc_result.equality) simp_all
  ultimately show "\<exists>b'. deser_result ops t q b = Inr (d, b') \<and> readable r Big b' \<and> ba_rest b' = zs"
    using b1(1) b2(1) by (simp add: deser_result_def)
qed

lemma deser_result_error:
  assumes "r_code d \<noteq> 0" and "length (r_msg d) < 2 ^ 62" and "r_msg d \<noteq> [] \<or> r"
  shows "parses (readable r Big) ba_rest (deser_result ops t q) (status_bytes d)
    (q\<lparr>r_code := r_code d, r_msg := r_msg d\<rparr>)"
proof -
  have "parses (readable r Big) ba_rest (deser_result ops t q)
     (mem_bytes Big (r_code d) @ (varint_bytes (word_of_nat (length (r_msg d)) :: 64 word) @ r_msg d) @ [])
     (q\<lparr>r_code := r_code d, r_msg := r_msg d\<rparr>)"
    unfolding deser_result_def [abs_def]
    by (rule parses_bind [OF parses_fixed(4)], rule parses_bind [OF parses_string(4) [OF assms(2,3)]])
       (simp add: assms(1) parses_return)
  then show ?thesis by (simp add: status_bytes_def)
qed

section \<open>Serializers over received strings\<close>

lemma int_to_size_small: "n < 2 ^ 31 \<Longrightarrow> int_to_size n = n"
proof -
  assume a: "n < 2 ^ 31"
  then have "sint (word_of_nat n :: 32 word) = int n"
    using sint_sbintrunc' [of "int n", where 'a = 32]
    by (simp add: signed_take_bit_int_eq_self)
  then have "(scast (word_of_nat n :: 32 word) :: 64 word) = word_of_nat n"
    by (simp add: scast_eq)
  then show ?thesis using a by (simp add: int_to_size_def unat_of_nat take_bit_nat_eq_self)
qed

lemma serializer_of_ok:
  assumes "length s < 2 ^ 31" and "r \<Longrightarrow> length s mod 4096 \<noteq> 0 \<or> s = []"
  obtains b where "serializer_of s = Inr b" "readable r Big b" "ba_rest b = s"
proof -
  have "writeRowData s = ba_write s"
    using assms(1) by (simp add: writeRowData_def [abs_def] int_to_size_small)
  then obtain b b1 where "writeRowData s (new_byte_array 4096) = Inr b1" "setPosition 0 b1 = Inr b"
      "readable r Big b" "ba_rest b = s"
    using assms(2) snk.put_emits [of 4096 Big s]
    by (metis emit_from_new)
  then show thesis
    using that by (simp add: serializer_of_def new_serializer_def reset_def)
qed

lemma toString_readable: "readable r e b \<Longrightarrow> toString b = Inr (ba_rest b)"
  using toString_eq [of b] None_notin_set [of "content b" "ba_pos b"]
  by (simp add: readable_def load_written ba_rest_def)

end
