(* ===== verification/RPCServer.thy ===== *)
theory RPCServer
  imports RPCCommon
begin

text \<open>
  The server's side of a call: \<open>RPCServer::proxy\<close>, \<open>call\<close>, \<open>handleMethodCall\<close> and
  \<open>publish_client_msg\<close> of \<open>include/rpc/RPCServer.h\<close> and \<open>src/rpc/RPCServer.cpp\<close>.

  A registered function is a parameter: its argument types, its return type (\<open>None\<close> for \<open>void\<close>) and
  its effect on the state \<open>'u\<close> of the program around it; it may throw.
\<close>

section \<open>Registered functions\<close>

record 'u rpc_method =
  m_args :: "ty list"
  m_ret :: "ty option"
  m_fun :: "val list \<Rightarrow> 'u \<Rightarrow> val outcome \<times> 'u"

type_synonym 'u handlers = "byte list \<rightharpoonup> 'u rpc_method"

definition registerMethod :: "byte list \<Rightarrow> 'u rpc_method \<Rightarrow> 'u handlers \<Rightarrow> 'u handlers" where
  "registerMethod name f hs = hs(name \<mapsto> f)"

text \<open>\<open>std::get<Index>(args)...\<close>\<close>

fun tuple_elems :: "val \<Rightarrow> val list" where
  "tuple_elems (VTuple vs) = vs"
| "tuple_elems _ = []"

section \<open>Operations\<close>

definition proxy ::
    "key_ops \<Rightarrow> val \<Rightarrow> 'u rpc_method \<Rightarrow> byte_array \<Rightarrow> byte list \<Rightarrow> 'u \<Rightarrow> byte_array outcome \<times> 'u" where
  "proxy ops junk m serializer arg u =
     (case serializer_of arg of
        Inl e \<Rightarrow> (Inl e, u)
      | Inr s \<Rightarrow>
          (case deser ops (TTuple (m_args m)) s of
             Inl e \<Rightarrow>
               (if is_exception e
                then (ser_result ((new_result junk)\<lparr>r_code := state_code RPC_NO_MATCH,
                                                   r_msg := str_bytes ''params not match''\<rparr>) serializer, u)
                else (Inl e, u))
           | Inr (args, s') \<Rightarrow>
               (case m_fun m (tuple_elems args) u of
                  (Inl e, u') \<Rightarrow> (Inl e, u')
                | (Inr v, u') \<Rightarrow>
                    (let rt = (if m_ret m = None then VInt8 0 else v)
                     in (ser_result ((new_result junk)\<lparr>r_code := state_code RPC_SUCCESS,
                                                      r_val := rt\<rparr>) serializer, u')))))"

definition call ::
    "key_ops \<Rightarrow> (ty \<Rightarrow> val) \<Rightarrow> 'u handlers \<Rightarrow> byte list \<Rightarrow> byte list \<Rightarrow> 'u \<Rightarrow> byte_array outcome \<times> 'u" where
  "call ops junk hs name arg u =
     (case hs name of
        None \<Rightarrow> (Inr new_serializer, u)
      | Some m \<Rightarrow>
          (case proxy ops (junk (return_type (m_ret m))) m new_serializer arg u of
             (r, u') \<Rightarrow> (rbind r reset, u')))"

definition handleMethodCall ::
    "key_ops \<Rightarrow> (ty \<Rightarrow> val) \<Rightarrow> 'u handlers \<Rightarrow> protocol \<Rightarrow> 'u \<Rightarrow> protocol outcome \<times> 'u" where
  "handleMethodCall ops junk hs proto u =
     (case rbind (serializer_of (p_content proto)) (\<lambda>request.
           rbind (readStringVint request) (\<lambda>(func_name, request).
           rbind (toString request) (\<lambda>arg. Inr (func_name, arg)))) of
        Inl e \<Rightarrow> (Inl e, u)
      | Inr (func_name, arg) \<Rightarrow>
          (case call ops junk hs func_name arg u of
             (r, u') \<Rightarrow>
               (rbind r (\<lambda>rt. rbind (toString rt) (\<lambda>s.
                  Inr (Create RPC_METHOD_RESPONSE s (p_seq proto)))), u')))"

text \<open>
  What the event handler makes of the bytes of a packet: the response it hands to the thread pool,
  if any. \<open>connected\<close> is the answer of \<open>client->is_connected()\<close>.
\<close>

definition publish_client_msg ::
    "key_ops \<Rightarrow> (ty \<Rightarrow> val) \<Rightarrow> 'u handlers \<Rightarrow> bool \<Rightarrow> byte_array \<Rightarrow> 'u \<Rightarrow> protocol option outcome \<times> 'u" where
  "publish_client_msg ops junk hs connected bt u =
     (case decode new_protocol bt of
        Inl e \<Rightarrow> (if is_exception e then Inr None else Inl e, u)
      | Inr (proto, _) \<Rightarrow>
          if p_magic proto \<noteq> MAGIC then (Inr None, u)
          else if p_type proto = msg_code RPC_METHOD_REQUEST
          then (case handleMethodCall ops junk hs proto u of
                  (r, u') \<Rightarrow> (rbind r (\<lambda>response. Inr (if connected then Some response else None)), u'))
          else (Inr None, u))"

definition publish_client_disconnected :: "byte_array \<Rightarrow> byte list outcome" where
  "publish_client_disconnected bt = rbind (readStringF32 bt) (\<lambda>(s, _). Inr s)"

section \<open>The proxy\<close>

text \<open>What a function's arguments look like on the wire.\<close>

definition args_bytes :: "val list \<Rightarrow> byte list" where
  "args_bytes vs = concat (map (enc Big) vs)"

definition well_typed_args :: "key_ops \<Rightarrow> ty list \<Rightarrow> val list \<Rightarrow> bool" where
  "well_typed_args ops ts vs \<longleftrightarrow>
     has_type (TTuple ts) (VTuple vs) \<and> storable ops (VTuple vs) \<and>
     length (args_bytes vs) < 2 ^ 31 \<and>
     (length (args_bytes vs) mod 4096 \<noteq> 0 \<or> args_bytes vs = [] \<or> no_empty (VTuple vs))"

text \<open>The value sent back for the one a function returned.\<close>

definition sent_val :: "'u rpc_method \<Rightarrow> val \<Rightarrow> val" where
  "sent_val m v = (if m_ret m = None then VInt8 0 else v)"

definition success_result :: "val \<Rightarrow> rpc_result" where
  "success_result v = \<lparr>r_code = 0, r_msg = [], r_val = v\<rparr>"

definition mismatch_result :: "val \<Rightarrow> rpc_result" where
  "mismatch_result v = \<lparr>r_code = 2, r_msg = str_bytes ''params not match'', r_val = v\<rparr>"

lemma deser_args:
  assumes "well_typed_args ops ts vs"
  obtains s s' where "serializer_of (args_bytes vs) = Inr s" "deser ops (TTuple ts) s = Inr (VTuple vs, s')"
proof -
  let ?r = "length (args_bytes vs) mod 4096 \<noteq> 0 \<or> args_bytes vs = []"
  have small: "length (args_bytes vs) < 2 ^ 31" and typed: "has_type (TTuple ts) (VTuple vs)"
    and stor: "storable ops (VTuple vs)" and room: "?r \<or> no_empty (VTuple vs)"
    using assms unfolding well_typed_args_def by blast+
  obtain s where s: "serializer_of (args_bytes vs) = Inr s" "readable ?r Big s" "ba_rest s = args_bytes vs"
    by (rule serializer_of_ok [OF small, of ?r]) blast+
  obtain s' where "deser ops (TTuple ts) s = Inr (VTuple vs, s')"
    by (rule parsesD [OF deser_parses [OF typed stor room] s(2), of "[]"]) (simp_all add: s(3) args_bytes_def)
  then show thesis using that s(1) by blast
qed

lemma result_to_string:
  obtains b b' where "ser_result d new_serializer = Inr b" "reset b = Inr b'"
    "toString b' = Inr (result_bytes d)"
proof (rule emit_from_new [OF ser_result_emits [of 4096 d], where r = False])
  fix b b1 assume "ser_result d (new_byte_array 4096) = Inr b1" "setPosition 0 b1 = Inr b"
    "readable False Big b" "ba_rest b = result_bytes d"
  then show thesis
    using that [of b1 b] toString_readable by (simp add: new_serializer_def reset_def)
qed simp

lemma call_unknown: "hs name = None \<Longrightarrow> call ops junk hs name arg u = (Inr new_serializer, u)"
  by (simp add: call_def)

lemma call_success:
  assumes "hs name = Some m" and "well_typed_args ops (m_args m) vs" and "m_fun m vs u = (Inr v, u')"
  shows "\<exists>b. call ops junk hs name (args_bytes vs) u = (Inr b, u') \<and>
    toString b = Inr (result_bytes (success_result (sent_val m v)))"
proof -
  obtain s s' where s: "serializer_of (args_bytes vs) = Inr s"
      "deser ops (TTuple (m_args m)) s = Inr (VTuple vs, s')"
    by (rule deser_args [OF assms(2)])
  obtain b b' where b: "ser_result (success_result (sent_val m v)) new_serializer = Inr b"
      "reset b = Inr b'" "toString b' = Inr (result_bytes (success_result (sent_val m v)))"
    by (rule result_to_string)
  have "proxy ops j m new_serializer (args_bytes vs) u = (Inr b, u')" for j
    using s b(1) assms(3)
    by (simp add: proxy_def new_result_def success_result_def sent_val_def del: deser.simps)
  then show ?thesis using assms(1) b by (simp add: call_def)
qed

lemma call_throws:
  assumes "hs name = Some m" and "well_typed_args ops (m_args m) vs" and "m_fun m vs u = (Inl e, u')"
  shows "call ops junk hs name (args_bytes vs) u = (Inl e, u')"
proof -
  obtain s s' where s: "serializer_of (args_bytes vs) = Inr s"
      "deser ops (TTuple (m_args m)) s = Inr (VTuple vs, s')"
    by (rule deser_args [OF assms(2)])
  then show ?thesis
    using assms by (simp add: call_def proxy_def del: deser.simps)
qed

lemma call_mismatch:
  assumes "hs name = Some m" and "serializer_of arg = Inr s"
    and "deser ops (TTuple (m_args m)) s = Inl e" and "is_exception e"
  shows "\<exists>b. call ops junk hs name arg u = (Inr b, u) \<and>
    toString b = Inr (result_bytes (mismatch_result (junk (return_type (m_ret m)))))"
proof -
  let ?d = "mismatch_result (junk (return_type (m_ret m)))"
  obtain b b' where b: "ser_result ?d new_serializer = Inr b"
      "reset b = Inr b'" "toString b' = Inr (result_bytes ?d)"
    by (rule result_to_string)
  have "proxy ops (junk (return_type (m_ret m))) m new_serializer arg u = (Inr b, u)"
    using assms b(1) by (simp add: proxy_def new_result_def mismatch_result_def del: deser.simps)
  then show ?thesis using assms(1) b by (simp add: call_def)
qed

section \<open>Handling a request\<close>

definition request_bytes :: "byte list \<Rightarrow> byte list \<Rightarrow> byte list" where
  "request_bytes name arg = enc Big (VString name) @ arg"

definition response_to :: "protocol \<Rightarrow> byte list \<Rightarrow> protocol" where
  "response_to proto body = Create RPC_METHOD_RESPONSE body (p_seq proto)"

definition request_fits :: "byte list \<Rightarrow> byte list \<Rightarrow> bool" where
  "request_fits name arg \<longleftrightarrow>
     length (request_bytes name arg) < 2 ^ 31 \<and>
     (name \<noteq> [] \<or> length (request_bytes name arg) mod 4096 \<noteq> 0)"

lemma handle_request:
  assumes "p_content proto = request_bytes name arg" and "request_fits name arg"
  shows "handleMethodCall ops junk hs proto u =
    (case call ops junk hs name arg u of
       (r, u') \<Rightarrow> (rbind r (\<lambda>rt. rbind (toString rt) (\<lambda>s. Inr (response_to proto s))), u'))"
proof -
  let ?c = "request_bytes name arg" and ?r = "length (request_bytes name arg) mod 4096 \<noteq> 0"
  have small: "length ?c < 2 ^ 31" and room: "name \<noteq> [] \<or> ?r"
    using assms(2) by (auto simp: request_fits_def)
  have name: "length name < 2 ^ 62" using small by (simp add: request_bytes_def)
  obtain b where b: "serializer_of ?c = Inr b" "readable ?r Big b" "ba_rest b = ?c"
    by (rule serializer_of_ok [OF small, of ?r]) blast+
  obtain b' where b': "readStringVint b = Inr (name, b')" "readable ?r Big b'" "ba_rest b' = arg"
    by (rule parsesD [OF parses_string(4) [OF name room] b(2), of arg])
       (simp_all add: b(3) request_bytes_def)
  show ?thesis
    using b(1) b'(1) toString_readable [OF b'(2)] b'(3)
    by (simp add: handleMethodCall_def assms(1) response_to_def)
qed

lemma handle_success:
  assumes "p_content proto = request_bytes name (args_bytes vs)" and "request_fits name (args_bytes vs)"
    and "hs name = Some m" and "well_typed_args ops (m_args m) vs" and "m_fun m vs u = (Inr v, u')"
  shows "handleMethodCall ops junk hs proto u =
    (Inr (response_to proto (result_bytes (success_result (sent_val m v)))), u')"
  using handle_request [OF assms(1,2), of ops junk hs u] call_success [of hs name m, OF assms(3-5), of junk] by auto

lemma handle_mismatch:
  assumes "p_content proto = request_bytes name arg" and "request_fits name arg"
    and "hs name = Some m" and "serializer_of arg = Inr s"
    and "deser ops (TTuple (m_args m)) s = Inl e" and "is_exception e"
  shows "handleMethodCall ops junk hs proto u =
    (Inr (response_to proto (result_bytes (mismatch_result (junk (return_type (m_ret m)))))), u)"
  using handle_request [OF assms(1,2), of ops junk hs u] call_mismatch [of hs name m, OF assms(3-6), of junk u] by auto

lemma toString_new_serializer: "toString new_serializer = Inr []"
  using toString_eq [of new_serializer] new_byte_array_ok [of 4096]
  by (simp add: new_serializer_def tape_of_def load_def)

lemma handle_unknown:
  assumes "p_content proto = request_bytes name arg" and "request_fits name arg" and "hs name = None"
  shows "handleMethodCall ops junk hs proto u = (Inr (response_to proto []), u)"
  using handle_request [OF assms(1,2), of ops junk hs u] call_unknown [of hs name ops junk arg u, OF assms(3)]
  by (simp add: toString_new_serializer)

section \<open>Handling a packet\<close>

lemma publish_frame:
  assumes "readable r Big bt" and "ba_rest bt = frame_bytes p @ zs"
    and "length (p_content p) < 2 ^ 32" and "p_content p \<noteq> [] \<or> r"
    and "p_magic p = MAGIC" and "p_type p = msg_code RPC_METHOD_REQUEST"
  shows "publish_client_msg ops junk hs connected bt u =
    (case handleMethodCall ops junk hs
            ((header_of new_protocol p)\<lparr>p_content := p_content p\<rparr>) u of
       (x, u') \<Rightarrow> (rbind x (\<lambda>response. Inr (if connected then Some response else None)), u'))"
proof -
  obtain bt' where "decode new_protocol bt = Inr ((header_of new_protocol p)\<lparr>p_content := p_content p\<rparr>, bt')"
    by (rule parsesD [OF decode_parses [OF assms(3,4)] assms(1,2)])
  then show ?thesis using assms(5,6) by (simp add: publish_client_msg_def header_of_def)
qed

end
