(* ===== verification/Scatter.thy ===== *)
theory Scatter
  imports Tape
begin

text \<open>
  Vectored transfers: what \<open>recvmsg\<close> and \<open>sendmsg\<close> do with the \<open>iovec\<close>s the buffer hands out, and
  that \<open>getWriteBuffers\<close>/\<open>getReadBuffers\<close>, the transfer, and \<open>setPosition\<close> together are one write
  to, or one read from, the tape.
\<close>

section \<open>The transfers\<close>

definition iov_total :: "iovec list \<Rightarrow> nat" where
  "iov_total vs = sum_list (map iov_len vs)"

fun scatter :: "iovec list \<Rightarrow> byte list \<Rightarrow> byte_array \<Rightarrow> byte_array outcome" where
  "scatter vs [] b = Inr b"
| "scatter [] bs b = Inl Heap_overflow"
| "scatter (v # vs) bs b =
     rbind (store (iov_block v) (iov_off v) (take (iov_len v) bs) b) (scatter vs (drop (iov_len v) bs))"

fun collect :: "node list \<Rightarrow> iovec list \<Rightarrow> cell list outcome" where
  "collect ns [] = Inr []"
| "collect ns (v # vs) =
     rbind (fetch ns (iov_block v) (iov_off v) (iov_len v)) (\<lambda>cs.
     rbind (collect ns vs) (\<lambda>cs'. Inr (cs @ cs')))"

lemma collect_gather: "\<forall>v \<in> set vs. iov_valid ns v \<Longrightarrow> collect ns vs = Inr (gather ns vs)"
  by (induction vs) (auto simp: fetch_def node_at_def iov_valid_def gather_def iov_bytes_def)

lemma gather_length: "\<forall>v \<in> set vs. iov_valid ns v \<Longrightarrow> length (gather ns vs) = iov_total vs"
  by (induction vs) (auto simp: gather_def iov_bytes_def iov_valid_def iov_total_def)

section \<open>Receiving\<close>

text \<open>
  The bytes of one \<open>recvmsg\<close>, fewer perhaps than the views have room for, fill the cells from the
  position on. The views were taken from a chain \<open>ns\<close> of the same shape.
\<close>

lemma scatter_ok:
  assumes "blocks_ok k ns" and "blocks_ok k (ba_nodes b)" and "length (ba_nodes b) = length ns"
    and "cur < length ns" and "npos < k" and "ncap = k - npos"
    and "k * cur + npos + len \<le> k * length ns" and "length bs \<le> len"
    and "iov_loop ns len npos ncap cur = Inr iovs"
  shows "\<exists>ns'. scatter iovs bs b = Inr (b\<lparr>ba_nodes := ns'\<rparr>) \<and>
    chain ns' = overlay (flat b) (k * cur + npos) (map Some bs) \<and>
    blocks_ok k ns' \<and> length ns' = length ns"
  using assms
proof (induction ns len npos ncap cur arbitrary: bs b iovs rule: iov_loop.induct)
  case (1 ns len npos ncap cur)
  note unfold = iov_loop.simps [of ns len npos ncap cur]
  show ?case
  proof (cases bs)
    case Nil
    then show ?thesis using "1.prems"(2,3) by (intro exI [of _ "ba_nodes b"]) simp
  next
    case (Cons b0 bs0)
    then have len: "0 < len" and some: "bs \<noteq> []" using "1.prems"(8) by auto
    have "npos + length (take ncap bs) \<le> k" using "1.prems"(5,6) by simp
    then obtain ns1 where ns1: "store cur npos (take ncap bs) b = Inr (b\<lparr>ba_nodes := ns1\<rparr>)"
        "chain ns1 = overlay (flat b) (k * cur + npos) (map Some (take ncap bs))"
        "blocks_ok k ns1" "length ns1 = length (ba_nodes b)"
      using "1.prems"(2,3,4) by (elim store_ok [where i = cur and off = npos]) auto
    show ?thesis
    proof (cases "len \<le> ncap")
      case True
      then have "iovs = [\<lparr>iov_block = cur, iov_off = npos, iov_len = len\<rparr>]"
        using "1.prems"(9) len by (simp add: unfold)
      moreover have "take ncap bs = bs" "take len bs = bs" "drop len bs = []"
        using True "1.prems"(8) by auto
      ultimately show ?thesis
        using ns1 some "1.prems"(3) by (intro exI [of _ ns1]) (simp add: Cons)
    next
      case False
      have nxt: "Suc cur < length ns"
        by (rule next_block [of k _ npos len]) (use "1.prems" False in auto)
      have sz: "node_size (ns ! Suc cur) = k" using blocks_ok_nth [OF "1.prems"(1) nxt] by simp
      have at: "k * cur + npos + ncap = k * Suc cur" using "1.prems"(5,6) by simp
      obtain iovs' where iovs': "iov_loop ns (len - ncap) 0 (node_size (ns ! Suc cur)) (Suc cur) = Inr iovs'"
          "iovs = \<lparr>iov_block = cur, iov_off = npos, iov_len = ncap\<rparr> # iovs'"
        using "1.prems"(9) False len by (auto simp: unfold rbind_eq_Inr_iff)
      have "\<exists>ns'. scatter iovs' (drop ncap bs) (b\<lparr>ba_nodes := ns1\<rparr>) =
            Inr (b\<lparr>ba_nodes := ns1\<rparr>\<lparr>ba_nodes := ns'\<rparr>) \<and>
          chain ns' = overlay (flat (b\<lparr>ba_nodes := ns1\<rparr>)) (k * Suc cur + 0) (map Some (drop ncap bs)) \<and>
          blocks_ok k ns' \<and> length ns' = length ns"
        by (rule "1.IH" [OF _ False, of "ns ! Suc cur"])
           (use len nxt sz at ns1 "1.prems" False iovs'(1) in \<open>auto simp: node_at_def\<close>)
      then obtain ns' where ns': "scatter iovs' (drop ncap bs) (b\<lparr>ba_nodes := ns1\<rparr>) = Inr (b\<lparr>ba_nodes := ns'\<rparr>)"
          "chain ns' = overlay (chain ns1) (k * cur + npos + ncap) (map Some (drop ncap bs))"
          "blocks_ok k ns'" "length ns' = length ns"
        using at by auto
      have "chain ns' = overlay (flat b) (k * cur + npos) (map Some bs)"
      proof (cases "length bs \<le> ncap")
        case True
        then show ?thesis using ns'(2) ns1(2) by simp
      next
        case big: False
        then have l: "ncap = length (map Some (take ncap bs))" by simp
        have "chain ns' = overlay (overlay (flat b) (k * cur + npos) (map Some (take ncap bs)))
            (k * cur + npos + length (map Some (take ncap bs))) (map Some (drop ncap bs))"
          using ns'(2) ns1(2) by (metis l)
        also have "\<dots> = overlay (flat b) (k * cur + npos)
            (map Some (take ncap bs) @ map Some (drop ncap bs))"
          by (rule overlay_overlay)
             (use "1.prems"(2,3,7,8) big in \<open>simp add: length_chain\<close>)
        finally show ?thesis by (simp flip: map_append)
      qed
      then show ?thesis
        using ns1 ns' iovs'(2) some by (intro exI [of _ ns']) (simp add: Cons)
    qed
  qed
qed

lemma iov_loop_total:
  assumes "blocks_ok k ns" and "cur < length ns" and "npos < k" and "ncap = k - npos"
    and "k * cur + npos + len \<le> k * length ns" and "iov_loop ns len npos ncap cur = Inr iovs"
  shows "iov_total iovs = len"
proof -
  have "gather ns iovs = take len (drop (k * cur + npos) (chain ns))" "\<forall>v \<in> set iovs. iov_valid ns v"
    using iov_loop_ok [OF assms(1-5)] assms(6) by auto
  then show ?thesis
    using gather_length [of iovs ns] assms(5) length_chain [OF assms(1)] by simp
qed

text \<open>
  \<open>getWriteBuffers\<close>, a transfer of some of the bytes asked for, and \<open>setPosition\<close> amount to a write.
\<close>

lemma receive_ok:
  assumes "ba_inv b" and "0 < len"
  obtains iovs b1 where "getWriteBuffers [] len b = Inr (iovs, len, b1)" "iov_total iovs = len"
    and "\<And>bs. length bs \<le> len \<Longrightarrow> \<exists>b2 b3. scatter iovs bs b1 = Inr b2 \<and>
        setPosition (ba_pos b2 + length bs) b2 = Inr b3 \<and> ba_inv b3 \<and>
        tape_of b3 = tape_write bs (tape_of b) \<and> same_setup b b3"
proof -
  obtain n where add: "addCapacity len b = Inr (b\<lparr>ba_nodes := ba_nodes b @ replicate n (new_node (ba_base b)),
                              ba_cap := ba_cap b + n * ba_base b\<rparr>)"
      "ba_pos b + len \<le> ba_cap b + n * ba_base b"
      "ba_inv (b\<lparr>ba_nodes := ba_nodes b @ replicate n (new_node (ba_base b)),
                ba_cap := ba_cap b + n * ba_base b\<rparr>)"
    by (rule addCapacity_ok [OF assms(1), of len])
  define b1 where "b1 = b\<lparr>ba_nodes := ba_nodes b @ replicate n (new_node (ba_base b)),
                              ba_cap := ba_cap b + n * ba_base b\<rparr>"
  note b1 = add [folded b1_def]
  let ?k = "ba_base b" and ?p = "ba_pos b mod ba_base b"
  have k: "0 < ?k" using assms(1) by (rule ba_inv_base)
  have room: "ba_pos b1 < ba_cap b1" using b1(2) assms(2) by (simp add: b1_def)
  have blk: "blocks_ok ?k (ba_nodes b1)" and cap: "ba_cap b1 = ?k * length (ba_nodes b1)"
    and at: "?k * ba_cur b1 + ?p = ba_pos b"
    using b1(3) by (auto simp: ba_inv_def b1_def)
  have cur: "ba_cur b1 < length (ba_nodes b1)" by (rule ba_inv_cur [OF b1(3) room])
  have fits: "?k * ba_cur b1 + ?p + len \<le> ?k * length (ba_nodes b1)"
    using at b1(2) cap by (simp add: b1_def)
  have loc: "locate b1 (ba_pos b1) = Inr (?p, ?k - ?p)"
    using locate_ok [OF b1(3) room, of "ba_pos b1"] by (simp add: b1_def)
  have p: "?p < ?k" using k by simp
  obtain iovs where iovs: "iov_loop (ba_nodes b1) len ?p (?k - ?p) (ba_cur b1) = Inr iovs"
    using iov_loop_ok [OF blk cur p refl fits] by blast
  show thesis
  proof (rule that [of iovs b1])
    show "getWriteBuffers [] len b = Inr (iovs, len, b1)"
      using assms(2) b1(1) loc iovs by (simp add: getWriteBuffers_def)
    show "iov_total iovs = len" by (rule iov_loop_total [OF blk cur p refl fits iovs])
    fix bs :: "byte list" assume len: "length bs \<le> len"
    obtain ns where ns: "scatter iovs bs b1 = Inr (b1\<lparr>ba_nodes := ns\<rparr>)"
        "chain ns = overlay (flat b1) (ba_pos b) (map Some bs)"
        "blocks_ok ?k ns" "length ns = length (ba_nodes b1)"
      using scatter_ok [OF blk blk refl cur p refl fits len iovs] at by auto
    let ?b2 = "b1\<lparr>ba_nodes := ns\<rparr>" and ?q = "ba_pos b + length bs"
    have inv2: "ba_inv ?b2" using b1(3) ns(3,4) cap by (auto simp: ba_inv_def b1_def)
    have q: "?q \<le> ba_cap ?b2" using len b1(2) by (simp add: b1_def)
    let ?b3 = "?b2\<lparr>ba_pos := ?q, ba_size := max ?q (ba_size ?b2), ba_cur := ?q div ba_base ?b2\<rparr>"
    have set: "setPosition ?q ?b2 = Inr ?b3" by (rule setPosition_eq [OF inv2 q])
    have "take (max (ba_size b) ?q) (chain ns) = fst (tape_write bs (tape_of b))"
      by (rule content_append_chain [OF assms(1), where cs = "replicate (n * ?k) None"])
         (use ns(2) q in \<open>simp_all add: b1_def\<close>)
    then have "tape_of ?b3 = tape_write bs (tape_of b)"
      by (simp add: tape_of_def content_def tape_write_def max.commute b1_def)
    moreover have "ba_inv ?b3" using setPosition_inv(1) [OF inv2 set] .
    moreover have "same_setup b ?b3" by (simp add: same_setup_def b1_def)
    moreover have "ba_pos ?b2 = ba_pos b" by (simp add: b1_def)
    ultimately show "\<exists>b2 b3. scatter iovs bs b1 = Inr b2 \<and>
        setPosition (ba_pos b2 + length bs) b2 = Inr b3 \<and> ba_inv b3 \<and>
        tape_of b3 = tape_write bs (tape_of b) \<and> same_setup b b3"
      using ns(1) set by metis
  qed
qed

section \<open>Sending\<close>

lemma getReadBuffers_ok:
  assumes "ba_inv b"
  obtains iovs where "getReadBuffers [] len b = Inr (iovs, min len (getReadSize b))"
    "collect (ba_nodes b) iovs = Inr (take len (drop (ba_pos b) (content b)))"
    "\<forall>v \<in> set iovs. iov_valid (ba_nodes b) v"
proof -
  note sz = ba_inv_sizes [OF assms]
  let ?l = "min len (getReadSize b)" and ?k = "ba_base b" and ?p = "ba_pos b mod ba_base b"
  have l: "(if getReadSize b < len then getReadSize b else len) = ?l" by simp
  have take: "take ?l (drop (ba_pos b) (flat b)) = take len (drop (ba_pos b) (content b))"
    using sz by (simp add: content_def drop_take min.commute)
  show thesis
  proof (cases "?l = 0")
    case True
    then have "take len (drop (ba_pos b) (content b)) = []" using take by simp
    then show thesis using True l by (intro that [of "[]"]) (simp_all add: getReadBuffers_def)
  next
    case False
    then have room: "ba_pos b < ba_cap b" using sz by simp
    have inv: "blocks_ok ?k (ba_nodes b)" "?k * ba_cur b + ?p = ba_pos b" "ba_cap b = ?k * length (ba_nodes b)"
      using assms by (auto simp: ba_inv_def)
    have "?p < ?k" using ba_inv_base [OF assms] by simp
    moreover have "?k * ba_cur b + ?p + ?l \<le> ?k * length (ba_nodes b)" using inv(2,3) sz by simp
    ultimately obtain iovs where iovs: "iov_loop (ba_nodes b) ?l ?p (?k - ?p) (ba_cur b) = Inr iovs"
      "gather (ba_nodes b) iovs = take ?l (drop (ba_pos b) (flat b))" "\<forall>v \<in> set iovs. iov_valid (ba_nodes b) v"
      using iov_loop_ok [OF inv(1) ba_inv_cur [OF assms room], of ?p "?k - ?p" ?l] inv(2) by auto
    then show thesis
      using False l locate_ok [OF assms room, of "ba_pos b"] take collect_gather [OF iovs(3)]
      by (intro that [of iovs]) (auto simp: getReadBuffers_def Let_def)
  qed
qed

end
