(* ===== verification/Session.thy ===== *)
theory Session
  imports Scatter Protocol
begin

text \<open>
  A connection: the socket calls of \<open>Client\<close> (\<open>src/net/Client.cpp\<close>) and the transfers of
  \<open>RPCSession\<close> (\<open>src/rpc/RPCSession.cpp\<close>) built on them, which send and receive whole frames however
  the kernel splits them.
\<close>

section \<open>The socket\<close>

text \<open>
  The kernel is a parameter: \<open>recv\<close>/\<open>recvmsg\<close> with room for \<open>n\<close> bytes, and \<open>send\<close>/\<open>sendmsg\<close>. \<open>Got\<close>
  with no bytes is the end of the stream (0), \<open>Again\<close> is -1 with \<open>EAGAIN\<close> or \<open>EWOULDBLOCK\<close>, and
  \<open>Broken\<close> is -1 with another \<open>errno\<close>, whose message it carries. A \<open>send\<close> of \<open>None\<close> is -1.
\<close>

datatype recv_result = Got "byte list" | Again | Broken "byte list"

record 'k kernel =
  k_recv :: "nat \<Rightarrow> 'k \<Rightarrow> recv_result \<times> 'k"
  k_send :: "byte list \<Rightarrow> 'k \<Rightarrow> nat option \<times> 'k"

record 'k client =
  c_connected :: bool
  c_kernel :: 'k

definition new_client :: "'k \<Rightarrow> 'k client" where
  "new_client k = \<lparr>c_connected = True, c_kernel = k\<rparr>"

definition set_connected :: "bool \<Rightarrow> 'k client \<Rightarrow> 'k client" where
  "set_connected v c = c\<lparr>c_connected := v\<rparr>"

text \<open>Without a connection the result is -1; no caller looks at \<open>errno\<close> then.\<close>

definition client_recv :: "'k kernel \<Rightarrow> nat \<Rightarrow> 'k client \<Rightarrow> recv_result \<times> 'k client" where
  "client_recv K n c =
     (if c_connected c
      then (case k_recv K n (c_kernel c) of (r, k) \<Rightarrow> (r, c\<lparr>c_kernel := k\<rparr>))
      else (Broken [], c))"

definition client_send :: "'k kernel \<Rightarrow> byte list \<Rightarrow> 'k client \<Rightarrow> nat option \<times> 'k client" where
  "client_send K bs c =
     (if c_connected c
      then (case k_send K bs (c_kernel c) of (r, k) \<Rightarrow> (r, c\<lparr>c_kernel := k\<rparr>))
      else (None, c))"

text \<open>\<open>Client::close\<close>: \<open>closed\<close> says whether the system call succeeds.\<close>

definition client_close :: "bool \<Rightarrow> 'k client \<Rightarrow> unit outcome \<times> 'k client" where
  "client_close closed c = (if closed then Inr () else Inl Runtime_error, set_connected False c)"

section \<open>Transfers of a session\<close>

text \<open>
  \<open>read\<close> and \<open>write\<close> of \<open>RPCSession\<close>: the \<open>ssize_t\<close> they return, with the bytes that went into a plain
  buffer, or the \<open>ByteArray\<close>.
\<close>

definition session_read :: "'k kernel \<Rightarrow> nat \<Rightarrow> 'k client \<Rightarrow> (int \<times> byte list \<times> 'k client) outcome" where
  "session_read K len c =
     (if \<not> c_connected c then Inr (-1, [], c)
      else case client_recv K len c of
             (Got bs, c') \<Rightarrow>
               if len < length bs then Inl Heap_overflow else Inr (int (length bs), bs, c')
           | (_, c') \<Rightarrow> Inr (-1, [], c'))"

definition session_read_ba ::
    "'k kernel \<Rightarrow> nat \<Rightarrow> byte_array \<Rightarrow> 'k client \<Rightarrow> (int \<times> byte_array \<times> 'k client) outcome" where
  "session_read_ba K len b c =
     (if \<not> c_connected c then Inr (-1, b, c)
      else rbind (getWriteBuffers [] len b) (\<lambda>(iovs, _, b1).
             case client_recv K (iov_total iovs) c of
               (Got bs, c') \<Rightarrow>
                 rbind (scatter iovs bs b1) (\<lambda>b2.
                   if 0 < length bs
                   then rbind (setPosition (ba_pos b2 + length bs) b2) (\<lambda>b3.
                          Inr (int (length bs), b3, c'))
                   else Inr (0, b2, c'))
             | (_, c') \<Rightarrow> Inr (-1, b1, c')))"

definition session_write :: "'k kernel \<Rightarrow> byte list \<Rightarrow> 'k client \<Rightarrow> int \<times> 'k client" where
  "session_write K bs c =
     (if \<not> c_connected c then (-1, c)
      else case client_send K bs c of
             (Some n, c') \<Rightarrow> (int n, c')
           | (None, c') \<Rightarrow> (-1, c'))"

definition session_write_ba ::
    "'k kernel \<Rightarrow> nat \<Rightarrow> byte_array \<Rightarrow> 'k client \<Rightarrow> (int \<times> byte_array \<times> 'k client) outcome" where
  "session_write_ba K len b c =
     (if \<not> c_connected c then Inr (-1, b, c)
      else rbind (getReadBuffers [] len b) (\<lambda>(iovs, _).
           rbind (collect (ba_nodes b) iovs) (\<lambda>cs.
           rbind (load cs) (\<lambda>bs.
             case client_send K bs c of
               (Some n, c') \<Rightarrow>
                 if 0 < n
                 then rbind (setPosition (ba_pos b + n) b) (\<lambda>b1. Inr (int n, b1, c'))
                 else Inr (0, b, c')
             | (None, c') \<Rightarrow> Inr (-1, b, c')))))"

text \<open>
  The loops until \<open>length\<close> bytes are through. A transfer of \<open>n > 0\<close> bytes brings \<open>left\<close> down; \<open>n\<close> is
  never more than \<open>left\<close>, as the kernel transfers at most what it is asked to.
\<close>

function readFixSize_loop ::
    "'k kernel \<Rightarrow> nat \<Rightarrow> nat \<Rightarrow> 'k client \<Rightarrow> (int \<times> byte list \<times> 'k client) outcome" where
  "readFixSize_loop K len left c =
     (if left = 0 then Inr (int len, [], c)
      else rbind (session_read K left c) (\<lambda>(n, bs, c').
        if n \<le> 0 then Inr (n, bs, set_connected False c')
        else rbind (readFixSize_loop K len (left - nat n) c') (\<lambda>(r, bs', c'').
               Inr (r, bs @ bs', c''))))"
  by pat_completeness auto
termination by (relation "measure (\<lambda>(K, len, left, c). left)") auto

function readFixSize_ba_loop ::
    "'k kernel \<Rightarrow> nat \<Rightarrow> nat \<Rightarrow> byte_array \<Rightarrow> 'k client \<Rightarrow> (int \<times> byte_array \<times> 'k client) outcome" where
  "readFixSize_ba_loop K len left b c =
     (if left = 0 then Inr (int len, b, c)
      else rbind (session_read_ba K left b c) (\<lambda>(n, b', c').
        if n \<le> 0 then Inr (n, b', set_connected False c')
        else readFixSize_ba_loop K len (left - nat n) b' c'))"
  by pat_completeness auto
termination by (relation "measure (\<lambda>(K, len, left, b, c). left)") auto

function writeFixSize_loop ::
    "'k kernel \<Rightarrow> nat \<Rightarrow> byte list \<Rightarrow> nat \<Rightarrow> nat \<Rightarrow> 'k client \<Rightarrow> int \<times> 'k client" where
  "writeFixSize_loop K len buffer offs left c =
     (if left = 0 then (int len, c)
      else case session_write K (take left (drop offs buffer)) c of
        (n, c') \<Rightarrow>
          if n \<le> 0 then (n, set_connected False c')
          else writeFixSize_loop K len buffer (offs + nat n) (left - nat n) c')"
  by pat_completeness auto
termination by (relation "measure (\<lambda>(K, len, buffer, offs, left, c). left)") auto

function writeFixSize_ba_loop ::
    "'k kernel \<Rightarrow> nat \<Rightarrow> nat \<Rightarrow> byte_array \<Rightarrow> 'k client \<Rightarrow> (int \<times> byte_array \<times> 'k client) outcome" where
  "writeFixSize_ba_loop K len left b c =
     (if left = 0 then Inr (int len, b, c)
      else rbind (session_write_ba K left b c) (\<lambda>(n, b', c').
        if n \<le> 0 then Inr (n, b', set_connected False c')
        else writeFixSize_ba_loop K len (left - nat n) b' c'))"
  by pat_completeness auto
termination by (relation "measure (\<lambda>(K, len, left, b, c). left)") auto

declare readFixSize_loop.simps [simp del] readFixSize_ba_loop.simps [simp del]
  writeFixSize_loop.simps [simp del] writeFixSize_ba_loop.simps [simp del]

definition readFixSize :: "'k kernel \<Rightarrow> nat \<Rightarrow> 'k client \<Rightarrow> (int \<times> byte list \<times> 'k client) outcome" where
  "readFixSize K len c = readFixSize_loop K len len c"

definition readFixSize_ba ::
    "'k kernel \<Rightarrow> byte_array \<Rightarrow> nat \<Rightarrow> 'k client \<Rightarrow> (int \<times> byte_array \<times> 'k client) outcome" where
  "readFixSize_ba K b len c = readFixSize_ba_loop K len len b c"

definition writeFixSize :: "'k kernel \<Rightarrow> byte list \<Rightarrow> 'k client \<Rightarrow> int \<times> 'k client" where
  "writeFixSize K buffer c = writeFixSize_loop K (length buffer) buffer 0 (length buffer) c"

definition writeFixSize_ba ::
    "'k kernel \<Rightarrow> byte_array \<Rightarrow> nat \<Rightarrow> 'k client \<Rightarrow> (int \<times> byte_array \<times> 'k client) outcome" where
  "writeFixSize_ba K b len c = writeFixSize_ba_loop K len len b c"

section \<open>Frames\<close>

definition recvProtocol :: "'k kernel \<Rightarrow> 'k client \<Rightarrow> (protocol option \<times> 'k client) outcome" where
  "recvProtocol K c =
     rbind (readFixSize_ba K (new_byte_array 4096) BASE_LENGTH c) (\<lambda>(n, b, c).
       if n \<le> 0 then Inr (None, c)
       else rbind (setPosition 0 b) (\<lambda>b.
            rbind (decodeMeta new_protocol b) (\<lambda>(p, b).
              if p_magic p \<noteq> MAGIC then Inr (None, c)
              else if p_length p = 0 then Inr (Some p, c)
              else rbind (readFixSize K (unat (p_length p)) c) (\<lambda>(n, buff, c).
                     if n \<le> 0 then Inr (None, c)
                     else Inr (Some (p\<lparr>p_content := buff\<rparr>), c)))))"

definition sendProtocol :: "'k kernel \<Rightarrow> protocol \<Rightarrow> 'k client \<Rightarrow> (int \<times> 'k client) outcome" where
  "sendProtocol K p c =
     rbind (encode p) (\<lambda>b.
     rbind (writeFixSize_ba K b (getReadSize b) c) (\<lambda>(n, _, c). Inr (n, c)))"

end
