(* ===== verification/SessionSpec.thy ===== *)
theory SessionSpec
  imports Session
begin

text \<open>
  What a session promises over a byte stream: a frame that is sent arrives in the kernel whole and in
  order, and a frame that arrives is received whole, whatever sizes the kernel transfers at a time.
\<close>

section \<open>The stream a connected socket is\<close>

text \<open>
  The documented behaviour of a connected stream socket, over three observations of its state: the
  bytes the kernel has \<open>sent\<close>, how many it has handed to \<open>recv\<close>, \<open>taken\<close>, and what the peer
  \<open>answer\<close>s to the bytes sent so far. A call transfers at least one byte and at most what it was
  asked to, in order.
\<close>

definition incoming :: "('k \<Rightarrow> byte list) \<Rightarrow> ('k \<Rightarrow> nat) \<Rightarrow> (byte list \<Rightarrow> byte list) \<Rightarrow> 'k \<Rightarrow> byte list" where
  "incoming sent taken answer k = drop (taken k) (answer (sent k))"

definition stream_send :: "'k kernel \<Rightarrow> ('k \<Rightarrow> byte list) \<Rightarrow> ('k \<Rightarrow> nat) \<Rightarrow> bool" where
  "stream_send K sent taken \<longleftrightarrow>
     (\<forall>bs k. bs \<noteq> [] \<longrightarrow>
        (\<exists>n k'. k_send K bs k = (Some n, k') \<and> 0 < n \<and> n \<le> length bs \<and>
           sent k' = sent k @ take n bs \<and> taken k' = taken k))"

definition stream_recv ::
    "'k kernel \<Rightarrow> ('k \<Rightarrow> byte list) \<Rightarrow> ('k \<Rightarrow> nat) \<Rightarrow> (byte list \<Rightarrow> byte list) \<Rightarrow> bool" where
  "stream_recv K sent taken answer \<longleftrightarrow>
     (\<forall>n k. 0 < n \<longrightarrow> incoming sent taken answer k \<noteq> [] \<longrightarrow>
        (\<exists>m k'. k_recv K n k = (Got (take m (incoming sent taken answer k)), k') \<and>
           0 < m \<and> m \<le> n \<and> m \<le> length (incoming sent taken answer k) \<and>
           sent k' = sent k \<and> taken k' = taken k + m))"

text \<open>The one thing every kernel keeps to: it never stores more than there is room for.\<close>

definition bounded_recv :: "'k kernel \<Rightarrow> bool" where
  "bounded_recv K \<longleftrightarrow> (\<forall>n k bs k'. k_recv K n k = (Got bs, k') \<longrightarrow> length bs \<le> n)"

section \<open>Sending\<close>

lemma advance_readable:
  assumes "readable False e b" and "n \<le> length (ba_rest b)"
  obtains b' where "setPosition (ba_pos b + n) b = Inr b'" "readable False e b'" "ba_rest b' = drop n (ba_rest b)"
proof -
  have inv: "ba_inv b" and w: "None \<notin> set (content b)" and e: "ba_endian b = e"
    using assms(1) by (auto simp: readable_def)
  have "ba_pos b + n \<le> ba_size b"
    using assms(2) length_ba_rest [OF inv] ba_inv_sizes [OF inv] by simp
  then obtain b' where b': "setPosition (ba_pos b + n) b = Inr b'" "ba_inv b'"
      "tape_of b' = (content b, ba_pos b + n)" "same_setup b b'"
    using setPosition_within [OF inv] by blast
  then have "readable False e b'" "ba_rest b' = drop n (ba_rest b)"
    using w e by (auto simp: readable_def tape_of_def same_setup_def ba_rest_def drop_map add.commute)
  then show thesis using that b'(1) by blast
qed

lemma session_write_ba_ok:
  assumes "stream_send K sent taken" and "readable False e b" and "c_connected c"
    and "0 < len" and "len \<le> length (ba_rest b)"
  obtains n b' c' where "session_write_ba K len b c = Inr (int n, b', c')" "0 < n" "n \<le> len"
    "readable False e b'" "ba_rest b' = drop n (ba_rest b)" "c_connected c'"
    "sent (c_kernel c') = sent (c_kernel c) @ take n (ba_rest b)" "taken (c_kernel c') = taken (c_kernel c)"
proof -
  let ?bs = "take len (ba_rest b)"
  have inv: "ba_inv b" and w: "None \<notin> set (content b)" using assms(2) by (auto simp: readable_def)
  obtain iovs where iovs: "getReadBuffers [] len b = Inr (iovs, min len (getReadSize b))"
      "collect (ba_nodes b) iovs = Inr (take len (drop (ba_pos b) (content b)))"
    by (rule getReadBuffers_ok [OF inv])
  have load: "load (take len (drop (ba_pos b) (content b))) = Inr ?bs"
    using w by (subst load_written) (auto simp: ba_rest_def take_map dest: in_set_takeD in_set_dropD)
  have "?bs \<noteq> []" using assms(4,5) by auto
  then obtain n k' where n: "k_send K ?bs (c_kernel c) = (Some n, k')" "0 < n" "n \<le> length ?bs"
      "sent k' = sent (c_kernel c) @ take n ?bs" "taken k' = taken (c_kernel c)"
    using assms(1) unfolding stream_send_def by blast
  have le: "n \<le> length (ba_rest b)" and le': "n \<le> len" using n(3) assms(5) by auto
  obtain b' where b': "setPosition (ba_pos b + n) b = Inr b'" "readable False e b'"
      "ba_rest b' = drop n (ba_rest b)"
    by (rule advance_readable [OF assms(2) le])
  show thesis
  proof (rule that [OF _ n(2) le' b'(2,3)])
    show "session_write_ba K len b c = Inr (int n, b', c\<lparr>c_kernel := k'\<rparr>)"
      using assms(3) iovs load n(1,2) b'(1) by (simp add: session_write_ba_def client_send_def)
  qed (use assms(3) n(4,5) le' in \<open>simp_all add: min_absorb1\<close>)
qed

lemma writeFixSize_ok:
  assumes "stream_send K sent taken" and "readable False e b" and "c_connected c"
    and "left \<le> length (ba_rest b)"
  shows "\<exists>b' c'. writeFixSize_ba_loop K len left b c = Inr (int len, b', c') \<and> c_connected c' \<and>
    sent (c_kernel c') = sent (c_kernel c) @ take left (ba_rest b) \<and>
    taken (c_kernel c') = taken (c_kernel c)"
  using assms(2-4)
proof (induction left arbitrary: b c rule: less_induct)
  case (less left)
  note unfold = writeFixSize_ba_loop.simps [of K len left b c]
  show ?case
  proof (cases "left = 0")
    case True
    then show ?thesis using less.prems by (simp add: writeFixSize_ba_loop.simps [of K len 0])
  next
    case False
    then obtain n b1 c1 where s: "session_write_ba K left b c = Inr (int n, b1, c1)" "0 < n" "n \<le> left"
        "readable False e b1" "ba_rest b1 = drop n (ba_rest b)" "c_connected c1"
        "sent (c_kernel c1) = sent (c_kernel c) @ take n (ba_rest b)"
        "taken (c_kernel c1) = taken (c_kernel c)"
      using session_write_ba_ok [OF assms(1) less.prems(1,2) _ less.prems(3)] by blast
    have le: "left - n \<le> length (ba_rest b1)" "left - n < left"
      using s(2,3,5) less.prems(3) by auto
    obtain b' c' where "writeFixSize_ba_loop K len (left - n) b1 c1 = Inr (int len, b', c')" "c_connected c'"
        "sent (c_kernel c') = sent (c_kernel c1) @ take (left - n) (ba_rest b1)"
        "taken (c_kernel c') = taken (c_kernel c1)"
      using less.IH [OF le(2) s(4,6) le(1)] by blast
    moreover have "take left (ba_rest b) = take n (ba_rest b) @ take (left - n) (drop n (ba_rest b))"
      using s(3) by (metis le_add_diff_inverse take_add)
    ultimately show ?thesis using s False by (simp add: unfold)
  qed
qed

lemma sendProtocol_ok:
  assumes "stream_send K sent taken" and "c_connected c"
  obtains c' where "sendProtocol K p c = Inr (int (length (frame_bytes p)), c')" "c_connected c'"
    "sent (c_kernel c') = sent (c_kernel c) @ frame_bytes p" "taken (c_kernel c') = taken (c_kernel c)"
proof -
  obtain b where b: "encode p = Inr b" "readable False Big b" "ba_rest b = frame_bytes p"
    by (rule encode_ok [of False p]) simp
  have len: "getReadSize b = length (frame_bytes p)"
    using b(2,3) length_ba_rest [of b] by (simp add: readable_def)
  have le: "length (frame_bytes p) \<le> length (ba_rest b)" by (simp add: b(3))
  obtain b' c' where c': "writeFixSize_ba_loop K (length (frame_bytes p)) (length (frame_bytes p)) b c =
        Inr (int (length (frame_bytes p)), b', c')" "c_connected c'"
      "sent (c_kernel c') = sent (c_kernel c) @ frame_bytes p" "taken (c_kernel c') = taken (c_kernel c)"
    using writeFixSize_ok [OF assms(1) b(2) assms(2) le, of "length (frame_bytes p)"] b(3) by auto
  show thesis
    by (rule that [of c']) (use c' b(1) len in \<open>simp_all add: sendProtocol_def writeFixSize_ba_def\<close>)
qed

text \<open>The two sending loops make the same calls, whatever the kernel answers to them.\<close>

definition bounded_send :: "'k kernel \<Rightarrow> bool" where
  "bounded_send K \<longleftrightarrow> (\<forall>bs k n k'. k_send K bs k = (Some n, k') \<longrightarrow> n \<le> length bs)"

lemma session_writes_agree:
  assumes "bounded_send K" and "readable False e b"
  obtains n c' b' where "session_write K (ba_rest b) c = (n, c')"
    "session_write_ba K (length (ba_rest b)) b c = Inr (n, b', c')" "n \<le> int (length (ba_rest b))"
    "0 < n \<Longrightarrow> readable False e b' \<and> ba_rest b' = drop (nat n) (ba_rest b)"
proof (cases "c_connected c")
  case False
  then show thesis using that [of "-1" c b] by (simp add: session_write_def session_write_ba_def)
next
  case True
  let ?bs = "ba_rest b"
  have inv: "ba_inv b" and w: "None \<notin> set (content b)" using assms(2) by (auto simp: readable_def)
  obtain iovs where iovs: "getReadBuffers [] (length ?bs) b = Inr (iovs, min (length ?bs) (getReadSize b))"
      "collect (ba_nodes b) iovs = Inr (take (length ?bs) (drop (ba_pos b) (content b)))"
    by (rule getReadBuffers_ok [OF inv])
  have load: "load (take (length ?bs) (drop (ba_pos b) (content b))) = Inr ?bs"
    using w by (subst load_written) (auto simp: ba_rest_def take_map dest: in_set_takeD in_set_dropD)
  obtain r k' where r: "k_send K ?bs (c_kernel c) = (r, k')" by fastforce
  note defs = session_write_def session_write_ba_def client_send_def
  show thesis
  proof (cases r)
    case None
    show thesis
      by (rule that [of "-1" "c\<lparr>c_kernel := k'\<rparr>" b]) (use True iovs load r None in \<open>simp_all add: defs\<close>)
  next
    case (Some n)
    then have n: "n \<le> length ?bs" using assms(1) r by (auto simp: bounded_send_def)
    obtain b' where b': "setPosition (ba_pos b + n) b = Inr b'" "readable False e b'" "ba_rest b' = drop n ?bs"
      by (rule advance_readable [OF assms(2) n])
    show thesis
      by (rule that [of "int n" "c\<lparr>c_kernel := k'\<rparr>" "if 0 < n then b' else b"])
        (use True iovs load r Some n b' in \<open>simp_all add: defs\<close>)
  qed
qed

lemma writeFixSize_agree:
  assumes "bounded_send K" and "readable False e b" and "ba_rest b = drop offs buffer" and "left = length (ba_rest b)"
  shows "\<exists>b'. writeFixSize_ba_loop K len left b c =
    (case writeFixSize_loop K len buffer offs left c of (n, c') \<Rightarrow> Inr (n, b', c'))"
  using assms(2-4)
proof (induction left arbitrary: offs b c rule: less_induct)
  case (less left)
  note unfold = writeFixSize_ba_loop.simps [of K len left b c] writeFixSize_loop.simps [of K len buffer offs left c]
  obtain n c1 b1 where s: "session_write K (ba_rest b) c = (n, c1)"
      "session_write_ba K (length (ba_rest b)) b c = Inr (n, b1, c1)" "n \<le> int (length (ba_rest b))"
      "0 < n \<Longrightarrow> readable False e b1 \<and> ba_rest b1 = drop (nat n) (ba_rest b)"
    by (rule session_writes_agree [OF assms(1) less.prems(1), of c]) blast
  have calls: "session_write K (take left (drop offs buffer)) c = (n, c1)"
      "session_write_ba K left b c = Inr (n, b1, c1)"
    using s(1,2) less.prems(2,3) by simp_all
  show ?case
  proof (cases "left = 0 \<or> n \<le> 0")
    case True
    then show ?thesis using calls by (auto simp: unfold)
  next
    case False
    then have b1: "readable False e b1" "ba_rest b1 = drop (offs + nat n) buffer"
        "left - nat n = length (ba_rest b1)" "left - nat n < left"
      using s(3,4) less.prems(2,3) by (auto simp: add.commute)
    from less.IH [OF b1(4,1-3), of c1] show ?thesis using calls False by (simp add: unfold)
  qed
qed

section \<open>Receiving\<close>

lemma stream_recvD:
  assumes "stream_recv K sent taken answer" and "0 < n" and "c_connected c"
    and "xs = incoming sent taken answer (c_kernel c)" and "xs \<noteq> []"
  obtains m c' where "client_recv K n c = (Got (take m xs), c')" "0 < m" "m \<le> n" "m \<le> length xs"
    "c_connected c'" "sent (c_kernel c') = sent (c_kernel c)"
    "taken (c_kernel c') = taken (c_kernel c) + m"
    "incoming sent taken answer (c_kernel c') = drop m xs"
proof -
  obtain m k' where m: "k_recv K n (c_kernel c) = (Got (take m xs), k')" "0 < m" "m \<le> n" "m \<le> length xs"
      "sent k' = sent (c_kernel c)" "taken k' = taken (c_kernel c) + m"
    using assms unfolding stream_recv_def by blast
  show thesis
    by (rule that [of m "c\<lparr>c_kernel := k'\<rparr>"])
       (use m assms(3,4) in \<open>simp_all add: client_recv_def incoming_def add.commute\<close>)
qed

lemma readFixSize_ok:
  assumes "stream_recv K sent taken answer" and "c_connected c"
    and "left \<le> length (incoming sent taken answer (c_kernel c))"
  shows "\<exists>c'. readFixSize_loop K len left c =
      Inr (int len, take left (incoming sent taken answer (c_kernel c)), c') \<and> c_connected c' \<and>
    sent (c_kernel c') = sent (c_kernel c) \<and> taken (c_kernel c') = taken (c_kernel c) + left"
  using assms(2,3)
proof (induction left arbitrary: c rule: less_induct)
  case (less left)
  note unfold = readFixSize_loop.simps [of K len left c]
  let ?xs = "incoming sent taken answer (c_kernel c)"
  show ?case
  proof (cases "left = 0")
    case True
    then show ?thesis using less.prems by (simp add: readFixSize_loop.simps [of K len 0])
  next
    case False
    then have pos: "0 < left" and ne: "?xs \<noteq> []" using less.prems(2) by auto
    obtain m c1 where m: "client_recv K left c = (Got (take m ?xs), c1)" "0 < m" "m \<le> left" "m \<le> length ?xs"
        "c_connected c1" "sent (c_kernel c1) = sent (c_kernel c)"
        "taken (c_kernel c1) = taken (c_kernel c) + m"
        "incoming sent taken answer (c_kernel c1) = drop m ?xs"
      by (rule stream_recvD [OF assms(1) pos less.prems(1) refl ne])
    have step: "session_read K left c = Inr (int m, take m ?xs, c1)"
      using less.prems(1) m by (simp add: session_read_def min_absorb2)
    have le: "left - m \<le> length (incoming sent taken answer (c_kernel c1))" "left - m < left"
      using m(2,3,8) less.prems(2) by auto
    obtain c' where "readFixSize_loop K len (left - m) c1 =
          Inr (int len, take (left - m) (drop m ?xs), c')" "c_connected c'"
        "sent (c_kernel c') = sent (c_kernel c1)" "taken (c_kernel c') = taken (c_kernel c1) + (left - m)"
      using less.IH [OF le(2) m(5) le(1)] unfolding m(8) by blast
    moreover have "take left ?xs = take m ?xs @ take (left - m) (drop m ?xs)"
      using m(3) by (metis le_add_diff_inverse take_add)
    ultimately show ?thesis using step m False by (simp add: unfold)
  qed
qed

lemma written_at_end:
  assumes "writable k e b" and "ba_inv b'" and "tape_of b' = tape_write bs (tape_of b)"
    and "same_setup b b'"
  shows "writable k e b'" "ba_out b' = ba_out b @ bs"
proof -
  have inv: "ba_inv b" and w: "None \<notin> set (content b)" and at: "ba_pos b = ba_size b"
    and cfg: "ba_endian b = e" "ba_base b = k"
    using assms(1) by (auto simp: writable_def)
  have c: "content b' = content b @ map Some bs" "ba_pos b' = ba_pos b + length bs"
    using assms(3) at ba_inv_sizes [OF inv] by (auto simp: tape_of_def tape_write_def)
  then show "writable k e b'" "ba_out b' = ba_out b @ bs"
    using w at cfg assms(2,4) ba_inv_sizes(4) [OF inv] ba_inv_sizes(4) [OF assms(2)]
    by (auto simp: writable_def ba_out_def same_setup_def)
qed

lemma readFixSize_ba_ok:
  assumes "stream_recv K sent taken answer" and "writable k e b" and "c_connected c"
    and "left \<le> length (incoming sent taken answer (c_kernel c))"
  shows "\<exists>b' c'. readFixSize_ba_loop K len left b c = Inr (int len, b', c') \<and> writable k e b' \<and>
    ba_out b' = ba_out b @ take left (incoming sent taken answer (c_kernel c)) \<and>
    c_connected c' \<and> sent (c_kernel c') = sent (c_kernel c) \<and>
    taken (c_kernel c') = taken (c_kernel c) + left"
  using assms(2-4)
proof (induction left arbitrary: b c rule: less_induct)
  case (less left)
  note unfold = readFixSize_ba_loop.simps [of K len left b c]
  let ?xs = "incoming sent taken answer (c_kernel c)"
  show ?case
  proof (cases "left = 0")
    case True
    then show ?thesis using less.prems by (simp add: readFixSize_ba_loop.simps [of K len 0])
  next
    case False
    then have pos: "0 < left" and ne: "?xs \<noteq> []" using less.prems(3) by auto
    have inv: "ba_inv b" using less.prems(1) by (simp add: writable_def)
    obtain m c1 where m: "client_recv K left c = (Got (take m ?xs), c1)" "0 < m" "m \<le> left" "m \<le> length ?xs"
        "c_connected c1" "sent (c_kernel c1) = sent (c_kernel c)"
        "taken (c_kernel c1) = taken (c_kernel c) + m"
        "incoming sent taken answer (c_kernel c1) = drop m ?xs"
      by (rule stream_recvD [OF assms(1) pos less.prems(2) refl ne])
    obtain iovs b1 where iovs: "getWriteBuffers [] left b = Inr (iovs, left, b1)" "iov_total iovs = left"
      and fill: "\<And>bs. length bs \<le> left \<Longrightarrow> \<exists>b2 b3. scatter iovs bs b1 = Inr b2 \<and>
        setPosition (ba_pos b2 + length bs) b2 = Inr b3 \<and> ba_inv b3 \<and>
        tape_of b3 = tape_write bs (tape_of b) \<and> same_setup b b3"
      by (rule receive_ok [OF inv pos]) blast
    have l: "length (take m ?xs) = m" using m(4) by simp
    then obtain b2 b3 where b3: "scatter iovs (take m ?xs) b1 = Inr b2"
        "setPosition (ba_pos b2 + m) b2 = Inr b3" "ba_inv b3"
        "tape_of b3 = tape_write (take m ?xs) (tape_of b)" "same_setup b b3"
      using fill [of "take m ?xs"] m(3) by auto
    have w3: "writable k e b3" "ba_out b3 = ba_out b @ take m ?xs"
      by (rule written_at_end [OF less.prems(1) b3(3-5)])+
    have step: "session_read_ba K left b c = Inr (int m, b3, c1)"
      using less.prems(2) iovs m(1,2) b3(1,2) l by (simp add: session_read_ba_def del: length_take)
    have le: "left - m \<le> length (incoming sent taken answer (c_kernel c1))" "left - m < left"
      using m(2,3,8) less.prems(3) by auto
    obtain b' c' where "readFixSize_ba_loop K len (left - m) b3 c1 = Inr (int len, b', c')"
        "writable k e b'" "ba_out b' = ba_out b3 @ take (left - m) (drop m ?xs)" "c_connected c'"
        "sent (c_kernel c') = sent (c_kernel c1)" "taken (c_kernel c') = taken (c_kernel c1) + (left - m)"
      using less.IH [OF le(2) w3(1) m(5) le(1)] unfolding m(8) by blast
    moreover have "take left ?xs = take m ?xs @ take (left - m) (drop m ?xs)"
      using m(3) by (metis le_add_diff_inverse take_add)
    ultimately show ?thesis using step m w3(2) False by (simp add: unfold)
  qed
qed

text \<open>The frame \<open>recvProtocol\<close> builds from the fields of \<open>p\<close>.\<close>

definition received :: "protocol \<Rightarrow> protocol" where
  "received p = (header_of new_protocol p)\<lparr>p_content := p_content p\<rparr>"

lemma recvProtocol_ok:
  assumes "stream_recv K sent taken answer" and "c_connected c"
    and "incoming sent taken answer (c_kernel c) = frame_bytes p @ zs"
    and "p_magic p = MAGIC" and "length (p_content p) < 2 ^ 32"
  obtains c' where "recvProtocol K c = Inr (Some (received p), c')" "c_connected c'"
    "sent (c_kernel c') = sent (c_kernel c)" "incoming sent taken answer (c_kernel c') = zs"
    "taken (c_kernel c') = taken (c_kernel c) + length (frame_bytes p)"
proof -
  let ?in = "\<lambda>c. incoming sent taken answer (c_kernel c)" and ?n = "length (p_content p)"
  have fresh: "writable 4096 Big (new_byte_array 4096)" "ba_out (new_byte_array 4096) = []"
    using new_writable [of 4096] by auto
  have len: "BASE_LENGTH \<le> length (?in c)" by (simp add: assms(3) length_frame_bytes)
  obtain b c1 where c1: "readFixSize_ba_loop K BASE_LENGTH BASE_LENGTH (new_byte_array 4096) c =
        Inr (int BASE_LENGTH, b, c1)" "writable 4096 Big b" "ba_out b = header_bytes p" "c_connected c1"
      "sent (c_kernel c1) = sent (c_kernel c)" "taken (c_kernel c1) = taken (c_kernel c) + BASE_LENGTH"
    using readFixSize_ba_ok [OF assms(1) fresh(1) assms(2) len, of BASE_LENGTH] fresh(2) assms(3)
    by (auto simp: frame_bytes_def)
  have in1: "?in c1 = p_content p @ zs"
    using assms(3) c1(5,6) by (simp add: incoming_def frame_bytes_def add.commute flip: drop_drop)
  obtain b1 where b1: "setPosition 0 b = Inr b1" "readable True Big b1" "ba_rest b1 = header_bytes p @ []"
    using rewind_readable [OF c1(2), of 0 True] writable_size [OF c1(2)] c1(3)
    by (auto simp: BASE_LENGTH_def)
  obtain b2 where b2: "decodeMeta new_protocol b1 = Inr (header_of new_protocol p, b2)"
    by (rule parsesD [OF decodeMeta_parses b1(2,3)])
  have unat: "unat (word_of_nat ?n :: 32 word) = ?n"
    using assms(5) by (simp add: unat_of_nat take_bit_nat_eq_self)
  have header: "p_magic (header_of new_protocol p) = p_magic p"
      "p_length (header_of new_protocol p) = word_of_nat ?n"
    by (simp_all add: header_of_def)
  have start: "recvProtocol K c =
      (if ?n = 0 then Inr (Some (header_of new_protocol p), c1)
       else rbind (readFixSize K ?n c1) (\<lambda>(n, buff, c).
              if n \<le> 0 then Inr (None, c)
              else Inr (Some ((header_of new_protocol p)\<lparr>p_content := buff\<rparr>), c)))"
    using c1(1) b1(1) b2 assms(4) unat header
    by (simp add: recvProtocol_def readFixSize_ba_def BASE_LENGTH_def flip: unat_eq_zero)
  show thesis
  proof (cases "?n = 0")
    case True
    have "received p = header_of new_protocol p"
      using True by (simp add: received_def header_of_def new_protocol_def)
    then show thesis using that [of c1] start True c1 in1 by (simp add: length_frame_bytes)
  next
    case False
    have le: "?n \<le> length (?in c1)" by (simp add: in1)
    obtain c2 where c2: "readFixSize K ?n c1 = Inr (int ?n, p_content p, c2)" "c_connected c2"
        "sent (c_kernel c2) = sent (c_kernel c1)" "taken (c_kernel c2) = taken (c_kernel c1) + ?n"
      using readFixSize_ok [OF assms(1) c1(4) le, of ?n] in1 by (auto simp: readFixSize_def)
    have "?in c2 = zs" using in1 c2(3,4) by (simp add: incoming_def add.commute flip: drop_drop)
    then show thesis using that [of c2] start False c1(5,6) c2 by (simp add: received_def length_frame_bytes)
  qed
qed

section \<open>Whatever the peer sends\<close>

lemma client_recv_bounded:
  "bounded_recv K \<Longrightarrow> client_recv K n c = (Got bs, c') \<Longrightarrow> length bs \<le> n"
  by (auto simp: client_recv_def bounded_recv_def split: if_splits prod.splits)

lemma session_read_bounded:
  assumes "bounded_recv K"
  obtains n bs c' where "session_read K len c = Inr (n, bs, c')"
    "n \<le> 0 \<or> n = int (length bs) \<and> length bs \<le> len"
proof -
  obtain r c' where r: "client_recv K len c = (r, c')" by fastforce
  show thesis
    using that r client_recv_bounded [OF assms] unfolding session_read_def
    by (cases r; cases "c_connected c") fastforce+
qed

lemma readFixSize_bounded:
  assumes "bounded_recv K"
  shows "\<exists>n bs c'. readFixSize_loop K len left c = Inr (n, bs, c') \<and>
    (n = int len \<and> length bs = left \<or> n \<le> 0 \<and> \<not> c_connected c')"
proof (induction left arbitrary: c rule: less_induct)
  case (less left)
  note unfold = readFixSize_loop.simps [of K len left c]
  obtain n bs c1 where s: "session_read K left c = Inr (n, bs, c1)"
      "n \<le> 0 \<or> n = int (length bs) \<and> length bs \<le> left"
    by (rule session_read_bounded [OF assms])
  show ?case
  proof (cases "left = 0 \<or> n \<le> 0")
    case True
    then show ?thesis
      using s(1) by (cases "left = 0") (simp_all add: readFixSize_loop.simps [of K len 0 c] unfold set_connected_def)
  next
    case False
    then have "left - nat n < left" "left - nat n + length bs = left" using s(2) by auto
    then show ?thesis
      using less.IH [of "left - nat n" c1] False s(1) by (auto simp: unfold)
  qed
qed

lemma session_read_ba_bounded:
  assumes "bounded_recv K" and "writable k e b" and "0 < len"
  obtains n b' c' where "session_read_ba K len b c = Inr (n, b', c')"
    "n \<le> 0 \<or> n \<le> int len \<and> writable k e b' \<and> int (length (ba_out b')) = int (length (ba_out b)) + n"
proof (cases "c_connected c")
  case False
  then show thesis using that by (simp add: session_read_ba_def)
next
  case True
  have inv: "ba_inv b" using assms(2) by (simp add: writable_def)
  obtain r c1 where r: "client_recv K len c = (r, c1)" by fastforce
  obtain iovs b1 where iovs: "getWriteBuffers [] len b = Inr (iovs, len, b1)" "iov_total iovs = len"
    and fill: "\<And>bs. length bs \<le> len \<Longrightarrow> \<exists>b2 b3. scatter iovs bs b1 = Inr b2 \<and>
      setPosition (ba_pos b2 + length bs) b2 = Inr b3 \<and> ba_inv b3 \<and>
      tape_of b3 = tape_write bs (tape_of b) \<and> same_setup b b3"
    by (rule receive_ok [OF inv assms(3)]) blast
  show thesis
  proof (cases r)
    case (Got bs)
    then have l: "length bs \<le> len" using client_recv_bounded [OF assms(1)] r by blast
    then obtain b2 b3 where b3: "scatter iovs bs b1 = Inr b2"
        "setPosition (ba_pos b2 + length bs) b2 = Inr b3" "ba_inv b3"
        "tape_of b3 = tape_write bs (tape_of b)" "same_setup b b3"
      using fill by blast
    show thesis
      using that True iovs r Got b3(1,2) l written_at_end [OF assms(2) b3(3-5)]
      by (cases bs) (auto simp: session_read_ba_def)
  qed (use that True iovs r in \<open>auto simp: session_read_ba_def\<close>)
qed

lemma readFixSize_ba_bounded:
  assumes "bounded_recv K" and "writable k e b"
  shows "\<exists>n b' c'. readFixSize_ba_loop K len left b c = Inr (n, b', c') \<and>
    (n = int len \<and> writable k e b' \<and> length (ba_out b') = length (ba_out b) + left \<or>
     n \<le> 0 \<and> \<not> c_connected c')"
  using assms(2)
proof (induction left arbitrary: b c rule: less_induct)
  case (less left)
  note unfold = readFixSize_ba_loop.simps [of K len left b c]
  show ?case
  proof (cases "left = 0")
    case True
    then show ?thesis using less.prems by (simp add: readFixSize_ba_loop.simps [of K len 0])
  next
    case left: False
    then obtain n b1 c1 where s: "session_read_ba K left b c = Inr (n, b1, c1)"
        "n \<le> 0 \<or> n \<le> int left \<and> writable k e b1 \<and> int (length (ba_out b1)) = int (length (ba_out b)) + n"
      using session_read_ba_bounded [OF assms(1) less.prems, of left c] by auto
    show ?thesis
    proof (cases "n \<le> 0")
      case True
      then show ?thesis using left s(1) by (simp add: unfold set_connected_def)
    next
      case False
      then have step: "left - nat n < left" "writable k e b1"
          "length (ba_out b1) + (left - nat n) = length (ba_out b) + left"
        using s(2) left by auto
      then show ?thesis
        using less.IH [OF step(1,2), of c1] False left s(1) by (simp add: unfold)
    qed
  qed
qed

lemma header_bytes_surj:
  assumes "length bs = BASE_LENGTH"
  obtains p where "bs = header_bytes p"
proof -
  obtain a b c xs where bs: "bs = a # b # c # xs" "length xs = 8"
    using assms by (auto simp: BASE_LENGTH_def numeral_eq_Suc length_Suc_conv)
  let ?n = "of_mem Big (drop 4 xs) :: 32 word"
  let ?p = "\<lparr>p_magic = a, p_version = b, p_type = c, p_seq = of_mem Big (take 4 xs), p_length = 0,
             p_content = replicate (unat ?n) 0\<rparr>"
  have "mem_bytes Big (of_mem Big (take 4 xs) :: 32 word) = take 4 xs"
    using bs(2) by (intro mem_bytes_of_mem) simp
  moreover have "mem_bytes Big ?n = drop 4 xs" using bs(2) by (intro mem_bytes_of_mem) simp
  moreover have "word_of_nat (unat ?n) = ?n" by simp
  ultimately have "header_bytes ?p = bs" by (simp add: header_bytes_def bs(1))
  then show thesis using that [of ?p] by simp
qed

definition frame_accepted :: "protocol \<Rightarrow> bool" where
  "frame_accepted p \<longleftrightarrow> p_magic p = MAGIC \<and> length (p_content p) = unat (p_length p)"

lemma recvProtocol_bounded:
  assumes "bounded_recv K"
  shows "\<exists>r c'. recvProtocol K c = Inr (r, c') \<and> (\<forall>p. r = Some p \<longrightarrow> frame_accepted p)"
proof -
  have fresh: "writable 4096 Big (new_byte_array 4096)" "ba_out (new_byte_array 4096) = []"
    using new_writable [of 4096] by auto
  obtain n b c1 where n: "readFixSize_ba_loop K BASE_LENGTH BASE_LENGTH (new_byte_array 4096) c = Inr (n, b, c1)"
      "n = int BASE_LENGTH \<and> writable 4096 Big b \<and> length (ba_out b) = BASE_LENGTH \<or>
       n \<le> 0 \<and> \<not> c_connected c1"
    using readFixSize_ba_bounded [OF assms fresh(1), of BASE_LENGTH BASE_LENGTH c] fresh(2) by auto
  show ?thesis
  proof (cases "n \<le> 0")
    case True
    then show ?thesis using n(1) by (simp add: recvProtocol_def readFixSize_ba_def)
  next
    case False
    then have w: "writable 4096 Big b" "length (ba_out b) = BASE_LENGTH" using n(2) by auto
    obtain p where p: "ba_out b = header_bytes p" by (rule header_bytes_surj [OF w(2)])
    obtain b1 where b1: "setPosition 0 b = Inr b1" "readable True Big b1" "ba_rest b1 = header_bytes p @ []"
      using rewind_readable [OF w(1), of 0 True] writable_size [OF w(1)] w(2) p
      by (auto simp: BASE_LENGTH_def)
    obtain b2 where b2: "decodeMeta new_protocol b1 = Inr (header_of new_protocol p, b2)"
      by (rule parsesD [OF decodeMeta_parses b1(2,3)])
    let ?h = "header_of new_protocol p"
    obtain m s c2 where m: "readFixSize K (unat (p_length ?h)) c1 = Inr (m, s, c2)"
        "m = int (unat (p_length ?h)) \<and> length s = unat (p_length ?h) \<or> m \<le> 0 \<and> \<not> c_connected c2"
      using readFixSize_bounded [OF assms, of "unat (p_length ?h)" "unat (p_length ?h)" c1]
      by (auto simp: readFixSize_def)
    have "p_content ?h = []" by (simp add: header_of_def new_protocol_def)
    then show ?thesis
      using False n(1) b1(1) b2 m
      by (cases "m \<le> 0") (simp_all add: recvProtocol_def readFixSize_ba_def frame_accepted_def)
  qed
qed

end
