(* ===== verification/Receive.thy ===== *)
theory Receive
  imports RPCServer SessionSpec
begin

text \<open>
  The server's event loop body for a readable socket, \<open>Client::receive_data\<close> of
  \<open>src/net/Client.cpp\<close>: it drains the socket into a fresh buffer and publishes an event.
\<close>

section \<open>Model\<close>

datatype client_event = DISCONNECTED | INCOMING_MSG

definition MAX_PACKET_SIZE :: nat where
  "MAX_PACKET_SIZE = 4096"

text \<open>The result: the return value, the event published with its buffer if any, and the client.\<close>

type_synonym 'k received = "bool \<times> (client_event \<times> byte_array) option \<times> 'k client"

definition disconnect :: "byte list \<Rightarrow> byte_array \<Rightarrow> 'k client \<Rightarrow> 'k received outcome" where
  "disconnect msg b c =
     rbind (writeStringF32 msg b) (\<lambda>b. rbind (setPosition 0 b) (\<lambda>b.
       Inr (False, Some (DISCONNECTED, b), set_connected False c)))"

partial_function (option) receive_loop ::
    "'k kernel \<Rightarrow> byte_array \<Rightarrow> 'k client \<Rightarrow> ('k received outcome) option" where
  "receive_loop K b c =
     (if \<not> c_connected c then Some (Inr (True, None, c))
      else case client_recv K MAX_PACKET_SIZE c of
             (Again, c') \<Rightarrow>
               Some (rbind (setPosition 0 b) (\<lambda>b. Inr (True, Some (INCOMING_MSG, b), c')))
           | (Broken err, c') \<Rightarrow> Some (disconnect err b c')
           | (Got bs, c') \<Rightarrow>
               if bs = [] then Some (disconnect (str_bytes ''Client has closed connection!'') b c')
               else (case ba_write bs b of
                       Inl e \<Rightarrow> Some (Inl e)
                     | Inr b' \<Rightarrow> receive_loop K b' c'))"

definition receive_data :: "'k kernel \<Rightarrow> 'k client \<Rightarrow> ('k received outcome) option" where
  "receive_data K c = receive_loop K (new_byte_array 4096) c"

section \<open>A packet that has arrived\<close>

text \<open>The socket answers \<open>EAGAIN\<close> once everything that has arrived was read.\<close>

definition drains ::
    "'k kernel \<Rightarrow> ('k \<Rightarrow> byte list) \<Rightarrow> ('k \<Rightarrow> nat) \<Rightarrow> (byte list \<Rightarrow> byte list) \<Rightarrow> bool" where
  "drains K sent taken answer \<longleftrightarrow>
     (\<forall>n k. incoming sent taken answer k = [] \<longrightarrow>
        (\<exists>k'. k_recv K n k = (Again, k') \<and> sent k' = sent k \<and> taken k' = taken k))"

lemma write_at_end:
  assumes "writable k e b"
  obtains b' where "ba_write bs b = Inr b'" "writable k e b'" "ba_out b' = ba_out b @ bs"
  by (rule emitsD [OF snk.put_emits assms])

lemma receive_loop_ok:
  assumes "stream_recv K sent taken answer" and "drains K sent taken answer"
    and "writable 4096 Big b" and "c_connected c"
    and "xs = incoming sent taken answer (c_kernel c)"
    and "r \<Longrightarrow> length (ba_out b @ xs) mod 4096 \<noteq> 0 \<or> ba_out b @ xs = []"
  shows "\<exists>b' c'. receive_loop K b c = Some (Inr (True, Some (INCOMING_MSG, b'), c')) \<and>
    readable r Big b' \<and> ba_rest b' = ba_out b @ xs \<and> c_connected c'"
  using assms(3-6)
proof (induction "length xs" arbitrary: xs b c rule: less_induct)
  case less
  note unfold = receive_loop.simps [of K b c]
  show ?case
  proof (cases "xs = []")
    case True
    then obtain k' where k': "k_recv K MAX_PACKET_SIZE (c_kernel c) = (Again, k')"
      using assms(2) less.prems(3) unfolding drains_def by metis
    obtain b' where b': "setPosition 0 b = Inr b'" "readable r Big b'" "ba_rest b' = drop 0 (ba_out b)"
      using rewind_readable [OF less.prems(1), of 0 r] writable_size [OF less.prems(1)] less.prems(4) True
      by auto
    then show ?thesis
      using k' less.prems(2) True by (auto simp: unfold client_recv_def)
  next
    case False
    obtain m c1 where m: "client_recv K MAX_PACKET_SIZE c = (Got (take m xs), c1)" "0 < m"
        "m \<le> length xs" "c_connected c1" "incoming sent taken answer (c_kernel c1) = drop m xs"
      by (rule stream_recvD [OF assms(1) _ less.prems(2,3) False, of MAX_PACKET_SIZE])
         (simp_all add: MAX_PACKET_SIZE_def)
    obtain b1 where b1: "ba_write (take m xs) b = Inr b1" "writable 4096 Big b1"
        "ba_out b1 = ba_out b @ take m xs"
      by (rule write_at_end [OF less.prems(1)])
    have "length (drop m xs) < length xs" using m(2,3) by simp
    moreover have "drop m xs = incoming sent taken answer (c_kernel c1)" by (simp add: m(5))
    moreover have "r \<Longrightarrow> length (ba_out b1 @ drop m xs) mod 4096 \<noteq> 0 \<or> ba_out b1 @ drop m xs = []"
      using less.prems(4) b1(3) by simp
    ultimately obtain b' c' where "receive_loop K b1 c1 = Some (Inr (True, Some (INCOMING_MSG, b'), c'))"
        "readable r Big b'" "ba_rest b' = ba_out b1 @ drop m xs" "c_connected c'"
      using less.hyps [of "drop m xs" b1 c1] b1(2) m(4) by blast
    moreover have "take m xs \<noteq> []" using m(2) False by simp
    ultimately show ?thesis
      using m(1) b1(1,3) less.prems(2) by (simp add: unfold)
  qed
qed

lemma receive_data_ok:
  assumes "stream_recv K sent taken answer" and "drains K sent taken answer" and "c_connected c"
    and "r \<Longrightarrow> length (incoming sent taken answer (c_kernel c)) mod 4096 \<noteq> 0 \<or>
      incoming sent taken answer (c_kernel c) = []"
  shows "\<exists>b' c'. receive_data K c = Some (Inr (True, Some (INCOMING_MSG, b'), c')) \<and>
    readable r Big b' \<and> ba_rest b' = incoming sent taken answer (c_kernel c) \<and> c_connected c'"
  using receive_loop_ok [OF assms(1,2), of "new_byte_array 4096" c _ r] new_writable [of 4096] assms(3,4)
  by (simp add: receive_data_def)

end
