(* ===== verification/RPCClient.thy ===== *)
theory RPCClient
  imports RPCCommon SessionSpec
begin

text \<open>
  The client's side of a call: connecting (\<open>RPCClient::connect_server\<close> of \<open>src/rpc/RPCClient.cpp\<close>)
  and the synchronous \<open>call\<close> of \<open>include/rpc/RPCClient.h\<close>.
\<close>

section \<open>The client's state\<close>

record 'k rpc_client =
  rc_is_connected :: bool
  rc_is_closed :: bool
  rc_client :: "'k client"

section \<open>Connecting\<close>

text \<open>
  The system calls \<open>connect_server\<close> makes, in the order it makes them: \<open>socket\<close> and the address
  lookup (\<open>initialize_socket\<close>, \<open>set_address\<close>; \<open>Some\<close> message is the exception they throw), \<open>connect\<close>,
  \<open>select\<close>, \<open>getsockopt\<close> (\<open>None\<close> when it fails) and \<open>strerror(errno)\<close>.
\<close>

datatype connect_result = Connected | Interrupted | In_progress | Refused "byte list"

datatype wait_result = Wait_failure | Wait_timeout | Wait_success

record 'k connector =
  k_setup :: "'k \<Rightarrow> byte list option \<times> 'k"
  k_connect :: "'k \<Rightarrow> connect_result \<times> 'k"
  k_select :: "'k \<Rightarrow> int \<times> 'k"
  k_so_error :: "'k \<Rightarrow> int option \<times> 'k"
  k_strerror :: "'k \<Rightarrow> byte list"

text \<open>\<open>ResultType\<close>: the message of a failure, or success.\<close>

datatype result_type = SUCCESS | FAILURE "byte list"

definition is_successful :: "result_type \<Rightarrow> bool" where
  "is_successful r \<longleftrightarrow> r = SUCCESS"

definition wait_for_write :: "'k connector \<Rightarrow> 'k \<Rightarrow> wait_result \<times> 'k" where
  "wait_for_write K k =
     (case k_select K k of
        (ret, k') \<Rightarrow> (if ret = -1 then Wait_failure else if ret = 0 then Wait_timeout else Wait_success, k'))"

text \<open>The loop around \<open>connect\<close> goes on for as long as signals interrupt it.\<close>

partial_function (option) connect_loop :: "'k connector \<Rightarrow> 'k \<Rightarrow> (connect_result \<times> 'k) option" where
  "connect_loop K k =
     (case k_connect K k of
        (Interrupted, k') \<Rightarrow> connect_loop K k'
      | (r, k') \<Rightarrow> Some (r, k'))"

definition connection_made :: "'k rpc_client \<Rightarrow> 'k \<Rightarrow> 'k rpc_client" where
  "connection_made s k =
     s\<lparr>rc_is_connected := True, rc_is_closed := False,
       rc_client := (rc_client s)\<lparr>c_connected := True, c_kernel := k\<rparr>\<rparr>"

definition connection_failed :: "'k rpc_client \<Rightarrow> 'k \<Rightarrow> 'k rpc_client" where
  "connection_failed s k = s\<lparr>rc_client := (rc_client s)\<lparr>c_kernel := k\<rparr>\<rparr>"

text \<open>\<open>connect_server\<close> once the socket is there: a fresh \<open>Client\<close> counts itself as connected.\<close>

definition connect_socket :: "'k connector \<Rightarrow> 'k rpc_client \<Rightarrow> (result_type \<times> 'k rpc_client) option" where
  "connect_socket K s =
     (case connect_loop K (c_kernel (rc_client s)) of
        None \<Rightarrow> None
      | Some (Connected, k) \<Rightarrow> Some (SUCCESS, connection_made s k)
      | Some (Refused err, k) \<Rightarrow> Some (FAILURE err, connection_failed s k)
      | Some (_, k) \<Rightarrow>
          (case wait_for_write K k of
             (Wait_success, k) \<Rightarrow>
               (case k_so_error K k of
                  (Some err, k) \<Rightarrow>
                    Some (if err = 0 then (SUCCESS, connection_made s k)
                          else (FAILURE (k_strerror K k), connection_failed s k))
                | (None, k) \<Rightarrow> Some (FAILURE (k_strerror K k), connection_failed s k))
           | (_, k) \<Rightarrow> Some (FAILURE (k_strerror K k), connection_failed s k)))"

definition connect_server :: "'k connector \<Rightarrow> 'k rpc_client \<Rightarrow> (result_type \<times> 'k rpc_client) option" where
  "connect_server K s =
     (case k_setup K (c_kernel (rc_client s)) of
        (Some err, k) \<Rightarrow> Some (FAILURE err, connection_failed s k)
      | (None, k) \<Rightarrow> connect_socket K (s\<lparr>rc_client := \<lparr>c_connected = True, c_kernel = k\<rparr>\<rparr>))"

text \<open>The destructor: whether it closes the socket, and the state it leaves.\<close>

definition destroy_client :: "'k rpc_client \<Rightarrow> bool \<times> 'k rpc_client" where
  "destroy_client s = (if rc_is_closed s then (False, s) else (True, s\<lparr>rc_is_closed := True\<rparr>))"

section \<open>Calling\<close>

text \<open>The serialized request: the name, and the tuple of the arguments if there are any.\<close>

definition request :: "byte list \<Rightarrow> byte list outcome" where
  "request name =
     rbind (ser (VString name) new_serializer) (\<lambda>s. rbind (reset s) toString)"

definition request_with :: "byte list \<Rightarrow> val list \<Rightarrow> byte list outcome" where
  "request_with name ps =
     rbind (ser (VString name) new_serializer) (\<lambda>s.
     rbind (ser (VTuple ps) s) (\<lambda>s. rbind (reset s) toString))"

text \<open>
  The exchange. \<open>junk\<close> is what \<open>val_\<close> holds when no return value was read, or when reading it broke
  off.
\<close>

definition call_request ::
    "'k kernel \<Rightarrow> key_ops \<Rightarrow> val \<Rightarrow> ty \<Rightarrow> byte list \<Rightarrow> 'k rpc_client \<Rightarrow> (rpc_result \<times> 'k rpc_client) outcome" where
  "call_request K ops junk t req s =
     (let val = new_result junk in
      if rc_is_closed s
      then Inr (val\<lparr>r_code := state_code RPC_CLOSED, r_msg := str_bytes ''socket closed''\<rparr>, s)
      else
        rbind (sendProtocol K (Create RPC_METHOD_REQUEST req 0) (rc_client s)) (\<lambda>(ret, c).
          if ret < 0
          then Inr (val\<lparr>r_code := state_code RPC_FAIL, r_msg := str_bytes ''have not sent data''\<rparr>,
                    s\<lparr>rc_client := c\<rparr>)
          else
            rbind (recvProtocol K c) (\<lambda>(resp, c).
              let s = s\<lparr>rc_client := c\<rparr> in
              case resp of
                None \<Rightarrow> Inr (val\<lparr>r_code := state_code RPC_FAIL,
                                 r_msg := str_bytes ''The parsed data is empty''\<rparr>, s)
              | Some p \<Rightarrow>
                  if p_content p = []
                  then Inr (val\<lparr>r_code := state_code RPC_NO_METHOD, r_msg := str_bytes ''Method not find''\<rparr>, s)
                  else rbind (serializer_of (p_content p)) (\<lambda>b.
                       case deser_result ops t val b of
                         Inr (val', _) \<Rightarrow> Inr (val', s)
                       | Inl e \<Rightarrow>
                           if is_exception e
                           then Inr (val\<lparr>r_code := state_code RPC_NO_MATCH,
                                         r_msg := str_bytes ''return value not match''\<rparr>, s)
                           else Inl e))))"

definition call_method ::
    "'k kernel \<Rightarrow> key_ops \<Rightarrow> val \<Rightarrow> ty \<Rightarrow> byte list \<Rightarrow> val list option \<Rightarrow> 'k rpc_client \<Rightarrow>
      (rpc_result \<times> 'k rpc_client) outcome" where
  "call_method K ops junk t name ps s =
     rbind (case ps of None \<Rightarrow> request name | Some vs \<Rightarrow> request_with name vs) (\<lambda>req.
       call_request K ops junk t req s)"

end
