(* ===== verification/Network.thy ===== *)
theory Network
  imports Receive RPCClient
begin

text \<open>
  A client and a server joined: what the client's request looks like to the server, what the server
  sends back for a packet, and what the client makes of it.
\<close>

section \<open>The request the client builds\<close>

lemma string_of_emitted:
  assumes "emits (writable 4096 Big) ba_out f bs"
  shows "rbind (f new_serializer) (\<lambda>s. rbind (reset s) toString) = Inr bs"
proof (rule emit_from_new [OF assms, where r = False])
  fix b b1 assume "f (new_byte_array 4096) = Inr b1" "setPosition 0 b1 = Inr b"
    "readable False Big b" "ba_rest b = bs"
  then show ?thesis using toString_readable by (simp add: new_serializer_def reset_def)
qed simp

lemma request_eq: "request name = Inr (request_bytes name [])"
  using string_of_emitted [OF ser_emits, of "VString name"]
  by (simp add: request_def request_bytes_def)

lemma request_with_eq: "request_with name vs = Inr (request_bytes name (args_bytes vs))"
proof -
  have "emits (writable 4096 Big) ba_out (\<lambda>s. rbind (ser (VString name) s) (ser (VTuple vs)))
      (enc Big (VString name) @ enc Big (VTuple vs))"
    by (intro emits_bind ser_emits)
  from string_of_emitted [OF this] show ?thesis
    by (simp add: request_with_def request_bytes_def args_bytes_def rbind_assoc)
qed

definition request_frame :: "byte list \<Rightarrow> byte list \<Rightarrow> protocol" where
  "request_frame name arg = Create RPC_METHOD_REQUEST (request_bytes name arg) 0"

lemma request_frame_fields [simp]:
  "p_magic (request_frame name arg) = MAGIC"
  "p_type (request_frame name arg) = msg_code RPC_METHOD_REQUEST"
  "p_content (request_frame name arg) = request_bytes name arg"
  "p_seq (request_frame name arg) = 0"
  by (simp_all add: request_frame_def Create_def new_protocol_def)

lemma varint_bytes_not_Nil [simp]: "varint_bytes v \<noteq> []"
  by (simp add: varint_bytes.simps [of v])

lemma request_bytes_not_Nil [simp]: "request_bytes name arg \<noteq> []"
  by (simp add: request_bytes_def)

section \<open>What the server sends for a packet\<close>

definition serve ::
    "key_ops \<Rightarrow> (ty \<Rightarrow> val) \<Rightarrow> 'u handlers \<Rightarrow> 'u \<Rightarrow> byte list \<Rightarrow> byte list \<times> 'u" where
  "serve ops junk hs u bs =
     (case rbind (ba_write bs (new_byte_array 4096)) (setPosition 0) of
        Inl e \<Rightarrow> ([], u)
      | Inr bt \<Rightarrow>
          (case publish_client_msg ops junk hs True bt u of
             (Inr (Some resp), u') \<Rightarrow>
               (case encode resp of Inr b \<Rightarrow> (ba_rest b, u') | Inl e \<Rightarrow> ([], u'))
           | (_, u') \<Rightarrow> ([], u')))"

lemma packet_readable:
  obtains bt where "rbind (ba_write bs (new_byte_array 4096)) (setPosition 0) = Inr bt"
    "readable False Big bt" "ba_rest bt = bs"
proof (rule emit_from_new [OF snk.put_emits [of 4096 Big bs], where r = False])
  fix b b1 assume "ba_write bs (new_byte_array 4096) = Inr b1" "setPosition 0 b1 = Inr b"
    "readable False Big b" "ba_rest b = bs"
  then show thesis using that [of b] by simp
qed simp

lemma serve_request:
  assumes "length (request_bytes name arg) < 2 ^ 31"
    and "\<And>proto. p_content proto = request_bytes name arg \<Longrightarrow> p_seq proto = 0 \<Longrightarrow>
      handleMethodCall ops junk hs proto u = (Inr (response_to proto body), u')"
  shows "serve ops junk hs u (frame_bytes (request_frame name arg)) =
    (frame_bytes (Create RPC_METHOD_RESPONSE body 0), u')"
proof -
  let ?p = "request_frame name arg"
  obtain bt where bt: "rbind (ba_write (frame_bytes ?p) (new_byte_array 4096)) (setPosition 0) = Inr bt"
      "readable False Big bt" "ba_rest bt = frame_bytes ?p"
    by (rule packet_readable)
  have len: "length (p_content ?p) < 2 ^ 32" and ne: "p_content ?p \<noteq> [] \<or> False"
    using assms(1) by simp_all
  have "handleMethodCall ops junk hs ((header_of new_protocol ?p)\<lparr>p_content := p_content ?p\<rparr>) u =
      (Inr (Create RPC_METHOD_RESPONSE body 0), u')"
    using assms(2) [of "(header_of new_protocol ?p)\<lparr>p_content := p_content ?p\<rparr>"]
    by (simp add: header_of_def response_to_def)
  then have pub: "publish_client_msg ops junk hs True bt u =
      (Inr (Some (Create RPC_METHOD_RESPONSE body 0)), u')"
    using publish_frame [OF bt(2) _ len ne, of "[]" ops junk hs True u] bt(3) by simp
  obtain b where b: "encode (Create RPC_METHOD_RESPONSE body 0) = Inr b" "readable False Big b"
      "ba_rest b = frame_bytes (Create RPC_METHOD_RESPONSE body 0)"
    by (rule encode_ok [of False "Create RPC_METHOD_RESPONSE body 0"]) simp
  show ?thesis by (simp add: serve_def bt(1) pub b(1,3))
qed

lemma served:
  assumes "request_fits name arg"
    and "\<And>proto. p_content proto = request_bytes name arg \<Longrightarrow>
      handleMethodCall ops junk hs proto u = (Inr (response_to proto body), u')"
  shows "serve ops junk hs u (frame_bytes (request_frame name arg)) =
      (frame_bytes (Create RPC_METHOD_RESPONSE body 0), u')"
    and "fst (serve ops junk hs u (frame_bytes (Create RPC_METHOD_REQUEST (request_bytes name arg) 0))) =
      frame_bytes (Create RPC_METHOD_RESPONSE body 0)"
  using serve_request [of name arg ops junk hs u body u'] assms
  by (simp_all add: request_fits_def request_frame_def)

section \<open>What the client makes of the answer\<close>

text \<open>A client connected to a peer to which nothing has been sent yet.\<close>

definition fresh_link ::
    "'k kernel \<Rightarrow> ('k \<Rightarrow> byte list) \<Rightarrow> ('k \<Rightarrow> nat) \<Rightarrow> (byte list \<Rightarrow> byte list) \<Rightarrow> 'k rpc_client \<Rightarrow> bool" where
  "fresh_link K sent taken answer s \<longleftrightarrow>
     stream_send K sent taken \<and> stream_recv K sent taken answer \<and>
     \<not> rc_is_closed s \<and> c_connected (rc_client s) \<and>
     sent (c_kernel (rc_client s)) = [] \<and> taken (c_kernel (rc_client s)) = 0"

text \<open>A client connected to a peer: what it has sent, and how much of the answer it has read.\<close>

definition open_link ::
    "'k kernel \<Rightarrow> ('k \<Rightarrow> byte list) \<Rightarrow> ('k \<Rightarrow> nat) \<Rightarrow> (byte list \<Rightarrow> byte list) \<Rightarrow> byte list \<Rightarrow> nat \<Rightarrow>
      'k rpc_client \<Rightarrow> bool" where
  "open_link K sent taken answer xs n s \<longleftrightarrow>
     stream_send K sent taken \<and> stream_recv K sent taken answer \<and>
     \<not> rc_is_closed s \<and> c_connected (rc_client s) \<and>
     sent (c_kernel (rc_client s)) = xs \<and> taken (c_kernel (rc_client s)) = n"

lemma fresh_link_open: "fresh_link K sent taken answer s \<longleftrightarrow> open_link K sent taken answer [] 0 s"
  by (auto simp: fresh_link_def open_link_def)

lemma exchange:
  assumes "open_link K sent taken answer past n s"
    and "drop n (answer (past @ frame_bytes (Create RPC_METHOD_REQUEST req 0))) = frame_bytes resp"
    and "p_magic resp = MAGIC" and "length (p_content resp) < 2 ^ 32"
  obtains c where
    "call_request K ops junk t req s =
      (let s' = s\<lparr>rc_client := c\<rparr> in
       if p_content resp = []
       then Inr ((new_result junk)\<lparr>r_code := state_code RPC_NO_METHOD, r_msg := str_bytes ''Method not find''\<rparr>, s')
       else rbind (serializer_of (p_content resp)) (\<lambda>b.
              case deser_result ops t (new_result junk) b of
                Inr (val', _) \<Rightarrow> Inr (val', s')
              | Inl e \<Rightarrow>
                  if is_exception e
                  then Inr ((new_result junk)\<lparr>r_code := state_code RPC_NO_MATCH,
                                r_msg := str_bytes ''return value not match''\<rparr>, s')
                  else Inl e))"
    "open_link K sent taken answer (past @ frame_bytes (Create RPC_METHOD_REQUEST req 0))
      (n + length (frame_bytes resp)) (s\<lparr>rc_client := c\<rparr>)"
proof -
  let ?p = "Create RPC_METHOD_REQUEST req 0"
  have link: "stream_send K sent taken" "stream_recv K sent taken answer" "\<not> rc_is_closed s"
      "c_connected (rc_client s)" "sent (c_kernel (rc_client s)) = past" "taken (c_kernel (rc_client s)) = n"
    using assms(1) by (auto simp: open_link_def)
  obtain c1 where c1: "sendProtocol K ?p (rc_client s) = Inr (int (length (frame_bytes ?p)), c1)" "c_connected c1"
      "sent (c_kernel c1) = past @ frame_bytes ?p" "taken (c_kernel c1) = n"
    by (rule sendProtocol_ok [OF link(1,4), of ?p]) (auto simp: link(5,6))
  have inc: "incoming sent taken answer (c_kernel c1) = frame_bytes resp @ []"
    using c1(3,4) assms(2) by (simp add: incoming_def)
  obtain c2 where c2: "recvProtocol K c1 = Inr (Some (received resp), c2)" "c_connected c2"
      "sent (c_kernel c2) = sent (c_kernel c1)" "taken (c_kernel c2) = taken (c_kernel c1) + length (frame_bytes resp)"
    by (rule recvProtocol_ok [OF link(2) c1(2) inc assms(3,4)])
  have content: "p_content (received resp) = p_content resp" by (simp add: received_def)
  show thesis
    by (rule that [of c2])
       (use link c1 c2 content in \<open>simp_all add: call_request_def Let_def open_link_def\<close>)
qed

lemma call_method_request:
  "call_method K ops junk t name (Some vs) s =
     call_request K ops junk t (request_bytes name (args_bytes vs)) s"
  "call_method K ops junk t name None s = call_request K ops junk t (request_bytes name []) s"
  by (simp_all add: call_method_def request_eq request_with_eq)

lemma create_fields [simp]:
  "p_magic (Create ty body n) = MAGIC" "p_content (Create ty body n) = body"
  "p_seq (Create ty body n) = n" "p_type (Create ty body n) = msg_code ty"
  by (simp_all add: Create_def new_protocol_def)

lemma status_bytes_not_Nil [simp]: "status_bytes d \<noteq> []"
  by (simp add: status_bytes_def)

text \<open>A response with a result in it is read back as that result.\<close>

lemma exchange_result:
  assumes "open_link K sent taken answer past n s"
    and "drop n (answer (past @ frame_bytes (Create RPC_METHOD_REQUEST req 0))) =
      frame_bytes (Create RPC_METHOD_RESPONSE body 0)"
    and "body \<noteq> []" and "length body < 2 ^ 31" and "r \<Longrightarrow> length body mod 4096 \<noteq> 0"
    and "parses (readable r Big) ba_rest (deser_result ops t (new_result junk)) xs d"
    and "body = xs @ zs"
  obtains c where "call_request K ops junk t req s = Inr (d, s\<lparr>rc_client := c\<rparr>)"
    "open_link K sent taken answer (past @ frame_bytes (Create RPC_METHOD_REQUEST req 0))
      (n + length (frame_bytes (Create RPC_METHOD_RESPONSE body 0))) (s\<lparr>rc_client := c\<rparr>)"
proof -
  have len: "length (p_content (Create RPC_METHOD_RESPONSE body 0)) < 2 ^ 32" using assms(4) by simp
  obtain c where c: "call_request K ops junk t req s =
      rbind (serializer_of body) (\<lambda>b.
        case deser_result ops t (new_result junk) b of
          Inr (val', _) \<Rightarrow> Inr (val', s\<lparr>rc_client := c\<rparr>)
        | Inl e \<Rightarrow>
            if is_exception e
            then Inr ((new_result junk)\<lparr>r_code := state_code RPC_NO_MATCH,
                          r_msg := str_bytes ''return value not match''\<rparr>, s\<lparr>rc_client := c\<rparr>)
            else Inl e)"
      "open_link K sent taken answer (past @ frame_bytes (Create RPC_METHOD_REQUEST req 0))
        (n + length (frame_bytes (Create RPC_METHOD_RESPONSE body 0))) (s\<lparr>rc_client := c\<rparr>)"
    by (rule exchange [OF assms(1,2) _ len, of ops junk t]) (use assms(3) in \<open>simp_all add: Let_def\<close>)
  obtain b where b: "serializer_of body = Inr b" "readable r Big b" "ba_rest b = body"
    by (rule serializer_of_ok [OF assms(4), of r]) (use assms(5) in simp_all)
  have rest: "ba_rest b = xs @ zs" using b(3) assms(7) by simp
  obtain b' where "deser_result ops t (new_result junk) b = Inr (d, b')"
    by (rule parsesD [OF assms(6) b(2) rest])
  then show thesis using that [of c] c b(1) by simp
qed

text \<open>When the result of a call can be sent and read back.\<close>

definition result_fits :: "key_ops \<Rightarrow> 'u rpc_method \<Rightarrow> val \<Rightarrow> bool" where
  "result_fits ops m v \<longleftrightarrow>
     has_type (return_type (m_ret m)) (sent_val m v) \<and> storable ops (sent_val m v) \<and>
     length (result_bytes (success_result (sent_val m v))) < 2 ^ 31 \<and>
     (length (result_bytes (success_result (sent_val m v))) mod 4096 \<noteq> 0 \<or>
      no_empty (sent_val m v) \<and> enc Big (sent_val m v) \<noteq> [])"

lemma result_parses:
  assumes "result_fits ops m v"
  obtains r where "r \<Longrightarrow> length (result_bytes (success_result (sent_val m v))) mod 4096 \<noteq> 0"
    "parses (readable r Big) ba_rest (deser_result ops (return_type (m_ret m)) q)
       (result_bytes (success_result (sent_val m v))) (success_result (sent_val m v))"
proof -
  let ?d = "success_result (sent_val m v)"
  have d: "r_code ?d = 0" "r_msg ?d = []" "r_val ?d = sent_val m v" by (simp_all add: success_result_def)
  have fits: "has_type (return_type (m_ret m)) (r_val ?d)" "storable ops (r_val ?d)"
    using assms d by (simp_all add: result_fits_def)
  show thesis
  proof (cases "length (result_bytes ?d) mod 4096 \<noteq> 0")
    case True
    then show thesis
      using that [of True] deser_result_parses [OF d(1) _ _ fits, of True q] d(2) by simp
  next
    case False
    then show thesis
      using that [of False] deser_result_parses_dense [OF d(1,2) fits, of False q] assms d(3)
      by (simp add: result_fits_def)
  qed
qed

end
