(* ===== verification/Conversation.thy ===== *)
theory Conversation
  imports Network
begin

text \<open>
  Many calls over one connection. The server answers the requests in the order they arrive, its state
  carried from one to the next; a client that calls a sequence of functions, each call waiting for its
  answer, gets what a program would that calls the functions directly.
\<close>

section \<open>The server over a stream\<close>

text \<open>
  The frames at the front of a byte string: the header has the length of the content in its last four
  bytes. A frame that is not all there ends the list.
\<close>

definition frame_length :: "byte list \<Rightarrow> nat" where
  "frame_length bs = BASE_LENGTH + unat (of_mem Big (take 4 (drop 7 bs)) :: 32 word)"

function requests_of :: "byte list \<Rightarrow> byte list list" where
  "requests_of bs =
     (if length bs < BASE_LENGTH \<or> length bs < frame_length bs then []
      else take (frame_length bs) bs # requests_of (drop (frame_length bs) bs))"
  by pat_completeness auto
termination
  by (relation "measure length") (auto simp: frame_length_def BASE_LENGTH_def)

declare requests_of.simps [simp del]

fun serve_all ::
    "key_ops \<Rightarrow> (ty \<Rightarrow> val) \<Rightarrow> 'u handlers \<Rightarrow> 'u \<Rightarrow> byte list list \<Rightarrow> byte list \<times> 'u" where
  "serve_all ops junk hs u [] = ([], u)"
| "serve_all ops junk hs u (p # ps) =
     (case serve ops junk hs u p of
        (bs, u1) \<Rightarrow> (case serve_all ops junk hs u1 ps of (bs', u2) \<Rightarrow> (bs @ bs', u2)))"

text \<open>What has come back after the client has sent \<open>bs\<close>.\<close>

definition answers :: "key_ops \<Rightarrow> (ty \<Rightarrow> val) \<Rightarrow> 'u handlers \<Rightarrow> 'u \<Rightarrow> byte list \<Rightarrow> byte list" where
  "answers ops junk hs u bs = fst (serve_all ops junk hs u (requests_of bs))"

lemma frame_length_frame:
  assumes "length (p_content p) < 2 ^ 32"
  shows "frame_length (frame_bytes p @ zs) = length (frame_bytes p)"
proof -
  let ?n = "word_of_nat (length (p_content p)) :: 32 word"
  have field: "take 4 (drop 7 (frame_bytes p @ zs)) = mem_bytes Big ?n"
    by (simp add: frame_bytes_def header_bytes_def)
  have "of_mem Big (mem_bytes Big ?n) = ?n" by (rule of_mem_mem_bytes) simp
  then show ?thesis
    unfolding frame_length_def field
    using assms by (simp add: length_frame_bytes unat_of_nat take_bit_nat_eq_self)
qed

lemma requests_of_frame:
  assumes "length (p_content p) < 2 ^ 32"
  shows "requests_of (frame_bytes p @ zs) = frame_bytes p # requests_of zs"
  using frame_length_frame [OF assms, of zs] requests_of.simps [of "frame_bytes p @ zs"]
  by (simp add: length_frame_bytes)

lemma requests_of_Nil: "requests_of [] = []"
  by (simp add: requests_of.simps [of "[]"] BASE_LENGTH_def)

lemma requests_of_frames:
  assumes "\<forall>p \<in> set ps. length (p_content p) < 2 ^ 32"
  shows "requests_of (concat (map frame_bytes ps)) = map frame_bytes ps"
  using assms by (induction ps) (simp_all add: requests_of_frame requests_of_Nil)

lemma serve_all_append:
  "serve_all ops junk hs u (ps @ qs) =
     (case serve_all ops junk hs u ps of
        (bs, u1) \<Rightarrow> (case serve_all ops junk hs u1 qs of (bs', u2) \<Rightarrow> (bs @ bs', u2)))"
  by (induction ps arbitrary: u) (auto split: prod.splits)

section \<open>One call\<close>

lemma one_call:
  assumes "open_link K sent taken answer past n s"
    and "hs name = Some m" and "well_typed_args ops (m_args m) vs"
    and "request_fits name (args_bytes vs)" and "m_fun m vs u = (Inr v, u')" and "result_fits ops m v"
    and "drop n (answer (past @ frame_bytes (request_frame name (args_bytes vs)))) =
      fst (serve ops junk hs u (frame_bytes (request_frame name (args_bytes vs))))"
  obtains c where
    "call_method K ops old (return_type (m_ret m)) name (Some vs) s =
      Inr (success_result (sent_val m v), s\<lparr>rc_client := c\<rparr>)"
    "open_link K sent taken answer (past @ frame_bytes (request_frame name (args_bytes vs)))
      (n + length (fst (serve ops junk hs u (frame_bytes (request_frame name (args_bytes vs)))))) (s\<lparr>rc_client := c\<rparr>)"
    "snd (serve ops junk hs u (frame_bytes (request_frame name (args_bytes vs)))) = u'"
proof -
  let ?d = "success_result (sent_val m v)" and ?arg = "args_bytes vs"
  have handle: "handleMethodCall ops junk hs proto u = (Inr (response_to proto (result_bytes ?d)), u')"
    if "p_content proto = request_bytes name ?arg" for proto
    by (rule handle_success [where hs = hs and name = name, OF that assms(4,2,3,5)])
  have sv: "serve ops junk hs u (frame_bytes (request_frame name ?arg)) =
      (frame_bytes (Create RPC_METHOD_RESPONSE (result_bytes ?d) 0), u')"
    by (rule served(1) [OF assms(4) handle])
  obtain r where r: "r \<Longrightarrow> length (result_bytes ?d) mod 4096 \<noteq> 0"
      "parses (readable r Big) ba_rest (deser_result ops (return_type (m_ret m)) (new_result old)) (result_bytes ?d) ?d"
    by (rule result_parses [OF assms(6), of "new_result old"]) blast
  have body: "result_bytes ?d \<noteq> []" "length (result_bytes ?d) < 2 ^ 31" "result_bytes ?d = result_bytes ?d @ []"
    using assms(6) by (simp_all add: result_bytes_def result_fits_def)
  have answered: "drop n (answer (past @ frame_bytes (Create RPC_METHOD_REQUEST (request_bytes name ?arg) 0))) =
      frame_bytes (Create RPC_METHOD_RESPONSE (result_bytes ?d) 0)"
    using assms(7) by (simp add: sv flip: request_frame_def)
  obtain c where c: "call_request K ops old (return_type (m_ret m)) (request_bytes name ?arg) s = Inr (?d, s\<lparr>rc_client := c\<rparr>)"
      "open_link K sent taken answer (past @ frame_bytes (Create RPC_METHOD_REQUEST (request_bytes name ?arg) 0))
        (n + length (frame_bytes (Create RPC_METHOD_RESPONSE (result_bytes ?d) 0))) (s\<lparr>rc_client := c\<rparr>)"
    by (rule exchange_result [OF assms(1) answered body(1,2) r body(3)])
  then show thesis
    using that [of c] unfolding call_method_request sv request_frame_def [symmetric] by simp
qed

section \<open>Many calls\<close>

text \<open>A call: the type its result is read at, the function's name and its arguments.\<close>

type_synonym remote_call = "ty \<times> byte list \<times> val list"

fun call_all ::
    "'k kernel \<Rightarrow> key_ops \<Rightarrow> val \<Rightarrow> remote_call list \<Rightarrow> 'k rpc_client \<Rightarrow> (rpc_result list \<times> 'k rpc_client) outcome" where
  "call_all K ops old [] s = Inr ([], s)"
| "call_all K ops old ((t, name, vs) # cs) s =
     rbind (call_method K ops old t name (Some vs) s) (\<lambda>(d, s).
     rbind (call_all K ops old cs s) (\<lambda>(ds, s). Inr (d # ds, s)))"

text \<open>The same program with the functions at hand: the values returned and the state in the end.\<close>

fun run_locally :: "'u handlers \<Rightarrow> remote_call list \<Rightarrow> 'u \<Rightarrow> val list \<times> 'u" where
  "run_locally hs [] u = ([], u)"
| "run_locally hs ((t, name, vs) # cs) u =
     (case m_fun (the (hs name)) vs u of
        (Inl e, u') \<Rightarrow> ([], u')
      | (Inr v, u') \<Rightarrow>
          (case run_locally hs cs u' of (rs, u'') \<Rightarrow> (sent_val (the (hs name)) v # rs, u'')))"

text \<open>Every function called is registered, called at its types, and returns a value that fits.\<close>

fun callable :: "key_ops \<Rightarrow> 'u handlers \<Rightarrow> remote_call list \<Rightarrow> 'u \<Rightarrow> bool" where
  "callable ops hs [] u \<longleftrightarrow> True"
| "callable ops hs ((t, name, vs) # cs) u \<longleftrightarrow>
     (case hs name of
        None \<Rightarrow> False
      | Some m \<Rightarrow>
          t = return_type (m_ret m) \<and> well_typed_args ops (m_args m) vs \<and> request_fits name (args_bytes vs) \<and>
          (case m_fun m vs u of
             (Inl e, u') \<Rightarrow> False
           | (Inr v, u') \<Rightarrow> result_fits ops m v \<and> callable ops hs cs u'))"

fun request_of :: "remote_call \<Rightarrow> protocol" where
  "request_of (t, name, vs) = request_frame name (args_bytes vs)"

lemma callable_small:
  "callable ops hs cs u \<Longrightarrow> \<forall>c \<in> set cs. length (p_content (request_of c)) < 2 ^ 31"
proof (induction cs arbitrary: u)
  case (Cons c cs)
  obtain t name vs where "c = (t, name, vs)" by (cases c)
  then show ?case
    using Cons by (fastforce simp: request_fits_def split: option.splits prod.splits sum.splits)
qed simp

text \<open>The calls from some point of a conversation on.\<close>

lemma call_all_from:
  assumes "open_link K sent taken (answers ops junk hs u0) (concat (map frame_bytes ps)) (length bs) s"
    and "\<forall>p \<in> set ps. length (p_content p) < 2 ^ 32"
    and "serve_all ops junk hs u0 (map frame_bytes ps) = (bs, u)" and "callable ops hs cs u"
  shows "\<exists>c. call_all K ops old cs s = Inr (map success_result (fst (run_locally hs cs u)), s\<lparr>rc_client := c\<rparr>) \<and>
    c_connected c \<and> sent (c_kernel c) = concat (map frame_bytes (ps @ map request_of cs)) \<and>
    snd (serve_all ops junk hs u0 (map frame_bytes (ps @ map request_of cs))) = snd (run_locally hs cs u)"
  using assms
proof (induction cs arbitrary: s ps bs u)
  case Nil
  then show ?case by (intro exI [of _ "rc_client s"]) (auto simp: open_link_def)
next
  case (Cons x cs)
  obtain t name vs where x: "x = (t, name, vs)" by (cases x)
  obtain m v u' where m: "hs name = Some m" "t = return_type (m_ret m)" "well_typed_args ops (m_args m) vs"
      "request_fits name (args_bytes vs)" "m_fun m vs u = (Inr v, u')" "result_fits ops m v" "callable ops hs cs u'"
    using Cons.prems(4) by (auto simp: x split: option.splits prod.splits sum.splits)
  let ?f = "request_frame name (args_bytes vs)"
  let ?r = "fst (serve ops junk hs u (frame_bytes ?f))"
  have small: "length (p_content ?f) < 2 ^ 32" using m(4) by (simp add: request_fits_def)
  have reqs: "requests_of (concat (map frame_bytes ps) @ frame_bytes ?f) = map frame_bytes (ps @ [?f])"
    using requests_of_frames [of "ps @ [?f]"] Cons.prems(2) small by simp
  have served: "serve_all ops junk hs u0 (map frame_bytes (ps @ [?f])) =
      (bs @ ?r, snd (serve ops junk hs u (frame_bytes ?f)))"
    using Cons.prems(3) by (simp add: serve_all_append case_prod_beta)
  have "drop (length bs) (answers ops junk hs u0 (concat (map frame_bytes ps) @ frame_bytes ?f)) = ?r"
    unfolding answers_def reqs served by simp
  from one_call [OF Cons.prems(1) m(1,3-6) this, of old] obtain c where
    c: "call_method K ops old t name (Some vs) s = Inr (success_result (sent_val m v), s\<lparr>rc_client := c\<rparr>)"
      "open_link K sent taken (answers ops junk hs u0) (concat (map frame_bytes (ps @ [?f])))
        (length (bs @ ?r)) (s\<lparr>rc_client := c\<rparr>)"
      "snd (serve ops junk hs u (frame_bytes ?f)) = u'"
    by (auto simp: m(2))
  have "\<forall>p \<in> set (ps @ [?f]). length (p_content p) < 2 ^ 32" using Cons.prems(2) small by simp
  from Cons.IH [OF c(2) this served [unfolded c(3)] m(7)] show ?case
    using c(1) m(1,5) by (auto simp: x case_prod_beta)
qed

end
