(* ===== verification/ResponseWriters.thy ===== *)
theory ResponseWriters
  imports SessionSpec "HOL-Library.Sublist"
begin

text \<open>
  The tasks that send responses (\<open>RPCServer::publish_client_msg\<close>, \<open>src/rpc/RPCServer.cpp\<close>): each
  takes the write lock of its connection and runs \<open>sendProtocol\<close>, while the connection's reader, the
  cleaner of dead connections and other tasks run. The steps of the tasks are those of the loop of
  \<open>RPCSession::writeFixSize\<close>, one call of \<open>sendmsg\<close> each, in any interleaving.
\<close>

section \<open>Model\<close>

text \<open>
  Where a task stands: not yet started or blocked on the lock; writing, with the length it will return,
  the bytes left and its buffer; or done, with the \<open>size\<close> that \<open>sendProtocol\<close> returned.
\<close>

datatype task_phase = Waiting | Writing nat nat byte_array | Finished int

record write_task =
  wt_resp :: protocol
  wt_phase :: task_phase

text \<open>
  One connection: the client its tasks share, whether \<open>client_write_mtx_\<close> has an entry for its
  descriptor, the task that holds that lock, and the tasks in the order of their submission.
\<close>

record 'k conn_writers =
  cw_client :: "'k client"
  cw_mtx :: bool
  cw_holder :: "nat option"
  cw_tasks :: "write_task list"

definition phase_of :: "'k conn_writers \<Rightarrow> nat \<Rightarrow> task_phase" where
  "phase_of s i = wt_phase (cw_tasks s ! i)"

definition set_phase :: "nat \<Rightarrow> task_phase \<Rightarrow> 'k conn_writers \<Rightarrow> 'k conn_writers" where
  "set_phase i ph s = s\<lparr>cw_tasks := (cw_tasks s)[i := (cw_tasks s ! i)\<lparr>wt_phase := ph\<rparr>]\<rparr>"

text \<open>The end of \<open>publish_client_msg\<close>, with a response.\<close>

definition submit_response :: "protocol \<Rightarrow> 'k conn_writers \<Rightarrow> 'k conn_writers" where
  "submit_response p s =
     (if c_connected (cw_client s)
      then s\<lparr>cw_tasks := cw_tasks s @ [\<lparr>wt_resp = p, wt_phase = Waiting\<rparr>]\<rparr> else s)"

text \<open>
  \<open>lock_guard\<close> on \<open>*client_write_mtx_[fd]\<close>: an entry that is missing is made, with a null pointer, and
  dereferenced. \<open>None\<close> is a task that has to wait. With the lock \<open>sendProtocol\<close> starts: it encodes.
\<close>

definition task_lock :: "nat \<Rightarrow> 'k conn_writers \<Rightarrow> 'k conn_writers option outcome" where
  "task_lock i s =
     (if \<not> cw_mtx s then Inl Null_deref
      else if cw_holder s \<noteq> None then Inr None
      else rbind (encode (wt_resp (cw_tasks s ! i))) (\<lambda>b.
             Inr (Some (set_phase i (Writing (getReadSize b) (getReadSize b) b) (s\<lparr>cw_holder := Some i\<rparr>)))))"

text \<open>One round of \<open>writeFixSize\<close>, and the return from \<open>sendProtocol\<close>, which releases the lock.\<close>

definition task_write :: "'k kernel \<Rightarrow> nat \<Rightarrow> 'k conn_writers \<Rightarrow> 'k conn_writers outcome" where
  "task_write K i s =
     (case phase_of s i of
        Writing len left b \<Rightarrow>
          if left = 0 then Inr (set_phase i (Finished (int len)) (s\<lparr>cw_holder := None\<rparr>))
          else rbind (session_write_ba K left b (cw_client s)) (\<lambda>(n, b', c').
                 if n \<le> 0
                 then Inr (set_phase i (Finished n) (s\<lparr>cw_holder := None, cw_client := set_connected False c'\<rparr>))
                 else Inr (set_phase i (Writing len (left - nat n) b') (s\<lparr>cw_client := c'\<rparr>)))
      | _ \<Rightarrow> Inr s)"

text \<open>A step of a task.\<close>

inductive task_step :: "'k kernel \<Rightarrow> 'k conn_writers \<Rightarrow> 'k conn_writers \<Rightarrow> bool" for K where
  lock: "i < length (cw_tasks s) \<Longrightarrow> phase_of s i = Waiting \<Longrightarrow> task_lock i s = Inr (Some s') \<Longrightarrow>
    task_step K s s'"
| write_some: "i < length (cw_tasks s) \<Longrightarrow> phase_of s i = Writing len left b \<Longrightarrow>
    task_write K i s = Inr s' \<Longrightarrow> task_step K s s'"

text \<open>
  What else happens to a connection: tasks step, the reader receives or clears the connected flag, and
  the cleaner erases the lock of a connection that is not connected.
\<close>

inductive conn_step :: "'k kernel \<Rightarrow> 'k conn_writers \<Rightarrow> 'k conn_writers \<Rightarrow> bool" for K where
  task: "task_step K s s' \<Longrightarrow> conn_step K s s'"
| received: "client_recv K n (cw_client s) = (r, c) \<Longrightarrow> conn_step K s (s\<lparr>cw_client := c\<rparr>)"
| lost: "conn_step K s (s\<lparr>cw_client := set_connected False (cw_client s)\<rparr>)"
| cleaned: "\<not> c_connected (cw_client s) \<Longrightarrow> conn_step K s (s\<lparr>cw_mtx := False\<rparr>)"

inductive writer_step :: "'k kernel \<Rightarrow> 'k conn_writers \<Rightarrow> 'k conn_writers \<Rightarrow> bool" for K where
  submitted: "writer_step K s (submit_response p s)"
| other: "conn_step K s s' \<Longrightarrow> writer_step K s s'"

inductive_cases task_stepE: "task_step K s s'"
inductive_cases conn_stepE: "conn_step K s s'"
inductive_cases writer_stepE: "writer_step K s s'"

text \<open>A connection whose lock exists, before the first response.\<close>

definition new_writers :: "'k client \<Rightarrow> 'k conn_writers" where
  "new_writers c = \<lparr>cw_client = c, cw_mtx = True, cw_holder = None, cw_tasks = []\<rparr>"

section \<open>What a task writes\<close>

text \<open>
  What the kernel promises: what it accepts of a \<open>sendmsg\<close> is a prefix that follows what was sent
  before, and nothing else adds to what was sent.
\<close>

definition append_send :: "'k kernel \<Rightarrow> ('k \<Rightarrow> byte list) \<Rightarrow> bool" where
  "append_send K sent \<longleftrightarrow>
     (\<forall>bs k n k'. k_send K bs k = (Some n, k') \<longrightarrow> n \<le> length bs \<and> sent k' = sent k @ take n bs) \<and>
     (\<forall>bs k k'. k_send K bs k = (None, k') \<longrightarrow> sent k' = sent k) \<and>
     (\<forall>n k. sent (snd (k_recv K n k)) = sent k)"

lemma client_recv_sent:
  assumes "append_send K sent" and "client_recv K n c = (r, c')"
  shows "sent (c_kernel c') = sent (c_kernel c)" "c_connected c' = c_connected c"
proof -
  have "sent (snd (k_recv K n (c_kernel c))) = sent (c_kernel c)" using assms(1) by (simp add: append_send_def)
  then show "sent (c_kernel c') = sent (c_kernel c)" "c_connected c' = c_connected c"
    using assms(2) by (auto simp: client_recv_def split: if_splits prod.splits)
qed

lemma session_write_ba_effect:
  assumes "append_send K sent" and "readable False e b" and "len \<le> length (ba_rest b)"
  obtains n b' c' where "session_write_ba K len b c = Inr (n, b', c')" "c_connected c' = c_connected c"
    "n \<le> 0 \<Longrightarrow> sent (c_kernel c') = sent (c_kernel c)"
    "0 < n \<Longrightarrow> c_connected c \<and> nat n \<le> len \<and> readable False e b' \<and> ba_rest b' = drop (nat n) (ba_rest b) \<and>
       sent (c_kernel c') = sent (c_kernel c) @ take (nat n) (ba_rest b)"
proof (cases "c_connected c")
  case False
  then show thesis using that by (simp add: session_write_ba_def)
next
  case True
  let ?bs = "take len (ba_rest b)"
  have inv: "ba_inv b" and w: "None \<notin> set (content b)" using assms(2) by (auto simp: readable_def)
  obtain iovs where iovs: "getReadBuffers [] len b = Inr (iovs, min len (getReadSize b))"
      "collect (ba_nodes b) iovs = Inr (take len (drop (ba_pos b) (content b)))"
    by (rule getReadBuffers_ok [OF inv])
  have load: "load (take len (drop (ba_pos b) (content b))) = Inr ?bs"
    using w by (subst load_written) (auto simp: ba_rest_def take_map dest: in_set_takeD in_set_dropD)
  obtain r k' where r: "k_send K ?bs (c_kernel c) = (r, k')" by fastforce
  note defs = session_write_ba_def client_send_def
  show thesis
  proof (cases r)
    case None
    then have "sent k' = sent (c_kernel c)" using assms(1) r unfolding append_send_def by blast
    then show thesis
      by (intro that [of "-1" b "c\<lparr>c_kernel := k'\<rparr>"]) (use True iovs load r None in \<open>simp_all add: defs\<close>)
  next
    case (Some n)
    then have n: "n \<le> length ?bs" "sent k' = sent (c_kernel c) @ take n ?bs"
      using assms(1) r unfolding append_send_def by blast+
    then have le: "n \<le> length (ba_rest b)" "n \<le> len" by simp_all
    obtain b' where b': "setPosition (ba_pos b + n) b = Inr b'" "readable False e b'"
        "ba_rest b' = drop n (ba_rest b)"
      by (rule advance_readable [OF assms(2) le(1)])
    show thesis
      by (rule that [of "int n" "if 0 < n then b' else b" "c\<lparr>c_kernel := k'\<rparr>"])
        (use True iovs load r Some n b' le in \<open>simp_all add: defs min_absorb1\<close>)
  qed
qed

section \<open>The invariant\<close>

definition frame_of :: "'k conn_writers \<Rightarrow> nat \<Rightarrow> byte list" where
  "frame_of s i = frame_bytes (map wt_resp (cw_tasks s) ! i)"

text \<open>The tasks whose \<open>sendProtocol\<close> reported success.\<close>

definition whole :: "'k conn_writers \<Rightarrow> nat set" where
  "whole s = {i. i < length (cw_tasks s) \<and> (\<exists>n > 0. phase_of s i = Finished n)}"

text \<open>What follows the whole frames while nobody writes: a part of one frame, if the connection broke.\<close>

definition remnant :: "'k conn_writers \<Rightarrow> byte list \<Rightarrow> bool" where
  "remnant s xs \<longleftrightarrow>
     xs = [] \<or> \<not> c_connected (cw_client s) \<and> (\<exists>i < length (cw_tasks s). i \<notin> whole s \<and> prefix xs (frame_of s i))"

text \<open>What a task in the loop has written and has left.\<close>

definition midway :: "'k conn_writers \<Rightarrow> nat \<Rightarrow> byte list \<Rightarrow> bool" where
  "midway s i xs \<longleftrightarrow>
     (\<exists>left b. phase_of s i = Writing (length (frame_of s i)) left b \<and> left \<le> length (frame_of s i) \<and>
        readable False Big b \<and> ba_rest b = drop (length (frame_of s i) - left) (frame_of s i) \<and>
        (xs = take (length (frame_of s i) - left) (frame_of s i) \<or>
         left = length (frame_of s i) \<and> remnant s xs))"

definition wire_inv :: "('k \<Rightarrow> byte list) \<Rightarrow> byte list \<Rightarrow> 'k conn_writers \<Rightarrow> nat list \<Rightarrow> byte list \<Rightarrow> bool" where
  "wire_inv sent start s order xs \<longleftrightarrow>
     distinct order \<and> set order = whole s \<and>
     sent (c_kernel (cw_client s)) = start @ concat (map (frame_of s) order) @ xs \<and>
     (\<forall>i < length (cw_tasks s). \<forall>len left b. phase_of s i = Writing len left b \<longrightarrow> cw_holder s = Some i) \<and>
     (case cw_holder s of None \<Rightarrow> remnant s xs | Some i \<Rightarrow> i < length (cw_tasks s) \<and> midway s i xs)"

lemma phase_of_simps [simp]:
  "phase_of (s\<lparr>cw_client := c\<rparr>) = phase_of s" "phase_of (s\<lparr>cw_mtx := m\<rparr>) = phase_of s"
  "phase_of (s\<lparr>cw_holder := h\<rparr>) = phase_of s"
  "i < length (cw_tasks s) \<Longrightarrow> phase_of (set_phase i ph s) j = (if j = i then ph else phase_of s j)"
  by (auto simp: phase_of_def set_phase_def)

lemma set_phase_fields [simp]:
  "cw_client (set_phase i ph s) = cw_client s" "cw_mtx (set_phase i ph s) = cw_mtx s"
  "cw_holder (set_phase i ph s) = cw_holder s"
  "length (cw_tasks (set_phase i ph s)) = length (cw_tasks s)"
  by (simp_all add: set_phase_def)

lemma frame_of_simps [simp]:
  "frame_of (s\<lparr>cw_client := c\<rparr>) = frame_of s" "frame_of (s\<lparr>cw_mtx := m\<rparr>) = frame_of s"
  "frame_of (s\<lparr>cw_holder := h\<rparr>) = frame_of s"
  "i < length (cw_tasks s) \<Longrightarrow> frame_of (set_phase i ph s) = frame_of s"
proof -
  show "frame_of (s\<lparr>cw_client := c\<rparr>) = frame_of s" "frame_of (s\<lparr>cw_mtx := m\<rparr>) = frame_of s"
    "frame_of (s\<lparr>cw_holder := h\<rparr>) = frame_of s"
    by (simp_all add: frame_of_def fun_eq_iff)
  assume "i < length (cw_tasks s)"
  then have "map wt_resp (cw_tasks (set_phase i ph s)) = map wt_resp (cw_tasks s)"
    by (simp add: set_phase_def map_update) (metis list_update_id nth_map)
  then show "frame_of (set_phase i ph s) = frame_of s" by (simp add: frame_of_def fun_eq_iff)
qed

lemma frame_not_Nil [simp]: "frame_of s i \<noteq> []"
proof -
  have "0 < length (frame_of s i)" by (simp add: frame_of_def length_frame_bytes BASE_LENGTH_def)
  then show ?thesis by (rule length_greater_0_conv [THEN iffD1])
qed

lemma whole_simps [simp]:
  "whole (s\<lparr>cw_client := c\<rparr>) = whole s" "whole (s\<lparr>cw_mtx := m\<rparr>) = whole s" "whole (s\<lparr>cw_holder := h\<rparr>) = whole s"
  by (simp_all add: whole_def)

lemma whole_set_phase:
  assumes "i < length (cw_tasks s)" and "i \<notin> whole s"
  shows "whole (set_phase i ph s) = (case ph of Finished n \<Rightarrow> if 0 < n then insert i (whole s) else whole s | _ \<Rightarrow> whole s)"
  using assms by (auto simp: whole_def split: task_phase.splits if_splits)

lemma remnant_mono:
  assumes "remnant s xs" and "whole s' = whole s" and "frame_of s' = frame_of s"
    and "length (cw_tasks s') = length (cw_tasks s)" and "c_connected (cw_client s') \<Longrightarrow> c_connected (cw_client s)"
  shows "remnant s' xs"
  using assms unfolding remnant_def by auto

lemma wire_inv_same_tasks:
  assumes "wire_inv sent start s order xs" and "cw_tasks s' = cw_tasks s" and "cw_holder s' = cw_holder s"
    and "sent (c_kernel (cw_client s')) = sent (c_kernel (cw_client s))"
    and "c_connected (cw_client s') \<Longrightarrow> c_connected (cw_client s)"
  shows "wire_inv sent start s' order xs"
proof -
  have same: "phase_of s' = phase_of s" "frame_of s' = frame_of s" "whole s' = whole s"
    using assms(2) by (simp_all add: phase_of_def frame_of_def whole_def fun_eq_iff)
  have rem: "remnant s' ys" if "remnant s ys" for ys
    using remnant_mono [OF that same(3,2)] assms(2,5) by simp
  have "midway s' i ys" if "midway s i ys" for i ys
    using that rem unfolding midway_def same by blast
  then show ?thesis
    using assms rem unfolding wire_inv_def same by (auto split: option.splits)
qed

lemma wire_inv_submit:
  assumes "wire_inv sent start s order xs"
  shows "wire_inv sent start (submit_response p s) order xs"
proof (cases "c_connected (cw_client s)")
  case True
  let ?s = "submit_response p s" and ?n = "length (cw_tasks s)"
  have s: "?s = s\<lparr>cw_tasks := cw_tasks s @ [\<lparr>wt_resp = p, wt_phase = Waiting\<rparr>]\<rparr>"
    using True by (simp add: submit_response_def)
  have old: "phase_of ?s i = phase_of s i" "frame_of ?s i = frame_of s i" if "i < ?n" for i
    using that by (simp_all add: s phase_of_def frame_of_def nth_append)
  have new: "phase_of ?s ?n = Waiting" by (simp add: s phase_of_def)
  have len: "length (cw_tasks ?s) = Suc ?n" by (simp add: s)
  have w: "whole ?s = whole s" using old new len by (auto simp: whole_def less_Suc_eq)
  have frames: "map (frame_of ?s) order = map (frame_of s) order"
    using assms old(2) by (auto simp: wire_inv_def whole_def)
  have rem: "remnant ?s ys" if "remnant s ys" for ys
    using that True by (simp add: remnant_def)
  have mid: "midway ?s i ys" if "midway s i ys" "i < ?n" for i ys
    using that(1) rem old [OF that(2)] unfolding midway_def by auto
  have writing: "cw_holder s = Some i" if "i < Suc ?n" "phase_of ?s i = Writing l left b" for i l left b
    using that assms old new by (cases "i = ?n") (auto simp: wire_inv_def)
  have "cw_holder ?s = cw_holder s" "cw_client ?s = cw_client s" by (simp_all add: s)
  then show ?thesis
    using assms rem mid writing unfolding wire_inv_def w frames len
    by (cases "cw_holder s") auto
qed (use assms in \<open>simp add: submit_response_def\<close>)

lemma task_lock_effect:
  assumes "task_lock i s = Inr (Some s')"
  obtains b where "cw_mtx s" "cw_holder s = None" "readable False Big b" "ba_rest b = frame_bytes (wt_resp (cw_tasks s ! i))"
    "s' = set_phase i (Writing (length (ba_rest b)) (length (ba_rest b)) b) (s\<lparr>cw_holder := Some i\<rparr>)"
proof -
  obtain b where b: "encode (wt_resp (cw_tasks s ! i)) = Inr b" "readable False Big b"
      "ba_rest b = frame_bytes (wt_resp (cw_tasks s ! i))"
    by (rule encode_ok [of False "wt_resp (cw_tasks s ! i)"]) simp
  have "getReadSize b = length (ba_rest b)" using b(2) length_ba_rest [of b] by (simp add: readable_def)
  then show thesis
    using that [of b] assms b by (simp add: task_lock_def split: if_splits)
qed

lemma wire_inv_lock:
  assumes "wire_inv sent start s order xs" and "i < length (cw_tasks s)" and "phase_of s i = Waiting"
    and "task_lock i s = Inr (Some s')"
  shows "wire_inv sent start s' order xs"
proof -
  obtain b where b: "cw_holder s = None" "readable False Big b"
      "ba_rest b = frame_bytes (wt_resp (cw_tasks s ! i))"
      "s' = set_phase i (Writing (length (ba_rest b)) (length (ba_rest b)) b) (s\<lparr>cw_holder := Some i\<rparr>)"
    using task_lock_effect [OF assms(4)] by blast
  have frame: "ba_rest b = frame_of s i" using b(3) assms(2) by (simp add: frame_of_def)
  have "i \<notin> whole s" using assms(3) by (simp add: whole_def)
  then have w: "whole s' = whole s" using assms(2) by (simp add: b(4) whole_set_phase)
  have f: "frame_of s' = frame_of s" using assms(2) by (simp add: b(4))
  have fields: "cw_client s' = cw_client s" "cw_holder s' = Some i" "length (cw_tasks s') = length (cw_tasks s)"
    "phase_of s' j = (if j = i then Writing (length (ba_rest b)) (length (ba_rest b)) b else phase_of s j)" for j
    using assms(2) by (simp_all add: b(4))
  have "remnant s xs" using assms(1) b(1) by (simp add: wire_inv_def)
  then have rem: "remnant s' xs" using fields by (rule_tac remnant_mono [OF _ w f]) simp_all
  then have "midway s' i xs" unfolding midway_def f fields(4) using b(2) frame by simp
  moreover have "\<forall>j < length (cw_tasks s). \<forall>l left d. phase_of s' j = Writing l left d \<longrightarrow> j = i"
    using assms(1) b(1) by (auto simp: fields(4) wire_inv_def)
  ultimately show ?thesis
    using assms(1,2) unfolding wire_inv_def w f fields(1-3) by auto
qed

lemma task_write_cases:
  assumes "append_send K sent" and "phase_of s i = Writing len left b" and "i < length (cw_tasks s)"
    and "readable False Big b" and "left \<le> length (ba_rest b)" and "task_write K i s = Inr s'"
  obtains
    (returned) "left = 0" "s' = set_phase i (Finished (int len)) (s\<lparr>cw_holder := None\<rparr>)"
  | (failed) n c where "0 < left" "n \<le> 0" "sent (c_kernel c) = sent (c_kernel (cw_client s))" "\<not> c_connected c"
      "s' = set_phase i (Finished n) (s\<lparr>cw_holder := None, cw_client := c\<rparr>)"
  | (wrote) n b' c where "0 < n" "n \<le> left" "c_connected (cw_client s)" "c_connected c"
      "sent (c_kernel c) = sent (c_kernel (cw_client s)) @ take n (ba_rest b)"
      "readable False Big b'" "ba_rest b' = drop n (ba_rest b)"
      "s' = set_phase i (Writing len (left - n) b') (s\<lparr>cw_client := c\<rparr>)"
proof (cases "left = 0")
  case True
  then show thesis using assms(2,6) returned by (simp add: task_write_def)
next
  case False
  obtain n b' c where w: "session_write_ba K left b (cw_client s) = Inr (n, b', c)"
      "c_connected c = c_connected (cw_client s)"
      "n \<le> 0 \<Longrightarrow> sent (c_kernel c) = sent (c_kernel (cw_client s))"
      "0 < n \<Longrightarrow> c_connected (cw_client s) \<and> nat n \<le> left \<and> readable False Big b' \<and>
         ba_rest b' = drop (nat n) (ba_rest b) \<and>
         sent (c_kernel c) = sent (c_kernel (cw_client s)) @ take (nat n) (ba_rest b)"
    by (rule session_write_ba_effect [OF assms(1,4,5), of "cw_client s"]) blast
  show thesis
  proof (cases "n \<le> 0")
    case True
    then show thesis
      using failed [of n "set_connected False c"] False w(1,3) assms(2,6)
      by (simp add: task_write_def set_connected_def)
  next
    case pos: False
    then show thesis
      using wrote [of "nat n" c b'] False w assms(2,6) by (simp add: task_write_def)
  qed
qed

lemma wire_inv_writing:
  assumes "wire_inv sent start s order xs" and "i < length (cw_tasks s)" and "phase_of s i = Writing len left b"
  shows "cw_holder s = Some i" "len = length (frame_of s i)" "left \<le> length (frame_of s i)" "readable False Big b"
    "ba_rest b = drop (length (frame_of s i) - left) (frame_of s i)"
    "xs = take (length (frame_of s i) - left) (frame_of s i) \<or> left = length (frame_of s i) \<and> remnant s xs"
proof -
  show h: "cw_holder s = Some i" using assms unfolding wire_inv_def by blast
  then have "midway s i xs" using assms(1) by (simp add: wire_inv_def)
  then show "len = length (frame_of s i)" "left \<le> length (frame_of s i)" "readable False Big b"
    "ba_rest b = drop (length (frame_of s i) - left) (frame_of s i)"
    "xs = take (length (frame_of s i) - left) (frame_of s i) \<or> left = length (frame_of s i) \<and> remnant s xs"
    using assms(3) by (simp_all add: midway_def)
qed

lemma wire_inv_write:
  assumes "append_send K sent" and inv: "wire_inv sent start s order xs" and i: "i < length (cw_tasks s)"
    and "phase_of s i = Writing len left b" and step: "task_write K i s = Inr s'"
  obtains order' xs' where "wire_inv sent start s' order' xs'"
proof -
  let ?f = "frame_of s i" and ?n = "length (frame_of s i)"
  note now = wire_inv_writing [OF inv i assms(4)]
  note h = now(1) and len = now(2) and left = now(3) and b = now(4,5) and xs = now(6)
  have only: "j = i" if "j < length (cw_tasks s)" "phase_of s j = Writing l k d" for j l k d
    using inv h that by (auto simp: wire_inv_def)
  have new: "i \<notin> whole s" using assms(4) by (simp add: whole_def)
  have seq: "distinct order" "set order = whole s"
      "sent (c_kernel (cw_client s)) = start @ concat (map (frame_of s) order) @ xs"
    using inv by (simp_all add: wire_inv_def)
  have rest: "left \<le> length (ba_rest b)" using left by (simp add: b(2))
  from assms(1,4) i b(1) rest step show thesis
  proof (cases rule: task_write_cases)
    case returned
    have w: "whole s' = insert i (whole s)" and f: "frame_of s' = frame_of s"
      using i new by (simp_all add: returned(2) whole_set_phase len)
    have fields: "cw_client s' = cw_client s" "cw_holder s' = None" "length (cw_tasks s') = length (cw_tasks s)"
      "phase_of s' j = (if j = i then Finished (int len) else phase_of s j)" for j
      using i by (simp_all add: returned(2))
    have "xs = ?f" using xs returned(1) by auto
    moreover have "phase_of s' j \<noteq> Writing l k d" if "j < length (cw_tasks s)" for j l k d
      using only [OF that] by (auto simp: fields(4))
    ultimately have "wire_inv sent start s' (order @ [i]) []"
      unfolding wire_inv_def w f fields(1-3) using seq new by (simp add: remnant_def)
    then show thesis by (rule that)
  next
    case (failed n c)
    have w: "whole s' = whole s" and f: "frame_of s' = frame_of s"
      using i new failed(2) by (simp_all add: failed(5) whole_set_phase)
    have fields: "cw_client s' = c" "cw_holder s' = None" "length (cw_tasks s') = length (cw_tasks s)"
      "phase_of s' j = (if j = i then Finished n else phase_of s j)" for j
      using i by (simp_all add: failed(5))
    have "remnant s' xs"
      using xs
    proof
      assume "xs = take (?n - left) ?f"
      then have "prefix xs ?f" by (simp add: take_is_prefix)
      then show ?thesis unfolding remnant_def w f fields(1,3) using failed(4) i new by blast
    next
      assume "left = ?n \<and> remnant s xs"
      then show ?thesis using remnant_mono [OF _ w f fields(3)] failed(4) fields(1) by simp
    qed
    moreover have "phase_of s' j \<noteq> Writing l k d" if "j < length (cw_tasks s)" for j l k d
      using only [OF that] by (auto simp: fields(4))
    ultimately have "wire_inv sent start s' order xs"
      unfolding wire_inv_def w f fields(1-3) using seq failed(3) by simp
    then show thesis by (rule that)
  next
    case (wrote n b' c)
    have w: "whole s' = whole s" and f: "frame_of s' = frame_of s"
      using i new by (simp_all add: wrote(8) whole_set_phase)
    have "xs = take (?n - left) ?f" using xs wrote(3) by (auto simp: remnant_def)
    then have grown: "xs @ take n (ba_rest b) = take (?n - (left - n)) ?f"
      using left wrote(2) by (simp add: b(2) flip: take_add)
    have "ba_rest b' = drop (?n - (left - n)) ?f" using left wrote(2,7) by (simp add: b(2) add.commute)
    moreover have fields: "cw_client s' = c" "cw_holder s' = Some i" "length (cw_tasks s') = length (cw_tasks s)"
      "phase_of s' j = (if j = i then Writing len (left - n) b' else phase_of s j)" for j
      using i h by (simp_all add: wrote(8))
    ultimately have "midway s' i (xs @ take n (ba_rest b))"
      unfolding midway_def f fields(4) using left wrote(6) grown by (simp add: len)
    moreover have "j = i" if "j < length (cw_tasks s)" "phase_of s' j = Writing l k d" for j l k d
      using only [OF that(1)] that(2) by (auto simp: fields(4) split: if_splits)
    ultimately have "wire_inv sent start s' order (xs @ take n (ba_rest b))"
      unfolding wire_inv_def w f fields(1-3) using seq i wrote(5) by simp
    then show thesis by (rule that)
  qed
qed

lemma wire_inv_task:
  assumes "append_send K sent" and "wire_inv sent start s order xs" and "task_step K s s'"
  shows "\<exists>order' xs'. wire_inv sent start s' order' xs'"
  using assms(3)
proof cases
  case (lock i)
  then show ?thesis using wire_inv_lock [OF assms(2)] by blast
next
  case (write_some i len left b)
  then show ?thesis using wire_inv_write [OF assms(1,2)] by blast
qed

lemma wire_inv_conn:
  assumes "append_send K sent" and inv: "wire_inv sent start s order xs" and "conn_step K s s'"
  shows "\<exists>order' xs'. wire_inv sent start s' order' xs'"
  using assms(3)
proof cases
  case task
  then show ?thesis by (rule wire_inv_task [OF assms(1,2)])
next
  case (received n r c)
  have "wire_inv sent start s' order xs"
    by (rule wire_inv_same_tasks [OF inv]) (use client_recv_sent [OF assms(1) received(2)] received(1) in simp_all)
  then show ?thesis by blast
next
  case lost
  have "wire_inv sent start s' order xs"
    by (rule wire_inv_same_tasks [OF inv]) (simp_all add: lost set_connected_def)
  then show ?thesis by blast
next
  case cleaned
  have "wire_inv sent start s' order xs" by (rule wire_inv_same_tasks [OF inv]) (simp_all add: cleaned)
  then show ?thesis by blast
qed

lemma wire_inv_step:
  assumes "append_send K sent" and inv: "wire_inv sent start s order xs" and "writer_step K s s'"
  shows "\<exists>order' xs'. wire_inv sent start s' order' xs'"
  using assms(3) wire_inv_submit [OF inv] wire_inv_conn [OF assms(1) inv] by (elim writer_stepE) blast+

lemma wire_inv_reach:
  assumes "append_send K sent" and "(writer_step K)\<^sup>*\<^sup>* (new_writers c) s"
  obtains order xs where "wire_inv sent (sent (c_kernel c)) s order xs"
proof -
  have "\<exists>order xs. wire_inv sent (sent (c_kernel c)) s order xs"
    using assms(2)
  proof (induction rule: rtranclp_induct)
    case base
    have "wire_inv sent (sent (c_kernel c)) (new_writers c) [] []"
      by (simp add: wire_inv_def new_writers_def whole_def remnant_def)
    then show ?case by blast
  qed (use wire_inv_step [OF assms(1)] in blast)
  then show thesis using that by blast
qed

text \<open>What follows the whole frames is part of one that is not among them.\<close>

lemma wire_inv_part:
  assumes "wire_inv sent start s order xs"
  shows "xs = [] \<or> (\<exists>i < length (cw_tasks s). i \<notin> whole s \<and> prefix xs (frame_of s i))"
proof (cases "cw_holder s")
  case (Some i)
  then have i: "i < length (cw_tasks s)" "midway s i xs" using assms by (auto simp: wire_inv_def)
  then have "i \<notin> whole s" by (auto simp: midway_def whole_def)
  then show ?thesis using i by (auto simp: midway_def remnant_def take_is_prefix)
qed (use assms in \<open>auto simp: wire_inv_def remnant_def\<close>)

end
