(* ===== verification/CallTheorems.thy ===== *)
theory CallTheorems
  imports Network
begin

text \<open>
  The properties of sessions and of the server's dispatch. The instances are worked on a kernel that
  sends at most three bytes and receives at most two at a time.
\<close>

section \<open>A slow kernel\<close>

definition trickle :: "(byte list \<Rightarrow> byte list) \<Rightarrow> (byte list \<times> nat) kernel" where
  "trickle answer =
     \<lparr>k_recv = (\<lambda>n (s, t). let m = min (min n 2) (length (answer s) - t) in
        if drop t (answer s) = [] then (Again, (s, t)) else (Got (take m (drop t (answer s))), (s, t + m))),
      k_send = (\<lambda>bs (s, t). (Some (min 3 (length bs)), (s @ take 3 bs, t)))\<rparr>"

lemma trickle_send: "stream_send (trickle answer) fst snd"
  by (auto simp: stream_send_def trickle_def min_def)

lemma trickle_recv: "stream_recv (trickle answer) fst snd answer"
  unfolding stream_recv_def incoming_def
  by (auto simp: trickle_def Let_def intro!: exI [of _ "min (min n 2) l" for n l])

lemma trickle_drains: "drains (trickle answer) fst snd answer"
  by (auto simp: drains_def incoming_def trickle_def Let_def)

lemma trickle_bounded: "bounded_recv (trickle answer)"
  by (auto simp: bounded_recv_def trickle_def Let_def split: if_splits)

lemma trickle_bounded_send: "bounded_send (trickle answer)"
  by (auto simp: bounded_send_def trickle_def)

definition trickle_client :: "(byte list \<times> nat) client" where
  "trickle_client = \<lparr>c_connected = True, c_kernel = ([], 0)\<rparr>"

section \<open>Sessions\<close>

text \<open>
  C13: sending. Over any stream socket that makes progress, however few bytes each \<open>sendmsg\<close> accepts,
  \<open>sendProtocol\<close> hands the kernel exactly the bytes of the frame, once and in order, and returns their
  number.
\<close>

theorem session_sends_whole_frame:
  assumes "stream_send K sent taken" and "c_connected c"
  shows "\<exists>c'. sendProtocol K p c = Inr (int (length (frame_bytes p)), c') \<and> c_connected c' \<and>
    sent (c_kernel c') = sent (c_kernel c) @ frame_bytes p \<and> taken (c_kernel c') = taken (c_kernel c)"
  by (rule sendProtocol_ok [OF assms, of p]) blast

theorem session_sends_whole_frame_witness:
  "\<exists>c'. sendProtocol (trickle (\<lambda>_. [])) HeartBeat trickle_client = Inr (11, c') \<and>
    fst (c_kernel c') = frame_bytes HeartBeat"
  using session_sends_whole_frame [OF trickle_send, of trickle_client "\<lambda>_. []" HeartBeat]
  by (auto simp: trickle_client_def length_frame_bytes BASE_LENGTH_def HeartBeat_def)

text \<open>
  Both ways of sending agree. Whatever the kernel answers to each call (all of it, part of it,
  nothing, an error), \<open>writeFixSize\<close> on a plain array and on a \<open>ByteArray\<close> with the same bytes ahead
  make the same calls, return the same number and leave the connection in the same state.
\<close>

lemma plain_and_buffer_sends_agree:
  assumes "bounded_send K" and "readable False e b" and "ba_rest b = buffer"
  shows "\<exists>b'. writeFixSize_ba K b (length buffer) c =
    (case writeFixSize K buffer c of (n, c') \<Rightarrow> Inr (n, b', c'))"
  using writeFixSize_agree [OF assms(1,2), of 0 buffer "length buffer" "length buffer" c] assms(3)
  by (simp add: writeFixSize_def writeFixSize_ba_def)

lemma plain_and_buffer_sends_agree_witness:
  "\<exists>b b'. ba_rest b = [7, 8] \<and> writeFixSize_ba (trickle (\<lambda>_. [])) b 2 trickle_client =
    (case writeFixSize (trickle (\<lambda>_. [])) [7, 8] trickle_client of (n, c') \<Rightarrow> Inr (n, b', c'))"
proof -
  have "emits (writable 4096 Big) ba_out (ba_write [7, 8]) [7, 8]" by (rule snk.put_emits)
  then obtain b b1 where "setPosition 0 b1 = Inr b" "readable False Big b" "ba_rest b = [7, 8]"
    by (rule emit_from_new [where r = False]) simp_all
  then show ?thesis
    using plain_and_buffer_sends_agree [OF trickle_bounded_send, of Big b "[7, 8]" "\<lambda>_. []" trickle_client]
    by (auto simp: numeral_2_eq_2)
qed

text \<open>
  C12: receiving. If a frame is on its way, \<open>recvProtocol\<close> returns that message, whatever the sizes it
  arrives in, and consumes exactly its bytes, so that the next frame is read from its start.
\<close>

theorem session_receives_whole_frame:
  assumes "stream_recv K sent taken answer" and "c_connected c"
    and "incoming sent taken answer (c_kernel c) = frame_bytes p @ zs"
    and "p_magic p = MAGIC" and "length (p_content p) < 2 ^ 32"
  shows "\<exists>c'. recvProtocol K c = Inr (Some (received p), c') \<and> c_connected c' \<and>
    incoming sent taken answer (c_kernel c') = zs"
  by (rule recvProtocol_ok [OF assms]) blast

theorem session_receives_whole_frame_witness:
  "\<exists>c'. recvProtocol (trickle (\<lambda>_. frame_bytes (Create RPC_REQUEST [1, 2, 3] 7) @ [42])) trickle_client =
      Inr (Some (received (Create RPC_REQUEST [1, 2, 3] 7)), c') \<and>
    incoming fst snd (\<lambda>_. frame_bytes (Create RPC_REQUEST [1, 2, 3] 7) @ [42]) (c_kernel c') = [42]"
  using session_receives_whole_frame [OF trickle_recv, of trickle_client
      "\<lambda>_. frame_bytes (Create RPC_REQUEST [1, 2, 3] 7) @ [42]" "Create RPC_REQUEST [1, 2, 3] 7" "[42]"]
  by (auto simp: trickle_client_def incoming_def)

text \<open>
  C14: any peer. Whatever the kernel delivers, in whatever pieces, with errors and disconnections,
  \<open>recvProtocol\<close> ends without undefined behaviour, and a message it returns has the magic number and
  as many content bytes as its header announces.
\<close>

theorem session_accepts_only_frames:
  assumes "bounded_recv K"
  shows "\<exists>r c'. recvProtocol K c = Inr (r, c') \<and> (\<forall>p. r = Some p \<longrightarrow> frame_accepted p)"
  by (rule recvProtocol_bounded [OF assms])

theorem session_accepts_only_frames_witness:
  "\<exists>r c'. recvProtocol (trickle (\<lambda>_. [9, 1, 5])) trickle_client = Inr (r, c') \<and>
    (\<forall>p. r = Some p \<longrightarrow> frame_accepted p)"
  by (rule session_accepts_only_frames) (rule trickle_bounded)

text \<open>
  C20: the server's reader. \<open>receive_data\<close> ends, having put everything that has arrived, in whatever
  pieces, into one buffer rewound to its start, and publishes it as a message.
\<close>

theorem receive_data_assembles:
  assumes "stream_recv K sent taken answer" and "drains K sent taken answer" and "c_connected c"
  shows "\<exists>b c'. receive_data K c = Some (Inr (True, Some (INCOMING_MSG, b), c')) \<and> ba_inv b \<and>
    ba_rest b = incoming sent taken answer (c_kernel c) \<and> c_connected c'"
  using receive_data_ok [OF assms, of False] by (auto simp: readable_def)

theorem receive_data_assembles_witness:
  "\<exists>b c'. receive_data (trickle (\<lambda>_. [1, 2, 3, 4, 5])) trickle_client =
      Some (Inr (True, Some (INCOMING_MSG, b), c')) \<and> ba_rest b = [1, 2, 3, 4, 5]"
  using receive_data_assembles [OF trickle_recv trickle_drains, of trickle_client "\<lambda>_. [1, 2, 3, 4, 5]"]
  by (auto simp: trickle_client_def incoming_def)

section \<open>Dispatch\<close>

text \<open>
  C17: a call. For a request frame with the encoding of well-typed arguments, the registered function
  is applied to exactly those arguments, once, and the response carries its result, code 0, and the
  sequence number of the request. (What follows the frame in the packet makes no difference.)
\<close>

theorem server_answers_call:
  assumes "readable False Big bt" and "ba_rest bt = frame_bytes p @ zs"
    and "p_magic p = MAGIC" and "p_type p = msg_code RPC_METHOD_REQUEST"
    and "p_content p = request_bytes name (args_bytes vs)" and "request_fits name (args_bytes vs)"
    and "hs name = Some m" and "well_typed_args ops (m_args m) vs" and "m_fun m vs u = (Inr v, u')"
  shows "publish_client_msg ops junk hs True bt u =
    (Inr (Some (Create RPC_METHOD_RESPONSE (result_bytes (success_result (sent_val m v))) (p_seq p))), u')"
proof -
  have len: "length (p_content p) < 2 ^ 32" and ne: "p_content p \<noteq> [] \<or> False"
    using assms(5,6) by (simp_all add: request_fits_def)
  show ?thesis
    using publish_frame [OF assms(1,2) len ne assms(3,4), of ops junk hs True u]
      handle_success [where proto = "(header_of new_protocol p)\<lparr>p_content := p_content p\<rparr>" and hs = hs
        and name = name and m = m, OF _ assms(6-9), of junk]
      assms(5)
    by (simp add: response_to_def header_of_def)
qed

text \<open>A function that adds two integers and counts its calls.\<close>

definition add_method :: "nat rpc_method" where
  "add_method =
     \<lparr>m_args = [TInt32, TInt32], m_ret = Some TInt32,
      m_fun = (\<lambda>vs u. case vs of [VInt32 x, VInt32 y] \<Rightarrow> (Inr (VInt32 (x + y)), Suc u)
                              | _ \<Rightarrow> (Inl User_exception, u))\<rparr>"

definition add_handlers :: "nat handlers" where
  "add_handlers = registerMethod (str_bytes ''add'') add_method Map.empty"

definition no_keys :: key_ops where
  "no_keys = \<lparr>key_less = (\<lambda>_ _. False), key_equal = (=)\<rparr>"

lemma add_call:
  "add_handlers (str_bytes ''add'') = Some add_method"
  "add_handlers [] = None"
  "m_args add_method = [TInt32, TInt32]" "m_ret add_method = Some TInt32"
  "m_fun add_method [VInt32 2, VInt32 3] u = (Inr (VInt32 5), Suc u)"
  "args_bytes [VInt32 2, VInt32 3] = [4, 6]"
  "well_typed_args no_keys [TInt32, TInt32] [VInt32 2, VInt32 3]"
  "request_fits (str_bytes ''add'') [4, 6]" "request_fits [] [4, 6]"
  by (simp_all add: add_handlers_def registerMethod_def add_method_def args_bytes_def EncodeZigzag32_def
      varint_bytes.simps well_typed_args_def request_fits_def request_bytes_def str_bytes_def)

lemma packet_of:
  obtains bt where "readable False Big bt" "ba_rest bt = bs"
  by (rule packet_readable)

theorem server_answers_call_witness:
  "\<exists>bt. ba_rest bt = frame_bytes (request_frame (str_bytes ''add'') [4, 6]) \<and>
    publish_client_msg no_keys (\<lambda>_. VInt32 0) add_handlers True bt 0 =
      (Inr (Some (Create RPC_METHOD_RESPONSE (result_bytes (success_result (VInt32 5))) 0)), 1)"
proof -
  obtain bt where bt: "readable False Big bt" "ba_rest bt = frame_bytes (request_frame (str_bytes ''add'') [4, 6])"
    by (rule packet_of)
  then show ?thesis
    using server_answers_call [OF bt(1), of "request_frame (str_bytes ''add'') [4, 6]" "[]"
        "str_bytes ''add''" "[VInt32 2, VInt32 3]" add_handlers add_method no_keys 0 "VInt32 5" 1 "\<lambda>_. VInt32 0"]
    by (auto simp: add_call sent_val_def)
qed

text \<open>
  A name nobody registered. The response has an empty content, which the caller takes for "no such
  method"; nothing is called.
\<close>

lemma server_unknown_method:
  assumes "readable False Big bt" and "ba_rest bt = frame_bytes p @ zs"
    and "p_magic p = MAGIC" and "p_type p = msg_code RPC_METHOD_REQUEST"
    and "p_content p = request_bytes name arg" and "request_fits name arg" and "hs name = None"
  shows "publish_client_msg ops junk hs True bt u =
    (Inr (Some (Create RPC_METHOD_RESPONSE [] (p_seq p))), u)"
proof -
  have len: "length (p_content p) < 2 ^ 32" and ne: "p_content p \<noteq> [] \<or> False"
    using assms(5,6) by (simp_all add: request_fits_def)
  show ?thesis
    using publish_frame [OF assms(1,2) len ne assms(3,4), of ops junk hs True u]
      handle_unknown [where proto = "(header_of new_protocol p)\<lparr>p_content := p_content p\<rparr>" and hs = hs
        and name = name, OF _ assms(6,7), of ops junk u]
      assms(5,7)
    by (simp add: response_to_def header_of_def)
qed

lemma server_unknown_method_witness:
  "\<exists>bt. ba_rest bt = frame_bytes (request_frame [] [4, 6]) \<and>
    publish_client_msg no_keys (\<lambda>_. VInt32 0) add_handlers True bt 0 =
      (Inr (Some (Create RPC_METHOD_RESPONSE [] 0)), 0)"
proof -
  obtain bt where bt: "readable False Big bt" "ba_rest bt = frame_bytes (request_frame [] [4, 6])"
    by (rule packet_of)
  then show ?thesis
    using server_unknown_method [OF bt(1), of "request_frame [] [4, 6]" "[]" "[]" "[4, 6]" add_handlers
        no_keys "\<lambda>_. VInt32 0" 0]
    by (auto simp: add_call)
qed

text \<open>
  C18: arguments of the wrong type. If reading the function's arguments throws, the function is not
  called and the response says that the parameters do not match (code 2).
\<close>

theorem server_rejects_mismatch:
  assumes "readable False Big bt" and "ba_rest bt = frame_bytes p @ zs"
    and "p_magic p = MAGIC" and "p_type p = msg_code RPC_METHOD_REQUEST"
    and "p_content p = request_bytes name arg" and "request_fits name arg" and "hs name = Some m"
    and "rbind (serializer_of arg) (deser ops (TTuple (m_args m))) = Inl e" and "is_exception e"
  shows "publish_client_msg ops junk hs True bt u =
    (Inr (Some (Create RPC_METHOD_RESPONSE
       (result_bytes (mismatch_result (junk (return_type (m_ret m))))) (p_seq p))), u)"
proof -
  have len: "length (p_content p) < 2 ^ 32" and ne: "p_content p \<noteq> [] \<or> False"
    and small: "length arg < 2 ^ 31"
    using assms(5,6) by (simp_all add: request_fits_def request_bytes_def)
  obtain s where s: "serializer_of arg = Inr s" by (rule serializer_of_ok [OF small, of False]) simp_all
  have fails: "deser ops (TTuple (m_args m)) s = Inl e" using assms(8) s by (simp del: deser.simps)
  show ?thesis
    using publish_frame [OF assms(1,2) len ne assms(3,4), of ops junk hs True u]
      handle_mismatch [where proto = "(header_of new_protocol p)\<lparr>p_content := p_content p\<rparr>" and hs = hs
        and name = name and m = m, OF _ assms(6,7) s fails assms(9), of junk u] assms(5)
    by (simp add: response_to_def header_of_def)
qed

theorem server_rejects_mismatch_witness:
  "\<exists>bt. ba_rest bt = frame_bytes (request_frame (str_bytes ''add'') [4]) \<and>
    publish_client_msg no_keys (\<lambda>_. VInt32 0) add_handlers True bt 0 =
      (Inr (Some (Create RPC_METHOD_RESPONSE (result_bytes (mismatch_result (VInt32 0))) 0)), 0)"
proof -
  let ?v = "VTuple [VInt32 2, VInt32 3]"
  obtain bt where bt: "readable False Big bt" "ba_rest bt = frame_bytes (request_frame (str_bytes ''add'') [4])"
    by (rule packet_of)
  have enc: "enc Big ?v = [4, 6]" using add_call(6) by (simp add: args_bytes_def)
  obtain s where s: "serializer_of [4] = Inr s" "readable True Big s" "ba_rest s = [4]"
    by (rule serializer_of_ok [of "[4]" True]) simp_all
  have typed: "has_type (TTuple [TInt32, TInt32]) ?v" "storable no_keys ?v" by simp_all
  have cut: "ba_rest s = take 1 (enc Big ?v)" and less: "1 < length (enc Big ?v)" by (simp_all only: enc s(3)) simp_all
  have fails: "deser no_keys (TTuple [TInt32, TInt32]) s = Inl Out_of_range"
    by (rule starvesD [OF deser_starves [OF typed] s(2) less cut]) blast
  have fits: "request_fits (str_bytes ''add'') [4]"
    by (simp add: request_fits_def request_bytes_def str_bytes_def varint_bytes.simps)
  show ?thesis
    using bt server_rejects_mismatch [OF bt(1), of "request_frame (str_bytes ''add'') [4]" "[]"
        "str_bytes ''add''" "[4]" add_handlers add_method no_keys Out_of_range "\<lambda>_. VInt32 0" 0]
      fits fails s(1)
    by (auto simp: add_call simp del: deser.simps)
qed

text \<open>
  C19: a packet that holds only the beginning of a frame is dropped: no response, no call, and the
  rest, arriving in a later packet, cannot complete it. Only requests are answered: a frame of another
  type or with another magic number is ignored in the same way.
\<close>

theorem server_drops_incomplete_and_foreign:
  assumes "readable False Big bt" and "length (p_content p) < 2 ^ 32" and "p_content p \<noteq> []"
    and "n < length (frame_bytes p) \<and> ba_rest bt = take n (frame_bytes p) \<or>
      (p_magic p \<noteq> MAGIC \<or> p_type p \<noteq> msg_code RPC_METHOD_REQUEST) \<and> ba_rest bt = frame_bytes p @ zs"
  shows "publish_client_msg ops junk hs connected bt u = (Inr None, u)"
proof -
  have ne: "p_content p \<noteq> [] \<or> False" using assms(3) by simp
  show ?thesis
    using assms(4)
  proof
    assume "n < length (frame_bytes p) \<and> ba_rest bt = take n (frame_bytes p)"
    then have "decode new_protocol bt = Inl Out_of_range"
      using starvesD [OF decode_starves [OF assms(2) ne] assms(1)] by blast
    then show ?thesis by (simp add: publish_client_msg_def)
  next
    assume foreign: "(p_magic p \<noteq> MAGIC \<or> p_type p \<noteq> msg_code RPC_METHOD_REQUEST) \<and> ba_rest bt = frame_bytes p @ zs"
    then obtain bt' where
      "decode new_protocol bt = Inr ((header_of new_protocol p)\<lparr>p_content := p_content p\<rparr>, bt')"
      using parsesD [OF decode_parses [OF assms(2) ne] assms(1)] by metis
    then show ?thesis using foreign by (auto simp: publish_client_msg_def header_of_def)
  qed
qed

theorem server_drops_incomplete_and_foreign_witness:
  "\<exists>bt. ba_rest bt = take 12 (frame_bytes (request_frame (str_bytes ''add'') [4, 6])) \<and>
    publish_client_msg no_keys (\<lambda>_. VInt32 0) add_handlers True bt 0 = (Inr None, 0)"
proof -
  let ?p = "request_frame (str_bytes ''add'') [4, 6]"
  obtain bt where bt: "readable False Big bt" "ba_rest bt = take 12 (frame_bytes ?p)"
    by (rule packet_of)
  have "12 < length (frame_bytes ?p)" "length (p_content ?p) < 2 ^ 32"
    using add_call(8)
    by (simp_all add: length_frame_bytes BASE_LENGTH_def request_fits_def request_bytes_def str_bytes_def varint_bytes.simps)
  then show ?thesis
    using bt server_drops_incomplete_and_foreign [OF bt(1), of ?p 12] by fastforce
qed

end
