(* ===== verification/ResponseTheorems.thy ===== *)
theory ResponseTheorems
  imports ResponseWriters CallTheorems
begin

text \<open>
  What holds of the tasks that send responses: their frames never interleave on the wire, they all
  get sent, and each task by itself does what \<open>sendProtocol\<close> does.
\<close>

section \<open>Progress\<close>

text \<open>How many steps a task can still make.\<close>

fun task_work :: "write_task \<Rightarrow> nat" where
  "task_work \<lparr>wt_resp = p, wt_phase = Waiting\<rparr> = length (frame_bytes p) + 2"
| "task_work \<lparr>wt_resp = p, wt_phase = Writing len left b\<rparr> = left + 1"
| "task_work \<lparr>wt_resp = p, wt_phase = Finished n\<rparr> = 0"

definition work :: "'k conn_writers \<Rightarrow> nat" where
  "work s = sum_list (map task_work (cw_tasks s))"

lemma task_work_eq:
  "task_work t = (case wt_phase t of Waiting \<Rightarrow> length (frame_bytes (wt_resp t)) + 2
    | Writing len left b \<Rightarrow> left + 1 | Finished n \<Rightarrow> 0)"
  by (cases t rule: task_work.cases) simp_all

lemma work_decreases:
  assumes "i < length (cw_tasks s)" and "cw_tasks s' = cw_tasks (set_phase i ph s)"
    and "task_work ((cw_tasks s ! i)\<lparr>wt_phase := ph\<rparr>) < task_work (cw_tasks s ! i)"
  shows "work s' < work s"
proof -
  let ?t = "(cw_tasks s ! i)\<lparr>wt_phase := ph\<rparr>"
  have "sum_list (map task_work ((cw_tasks s)[i := ?t])) + task_work (cw_tasks s ! i) =
      sum_list (map task_work (cw_tasks s)) + task_work ?t"
    using assms(1) member_le_sum_list [of "task_work (cw_tasks s ! i)" "map task_work (cw_tasks s)"]
    by (simp add: map_update sum_list_update)
  then show ?thesis using assms(2,3) by (simp add: work_def set_phase_def)
qed

lemma task_step_work:
  assumes "task_step K s s'"
  shows "work s' < work s"
  using assms
proof cases
  case (lock i)
  obtain b where b: "ba_rest b = frame_bytes (wt_resp (cw_tasks s ! i))"
      "s' = set_phase i (Writing (length (ba_rest b)) (length (ba_rest b)) b) (s\<lparr>cw_holder := Some i\<rparr>)"
    using task_lock_effect [OF lock(3)] by blast
  show ?thesis
    by (rule work_decreases [OF lock(1), where ph = "Writing (length (ba_rest b)) (length (ba_rest b)) b"])
      (use lock(2) b in \<open>simp_all add: set_phase_def task_work_eq phase_of_def\<close>)
next
  case (write_some i len left b)
  note smaller = work_decreases [OF write_some(1)]
  have work_i: "task_work (cw_tasks s ! i) = left + 1"
    using write_some(2) by (simp add: task_work_eq phase_of_def)
  show ?thesis
  proof (cases "left = 0")
    case True
    then show ?thesis using write_some work_i
      by (intro smaller [of s' "Finished (int len)"]) (auto simp: task_write_def set_phase_def task_work_eq)
  next
    case False
    then obtain n b' c' where w: "session_write_ba K left b (cw_client s) = Inr (n, b', c')"
      using write_some by (cases "session_write_ba K left b (cw_client s)") (auto simp: task_write_def)
    show ?thesis
    proof (cases "n \<le> 0")
      case True
      then show ?thesis using write_some work_i w False
        by (intro smaller [of s' "Finished n"]) (auto simp: task_write_def set_phase_def task_work_eq)
    next
      case pos: False
      then show ?thesis using write_some work_i w False
        by (intro smaller [of s' "Writing len (left - nat n) b'"]) (auto simp: task_write_def set_phase_def task_work_eq)
    qed
  qed
qed

lemma task_steps_bound: "(task_step K ^^ n) s t \<Longrightarrow> n + work t \<le> work s"
proof (induction n arbitrary: t)
  case (Suc n)
  then obtain u where "(task_step K ^^ n) s u" "task_step K u t" by auto
  then show ?case using Suc.IH task_step_work by fastforce
qed simp

text \<open>While the connection is up no task has failed.\<close>

definition unfailed :: "'k conn_writers \<Rightarrow> bool" where
  "unfailed s \<longleftrightarrow> (c_connected (cw_client s) \<longrightarrow>
     (\<forall>i < length (cw_tasks s). \<forall>n. phase_of s i = Finished n \<longrightarrow> 0 < n))"

lemma unfailed_set_phase:
  assumes "unfailed s" and "i < length (cw_tasks s)" and "cw_tasks s' = cw_tasks (set_phase i ph s)"
    and "c_connected (cw_client s') \<Longrightarrow> c_connected (cw_client s) \<and> (\<forall>n. ph = Finished n \<longrightarrow> 0 < n)"
  shows "unfailed s'"
proof -
  have "phase_of s' j = (if j = i then ph else phase_of s j)" "length (cw_tasks s') = length (cw_tasks s)" for j
    using assms(2,3) phase_of_simps(4) [OF assms(2), of ph j] by (simp_all add: phase_of_def)
  then show ?thesis using assms(1,4) by (auto simp: unfailed_def)
qed

lemma unfailed_conn:
  assumes "append_send K sent" and "wire_inv sent start s order xs" and "unfailed s" and "conn_step K s s'"
  shows "unfailed s'"
  using assms(4)
proof cases
  case task
  then show ?thesis
  proof cases
    case (lock i)
    then obtain n b where "s' = set_phase i (Writing n n b) (s\<lparr>cw_holder := Some i\<rparr>)"
      using task_lock_effect by blast
    then show ?thesis
      by (rule_tac unfailed_set_phase [OF assms(3) lock(1), of s' "Writing n n b"]) (simp_all add: set_phase_def)
  next
    case (write_some i len left b)
    have m: "len = length (frame_of s i)" "readable False Big b" "left \<le> length (ba_rest b)"
      using wire_inv_writing(2-5) [OF assms(2) write_some(1,2)] by simp_all
    have pos: "0 < len" using m(1) by simp
    from assms(1) write_some(2,1) m(2,3) write_some(3) show ?thesis
    proof (cases rule: task_write_cases)
      case returned
      then show ?thesis
        using pos by (rule_tac unfailed_set_phase [OF assms(3) write_some(1), of s' "Finished (int len)"]) (simp_all add: set_phase_def)
    next
      case (failed n c)
      then show ?thesis
        by (rule_tac unfailed_set_phase [OF assms(3) write_some(1), of s' "Finished n"]) (simp_all add: set_phase_def)
    next
      case (wrote n b' c)
      then show ?thesis
        by (rule_tac unfailed_set_phase [OF assms(3) write_some(1), of s' "Writing len (left - n) b'"])
          (simp_all add: set_phase_def)
    qed
  qed
next
  case (received n r c)
  then show ?thesis
    using assms(3) client_recv_sent [OF assms(1) received(2)] by (simp add: unfailed_def)
qed (use assms(3) in \<open>simp_all add: unfailed_def set_connected_def\<close>)

lemma unfailed_step:
  assumes "append_send K sent" and "wire_inv sent start s order xs" and "unfailed s" and "writer_step K s s'"
  shows "unfailed s'"
  using assms(4)
proof cases
  case (submitted p)
  then show ?thesis
    using assms(3) by (auto simp: unfailed_def submit_response_def phase_of_def nth_append less_Suc_eq)
qed (rule unfailed_conn [OF assms(1-3)])

lemma unfailed_reach:
  assumes "append_send K sent" and "(writer_step K)\<^sup>*\<^sup>* (new_writers c) s"
  shows "unfailed s"
  using assms(2)
proof (induction rule: rtranclp_induct)
  case base
  show ?case by (simp add: unfailed_def new_writers_def)
next
  case (step s s')
  obtain order xs where "wire_inv sent (sent (c_kernel c)) s order xs"
    by (rule wire_inv_reach [OF assms(1) step.hyps(1)])
  from unfailed_step [OF assms(1) this step.IH step.hyps(2)] show ?case .
qed

section \<open>A task by itself\<close>

lemma set_phase_simps [simp]:
  "set_phase i p (set_phase i q s) = set_phase i p s"
  "set_phase i p (s\<lparr>cw_client := c\<rparr>) = (set_phase i p s)\<lparr>cw_client := c\<rparr>"
  "set_phase i p (s\<lparr>cw_holder := h\<rparr>) = (set_phase i p s)\<lparr>cw_holder := h\<rparr>"
  by (cases "i < length (cw_tasks s)"; simp add: set_phase_def list_update_beyond)+

lemma writing_alone:
  assumes "i < length (cw_tasks s)" and "phase_of s i = Writing len left b"
    and "writeFixSize_ba_loop K len left b (cw_client s) = Inr (n, b', c')"
  shows "(task_step K)\<^sup>*\<^sup>* s (set_phase i (Finished n) (s\<lparr>cw_holder := None, cw_client := c'\<rparr>))"
  using assms
proof (induction left arbitrary: s b rule: less_induct)
  case (less left)
  note loop = less.prems(3) [unfolded writeFixSize_ba_loop.simps [of K len left b]]
  note step = write_some [where K = K, OF less.prems(1,2)]
  show ?case
  proof (cases "left = 0")
    case True
    then have "task_write K i s = Inr (set_phase i (Finished n) (s\<lparr>cw_holder := None, cw_client := c'\<rparr>))"
      using loop less.prems(2) by (auto simp: task_write_def)
    then show ?thesis using step by blast
  next
    case False
    then obtain m d k where w: "session_write_ba K left b (cw_client s) = Inr (m, d, k)"
      using loop by (cases "session_write_ba K left b (cw_client s)") auto
    show ?thesis
    proof (cases "m \<le> 0")
      case True
      then have "task_write K i s = Inr (set_phase i (Finished n) (s\<lparr>cw_holder := None, cw_client := c'\<rparr>))"
        using loop w False less.prems(2) by (auto simp: task_write_def)
      then show ?thesis using step by blast
    next
      case pos: False
      let ?s = "set_phase i (Writing len (left - nat m) d) (s\<lparr>cw_client := k\<rparr>)"
      have "task_write K i s = Inr ?s" using w False pos less.prems(2) by (simp add: task_write_def)
      then have "task_step K s ?s" by (rule step)
      moreover have "(task_step K)\<^sup>*\<^sup>* ?s (set_phase i (Finished n) (?s\<lparr>cw_holder := None, cw_client := c'\<rparr>))"
        using loop w False pos less.prems(1) by (intro less.IH [of "left - nat m"]) auto
      ultimately show ?thesis by simp
    qed
  qed
qed

lemma task_alone:
  assumes "i < length (cw_tasks s)" and "phase_of s i = Waiting" and "cw_holder s = None" and "cw_mtx s"
    and "sendProtocol K (wt_resp (cw_tasks s ! i)) (cw_client s) = Inr (n, c')"
  shows "(task_step K)\<^sup>*\<^sup>* s (set_phase i (Finished n) (s\<lparr>cw_client := c'\<rparr>))"
proof -
  obtain b b' where b: "encode (wt_resp (cw_tasks s ! i)) = Inr b"
      "writeFixSize_ba_loop K (getReadSize b) (getReadSize b) b (cw_client s) = Inr (n, b', c')"
    using assms(5) by (auto simp: sendProtocol_def writeFixSize_ba_def rbind_def split: sum.splits prod.splits)
  let ?s = "set_phase i (Writing (getReadSize b) (getReadSize b) b) (s\<lparr>cw_holder := Some i\<rparr>)"
  have "task_lock i s = Inr (Some ?s)" unfolding task_lock_def b(1) using assms(3,4) by simp
  then have "task_step K s ?s" by (rule lock [OF assms(1,2)])
  moreover have "(task_step K)\<^sup>*\<^sup>* ?s (set_phase i (Finished n) (?s\<lparr>cw_holder := None, cw_client := c'\<rparr>))"
    by (rule writing_alone) (use assms(1) b(2) in simp_all)
  moreover have "set_phase i (Finished n) (?s\<lparr>cw_holder := None, cw_client := c'\<rparr>) =
      set_phase i (Finished n) (s\<lparr>cw_client := c'\<rparr>)"
  proof -
    have "(set_phase i (Finished n) s)\<lparr>cw_holder := None\<rparr> = set_phase i (Finished n) s"
      using assms(3) by (cases s) (simp add: set_phase_def)
    then show ?thesis by simp
  qed
  ultimately show ?thesis by (simp add: converse_rtranclp_into_rtranclp)
qed

section \<open>Until everything is sent\<close>

lemma task_step_healthy:
  assumes "stream_send K sent taken" and "wire_inv sent start s order xs" and "c_connected (cw_client s)"
    and "task_step K s s'"
  shows "c_connected (cw_client s')" "cw_mtx s' = cw_mtx s" "map wt_resp (cw_tasks s') = map wt_resp (cw_tasks s)"
proof -
  have resps: "map wt_resp (cw_tasks (set_phase i ph s)) = map wt_resp (cw_tasks s)" if "i < length (cw_tasks s)" for i ph
    using that by (simp add: set_phase_def map_update) (metis list_update_id nth_map)
  have "c_connected (cw_client s') \<and> cw_mtx s' = cw_mtx s \<and> map wt_resp (cw_tasks s') = map wt_resp (cw_tasks s)"
    using assms(4)
  proof cases
    case (lock i)
    then obtain n b where "s' = set_phase i (Writing n n b) (s\<lparr>cw_holder := Some i\<rparr>)"
      using task_lock_effect by blast
    then show ?thesis using assms(3) resps lock(1) by simp
  next
    case (write_some i len left b)
    note now = wire_inv_writing [OF assms(2) write_some(1,2)]
    show ?thesis
    proof (cases "left = 0")
      case True
      then show ?thesis using write_some assms(3) resps by (auto simp: task_write_def)
    next
      case False
      then obtain n b' c' where "session_write_ba K left b (cw_client s) = Inr (int n, b', c')" "0 < n" "c_connected c'"
        using session_write_ba_ok [OF assms(1) now(4) assms(3), of left thesis] now(3,5) by simp
      then show ?thesis using write_some False resps by (auto simp: task_write_def)
    qed
  qed
  then show "c_connected (cw_client s')" "cw_mtx s' = cw_mtx s" "map wt_resp (cw_tasks s') = map wt_resp (cw_tasks s)"
    by blast+
qed

lemma conn_step_resps:
  assumes "conn_step K w w'"
  shows "map wt_resp (cw_tasks w') = map wt_resp (cw_tasks w)"
proof -
  have keep: "map wt_resp (cw_tasks (set_phase i ph s)) = map wt_resp (cw_tasks s)" if "i < length (cw_tasks s)"
    for i ph and s :: "'a conn_writers"
    using that by (simp add: set_phase_def map_update) (metis list_update_id nth_map)
  have "map wt_resp (cw_tasks w') = map wt_resp (cw_tasks w)" if "task_step K w w'"
    using that
  proof cases
    case (lock i)
    then obtain n b where "w' = set_phase i (Writing n n b) (w\<lparr>cw_holder := Some i\<rparr>)"
      using task_lock_effect by blast
    then show ?thesis using keep lock(1) by simp
  next
    case (write_some i len left b)
    then show ?thesis
      using keep by (auto simp: task_write_def rbind_def split: if_splits sum.splits)
  qed
  with assms show ?thesis by (elim conn_stepE) simp_all
qed

lemma stuck_done:
  assumes "append_send K sent" and "wire_inv sent start s order xs" and "unfailed s" and "c_connected (cw_client s)"
    and "cw_mtx s" and "\<nexists>u. task_step K s u"
  shows "set order = {..<length (cw_tasks s)}" "xs = []"
proof -
  have idle: "cw_holder s = None"
  proof (rule ccontr)
    assume "cw_holder s \<noteq> None"
    then obtain i where "i < length (cw_tasks s)" "midway s i xs" using assms(2) by (auto simp: wire_inv_def)
    then obtain len left b where i: "i < length (cw_tasks s)" "phase_of s i = Writing len left b"
        "readable False Big b" "left \<le> length (ba_rest b)"
      by (auto simp: midway_def)
    obtain n b' c' where "session_write_ba K left b (cw_client s) = Inr (n, b', c')"
      by (rule session_write_ba_effect [OF assms(1) i(3,4), of "cw_client s"]) blast
    then have "\<exists>u. task_write K i s = Inr u" using i(2) by (simp add: task_write_def)
    then show False using write_some [of i s len left b K] i(1,2) assms(6) by blast
  qed
  then show "xs = []" using assms(2,4) by (simp add: wire_inv_def remnant_def)
  have "i \<in> whole s" if i: "i < length (cw_tasks s)" for i
  proof (cases "phase_of s i")
    case Waiting
    obtain b where "encode (wt_resp (cw_tasks s ! i)) = Inr b"
      by (rule encode_ok [of False "wt_resp (cw_tasks s ! i)"]) auto
    then have "\<exists>u. task_lock i s = Inr (Some u)" using idle assms(5) by (simp add: task_lock_def)
    then show ?thesis using lock [OF i Waiting, of _ K] assms(6) by blast
  next
    case (Writing len left b)
    then show ?thesis using wire_inv_writing(1) [OF assms(2) i] idle by auto
  next
    case (Finished n)
    then show ?thesis using assms(3,4) i by (auto simp: unfailed_def whole_def)
  qed
  then show "set order = {..<length (cw_tasks s)}" using assms(2) by (auto simp: wire_inv_def whole_def)
qed

lemma tasks_are_steps: "(task_step K)\<^sup>*\<^sup>* s t \<Longrightarrow> (writer_step K)\<^sup>*\<^sup>* s t"
  by (induction rule: rtranclp_induct) (auto intro: task other rtranclp.rtrancl_into_rtrancl)

lemma distinct_singleton: "distinct xs \<Longrightarrow> set xs = {x} \<Longrightarrow> xs = [x]"
  by (cases xs) (auto simp: subset_singleton_iff)

section \<open>Without the lock's entry\<close>

text \<open>
  A response can be submitted while the connection is up and its task start after the reader has lost
  the connection and the cleaner has erased the lock: then the task dereferences a null pointer.
\<close>

lemma three_steps: "r a b \<Longrightarrow> r b c \<Longrightarrow> r c d \<Longrightarrow> r\<^sup>*\<^sup>* a d"
  by (rule rtranclp.rtrancl_into_rtrancl [OF rtranclp.rtrancl_into_rtrancl [OF r_into_rtranclp]])

lemma late_response_dereferences_null:
  assumes "c_connected c"
  shows "\<exists>s. (writer_step K)\<^sup>*\<^sup>* (new_writers c) s \<and> phase_of s 0 = Waiting \<and> cw_tasks s \<noteq> [] \<and>
    task_lock 0 s = Inl Null_deref"
proof -
  let ?s1 = "submit_response p (new_writers c)" and ?off = "set_connected False c"
  let ?s2 = "?s1\<lparr>cw_client := ?off\<rparr>"
  have s1: "?s1 = \<lparr>cw_client = c, cw_mtx = True, cw_holder = None, cw_tasks = [\<lparr>wt_resp = p, wt_phase = Waiting\<rparr>]\<rparr>"
    using assms by (simp add: submit_response_def new_writers_def)
  have "writer_step K (new_writers c) ?s1" by (rule submitted)
  moreover have "writer_step K ?s1 ?s2" using other [OF lost [of K ?s1]] by (simp add: s1)
  moreover have "writer_step K ?s2 (?s2\<lparr>cw_mtx := False\<rparr>)" by (intro other cleaned) (simp add: set_connected_def)
  ultimately have "(writer_step K)\<^sup>*\<^sup>* (new_writers c) (?s2\<lparr>cw_mtx := False\<rparr>)" by (rule three_steps)
  moreover have "phase_of (?s2\<lparr>cw_mtx := False\<rparr>) 0 = Waiting" by (simp add: s1 phase_of_def)
  moreover have "task_lock 0 (?s2\<lparr>cw_mtx := False\<rparr>) = Inl Null_deref" by (simp add: task_lock_def)
  ultimately show ?thesis by (intro exI [of _ "?s2\<lparr>cw_mtx := False\<rparr>"]) (simp add: s1)
qed

section \<open>Properties\<close>

text \<open>
  C15: responses do not interleave. Whatever the order in which responses are submitted, tasks start
  and proceed (a few bytes at a time), the peer's data are received, and the connection is lost and
  cleaned up, the bytes sent on it are always the frames of the tasks that reported success, one after
  the other, and then at most a part of one more frame; that part is empty while the connection is up
  and nobody holds the lock. At most one task is writing.
\<close>

theorem responses_never_interleave:
  assumes "append_send K sent" and "(writer_step K)\<^sup>*\<^sup>* (new_writers c) s"
  shows "(\<exists>order xs. distinct order \<and> set order = whole s \<and>
      sent (c_kernel (cw_client s)) = sent (c_kernel c) @ concat (map (frame_of s) order) @ xs \<and>
      (xs = [] \<or> (\<exists>i < length (cw_tasks s). i \<notin> whole s \<and> prefix xs (frame_of s i))) \<and>
      (c_connected (cw_client s) \<and> cw_holder s = None \<longrightarrow> xs = [])) \<and>
    (\<forall>i < length (cw_tasks s). \<forall>len left b. phase_of s i = Writing len left b \<longrightarrow> cw_holder s = Some i)"
proof -
  obtain order xs where inv: "wire_inv sent (sent (c_kernel c)) s order xs" by (rule wire_inv_reach [OF assms])
  note wire_inv_part [OF inv]
  moreover have "c_connected (cw_client s) \<and> cw_holder s = None \<longrightarrow> xs = []"
    using inv by (auto simp: wire_inv_def remnant_def)
  ultimately show ?thesis using inv unfolding wire_inv_def by blast
qed

lemma trickle_append: "append_send (trickle answer) fst"
  by (auto simp: append_send_def trickle_def Let_def min_def)

text \<open>One response, from its submission to its end.\<close>

lemma one_response:
  obtains s t where "(writer_step (trickle answer))\<^sup>*\<^sup>* (new_writers trickle_client) s"
    "(task_step (trickle answer))\<^sup>*\<^sup>* s t" "c_connected (cw_client s)" "cw_mtx s" "length (cw_tasks s) = 1"
    "frame_of s = frame_of t" "frame_of s 0 = frame_bytes p" "whole t = {0}" "cw_holder t = None" "c_connected (cw_client t)"
    "\<nexists>u. task_step (trickle answer) t u"
proof -
  let ?c = trickle_client and ?n = "int (length (frame_bytes p))"
  let ?s = "submit_response p (new_writers ?c)"
  have s: "?s = \<lparr>cw_client = ?c, cw_mtx = True, cw_holder = None, cw_tasks = [\<lparr>wt_resp = p, wt_phase = Waiting\<rparr>]\<rparr>"
    by (simp add: submit_response_def new_writers_def trickle_client_def)
  have "c_connected ?c" by (simp add: trickle_client_def)
  then obtain c' where c': "sendProtocol (trickle answer) p ?c = Inr (?n, c')" "c_connected c'"
    using sendProtocol_ok [OF trickle_send, of ?c answer p] by metis
  let ?t = "set_phase 0 (Finished ?n) (?s\<lparr>cw_client := c'\<rparr>)"
  have "(task_step (trickle answer))\<^sup>*\<^sup>* ?s ?t"
    by (rule task_alone) (use c'(1) in \<open>simp_all add: s phase_of_def\<close>)
  moreover have "(writer_step (trickle answer))\<^sup>*\<^sup>* (new_writers ?c) ?s" by (rule r_into_rtranclp, rule submitted)
  moreover have phase: "phase_of ?t j = Finished ?n" if "j < length (cw_tasks ?t)" for j
    using that by (simp add: s phase_of_def set_phase_def)
  moreover have "length (cw_tasks ?t) = 1" by (simp add: s)
  moreover have "frame_of ?s = frame_of ?t" "frame_of ?s 0 = frame_bytes p"
    by (simp_all add: s frame_of_def set_phase_def fun_eq_iff)
  moreover have "whole ?t = {0}"
    using phase \<open>length (cw_tasks ?t) = 1\<close> by (auto simp: whole_def length_frame_bytes BASE_LENGTH_def)
  moreover have "\<nexists>u. task_step (trickle answer) ?t u" using phase by (auto elim!: task_stepE)
  moreover have "c_connected (cw_client ?s)" "cw_mtx ?s" "length (cw_tasks ?s) = 1" "cw_holder ?t = None"
      "c_connected (cw_client ?t)"
    using \<open>c_connected ?c\<close> by (simp_all add: s c'(2))
  ultimately show thesis by (rule_tac that [of ?s ?t]) blast+
qed

theorem responses_never_interleave_witness:
  "\<exists>s :: (byte list \<times> nat) conn_writers. whole s = {0} \<and> fst (c_kernel (cw_client s)) = frame_bytes (Create RPC_METHOD_RESPONSE [7] 1)"
proof -
  obtain s t where st: "(writer_step (trickle id))\<^sup>*\<^sup>* (new_writers trickle_client) s"
      "(task_step (trickle id))\<^sup>*\<^sup>* s t" "frame_of s = frame_of t"
      "frame_of s 0 = frame_bytes (Create RPC_METHOD_RESPONSE [7] 1)"
      "whole t = {0}" "cw_holder t = None" "c_connected (cw_client t)"
    by (rule one_response [of id "Create RPC_METHOD_RESPONSE [7] 1"]) blast
  have "(writer_step (trickle id))\<^sup>*\<^sup>* (new_writers trickle_client) t"
    using st(1) tasks_are_steps [OF st(2)] by (rule rtranclp_trans)
  from responses_never_interleave [OF trickle_append this]
  obtain order where "distinct order" "set order = {0}" "fst (c_kernel (cw_client t)) = concat (map (frame_of t) order)"
    using st(5-7) by (auto simp: trickle_client_def)
  moreover from this have "order = [0]" by (simp add: distinct_singleton)
  ultimately show ?thesis using st(3-5) by (intro exI [of _ t]) simp
qed

text \<open>
  Every response is sent. Over a stream socket that makes progress the tasks stop: from a state in
  which the connection is up they make at most \<open>work s\<close> steps, whoever goes first, and when none can go
  on, each response has been sent whole and once.
\<close>

lemma responses_all_sent:
  assumes "stream_send K sent taken" and "append_send K sent"
    and "(writer_step K)\<^sup>*\<^sup>* (new_writers c) s" and "c_connected (cw_client s)" and "cw_mtx s"
  shows "(\<forall>n t. (task_step K ^^ n) s t \<longrightarrow> n \<le> work s) \<and>
    (\<forall>t. (task_step K)\<^sup>*\<^sup>* s t \<longrightarrow> (\<nexists>u. task_step K t u) \<longrightarrow>
      (\<exists>order. distinct order \<and> set order = {..<length (cw_tasks s)} \<and>
        sent (c_kernel (cw_client t)) = sent (c_kernel c) @ concat (map (frame_of s) order)))"
proof (intro conjI allI impI)
  fix n t
  assume "(task_step K ^^ n) s t"
  from task_steps_bound [OF this] show "n \<le> work s" by simp
next
  fix t
  assume run: "(task_step K)\<^sup>*\<^sup>* s t" and stuck: "\<nexists>u. task_step K t u"
  have "(writer_step K)\<^sup>*\<^sup>* (new_writers c) t \<and> c_connected (cw_client t) \<and> cw_mtx t \<and>
      map wt_resp (cw_tasks t) = map wt_resp (cw_tasks s)"
    using run
  proof (induction rule: rtranclp_induct)
    case (step t u)
    then obtain order xs where inv: "wire_inv sent (sent (c_kernel c)) t order xs"
      using wire_inv_reach [OF assms(2)] by blast
    show ?case
      using task_step_healthy [OF assms(1) inv _ step.hyps(2)] step.IH other [OF task [OF step.hyps(2)]]
      by (auto intro: rtranclp.rtrancl_into_rtrancl)
  qed (use assms(3-5) in simp)
  then have t: "(writer_step K)\<^sup>*\<^sup>* (new_writers c) t" "c_connected (cw_client t)" "cw_mtx t"
    and resps: "map wt_resp (cw_tasks t) = map wt_resp (cw_tasks s)"
    by blast+
  obtain order xs where inv: "wire_inv sent (sent (c_kernel c)) t order xs"
    by (rule wire_inv_reach [OF assms(2) t(1)])
  note sent_all = stuck_done [OF assms(2) inv unfailed_reach [OF assms(2) t(1)] t(2,3) stuck]
  have same: "frame_of t = frame_of s" "length (cw_tasks t) = length (cw_tasks s)"
    using map_eq_imp_length_eq [OF resps] by (simp_all add: frame_of_def fun_eq_iff resps)
  have "distinct order" "sent (c_kernel (cw_client t)) = sent (c_kernel c) @ concat (map (frame_of s) order)"
    using inv sent_all(2) unfolding wire_inv_def same by simp_all
  then show "\<exists>order. distinct order \<and> set order = {..<length (cw_tasks s)} \<and>
      sent (c_kernel (cw_client t)) = sent (c_kernel c) @ concat (map (frame_of s) order)"
    using sent_all(1) unfolding same by blast
qed

lemma responses_all_sent_witness:
  "\<exists>t :: (byte list \<times> nat) conn_writers. whole t = {0} \<and> fst (c_kernel (cw_client t)) = frame_bytes (Create RPC_METHOD_RESPONSE [7] 1)"
proof -
  obtain s t where st: "(writer_step (trickle id))\<^sup>*\<^sup>* (new_writers trickle_client) s"
      "(task_step (trickle id))\<^sup>*\<^sup>* s t" "c_connected (cw_client s)" "cw_mtx s" "length (cw_tasks s) = 1"
      "frame_of s 0 = frame_bytes (Create RPC_METHOD_RESPONSE [7] 1)" "whole t = {0}"
      "\<nexists>u. task_step (trickle id) t u"
    by (rule one_response [of id "Create RPC_METHOD_RESPONSE [7] 1"]) blast
  from responses_all_sent [OF trickle_send trickle_append st(1,3,4)] st(2,8)
  obtain order where "distinct order" "set order = {..<length (cw_tasks s)}"
      "fst (c_kernel (cw_client t)) = concat (map (frame_of s) order)"
    by (auto simp: trickle_client_def)
  moreover from this have "order = [0]" using st(5) by (simp add: distinct_singleton lessThan_Suc)
  ultimately show ?thesis using st(6,7) by (intro exI [of _ t]) simp
qed



end
