(* ===== verification/RPCSystem.thy ===== *)
theory RPCSystem
  imports ResponseTheorems
begin

text \<open>
  The server as a whole: any number of connections, the state of the program around the registered
  functions, and the tasks that receive, dispatch and respond, in any interleaving. \<open>TcpServer::run\<close>
  accepts connections and submits the receiving tasks; a receiving task that has drained its socket
  dispatches the packet (\<open>RPCServer::publish_client_msg\<close>) and submits the response.
\<close>

section \<open>Model\<close>

text \<open>
  What the dispatch of a packet leads to: a response to submit, nothing, or the end of the process. An
  exception stays in the task.
\<close>

definition packet_buffer :: "byte list \<Rightarrow> byte_array outcome" where
  "packet_buffer bs = rbind (ba_write bs (new_byte_array 4096)) (setPosition 0)"

definition handle_packet ::
    "key_ops \<Rightarrow> (ty \<Rightarrow> val) \<Rightarrow> 'u handlers \<Rightarrow> bool \<Rightarrow> byte list \<Rightarrow> 'u \<Rightarrow> protocol option outcome \<times> 'u" where
  "handle_packet ops junk hs connected bs u =
     (case packet_buffer bs of
        Inl e \<Rightarrow> (Inl e, u)
      | Inr bt \<Rightarrow>
          (case publish_client_msg ops junk hs connected bt u of
             (Inr r, u') \<Rightarrow> (Inr r, u')
           | (Inl e, u') \<Rightarrow> (if is_exception e then Inr None else Inl e, u')))"

definition respond :: "protocol option \<Rightarrow> 'k conn_writers \<Rightarrow> 'k conn_writers" where
  "respond r w = (case r of None \<Rightarrow> w | Some p \<Rightarrow> submit_response p w)"

record ('u, 'k) rpc_system =
  sy_user :: 'u
  sy_conns :: "'k conn_writers list"

definition new_rpc_system :: "'u \<Rightarrow> ('u, 'k) rpc_system" where
  "new_rpc_system u = \<lparr>sy_user = u, sy_conns = []\<rparr>"

text \<open>
  Steps: a connection is accepted, its kernel in state \<open>k0\<close>; the task of connection \<open>i\<close> dispatches a
  packet, whatever bytes it holds; something else happens to a connection. A handled packet is recorded
  with its connection and whether that was up.
\<close>

type_synonym packet = "nat \<times> bool \<times> byte list"

inductive rpc_step ::
    "'k kernel \<Rightarrow> 'k \<Rightarrow> key_ops \<Rightarrow> (ty \<Rightarrow> val) \<Rightarrow> 'u handlers \<Rightarrow>
      ('u, 'k) rpc_system \<Rightarrow> packet list \<Rightarrow> ('u, 'k) rpc_system \<Rightarrow> bool"
  for K k0 ops junk hs where
  accepted: "rpc_step K k0 ops junk hs s []
    (s\<lparr>sy_conns := sy_conns s @ [new_writers \<lparr>c_connected = True, c_kernel = k0\<rparr>]\<rparr>)"
| handled: "i < length (sy_conns s) \<Longrightarrow> up = c_connected (cw_client (sy_conns s ! i)) \<Longrightarrow>
    handle_packet ops junk hs up bs (sy_user s) = (Inr r, u) \<Longrightarrow>
    rpc_step K k0 ops junk hs s [(i, up, bs)]
      (s\<lparr>sy_user := u, sy_conns := (sy_conns s)[i := respond r (sy_conns s ! i)]\<rparr>)"
| moved: "i < length (sy_conns s) \<Longrightarrow> conn_step K (sy_conns s ! i) w \<Longrightarrow>
    rpc_step K k0 ops junk hs s [] (s\<lparr>sy_conns := (sy_conns s)[i := w]\<rparr>)"

inductive_cases rpc_stepE: "rpc_step K k0 ops junk hs s es s'"

inductive rpc_run ::
    "'k kernel \<Rightarrow> 'k \<Rightarrow> key_ops \<Rightarrow> (ty \<Rightarrow> val) \<Rightarrow> 'u handlers \<Rightarrow>
      ('u, 'k) rpc_system \<Rightarrow> packet list \<Rightarrow> ('u, 'k) rpc_system \<Rightarrow> bool"
  for K k0 ops junk hs where
  none: "rpc_run K k0 ops junk hs s [] s"
| next_step: "rpc_run K k0 ops junk hs s es t \<Longrightarrow> rpc_step K k0 ops junk hs t fs u \<Longrightarrow>
    rpc_run K k0 ops junk hs s (es @ fs) u"

section \<open>The sequential server\<close>

text \<open>The packets handled one after the other: the responses, each with its connection, and the state.\<close>

fun handle_all ::
    "key_ops \<Rightarrow> (ty \<Rightarrow> val) \<Rightarrow> 'u handlers \<Rightarrow> 'u \<Rightarrow> packet list \<Rightarrow> (nat \<times> protocol) list \<times> 'u" where
  "handle_all ops junk hs u [] = ([], u)"
| "handle_all ops junk hs u ((i, up, bs) # ps) =
     (case handle_packet ops junk hs up bs u of
        (r, u1) \<Rightarrow>
          (case handle_all ops junk hs u1 ps of
             (rs, u2) \<Rightarrow> ((case r of Inr (Some p) \<Rightarrow> (i, p) # rs | _ \<Rightarrow> rs), u2)))"

definition responses_on :: "nat \<Rightarrow> (nat \<times> protocol) list \<Rightarrow> protocol list" where
  "responses_on i rs = map snd (filter (\<lambda>r. fst r = i) rs)"

lemma handle_all_snoc:
  "handle_all ops junk hs u (ps @ [(i, up, bs)]) =
     (case handle_all ops junk hs u ps of
        (rs, u1) \<Rightarrow>
          (case handle_packet ops junk hs up bs u1 of
             (r, u2) \<Rightarrow> (rs @ (case r of Inr (Some p) \<Rightarrow> [(i, p)] | _ \<Rightarrow> []), u2)))"
proof (induction ps arbitrary: u)
  case (Cons p ps)
  obtain j d b where "p = (j, d, b)" by (cases p)
  then show ?case using Cons by (auto split: prod.splits sum.splits option.splits)
qed (auto split: prod.splits sum.splits option.splits)

lemma responses_on_append [simp]: "responses_on i (rs @ ss) = responses_on i rs @ responses_on i ss"
  by (simp add: responses_on_def)

text \<open>No response is submitted on a connection that is down.\<close>

lemma handle_packet_down: "handle_packet ops junk hs up bs u = (Inr (Some p), u') \<Longrightarrow> up"
  by (auto simp: handle_packet_def publish_client_msg_def rbind_def
      split: sum.splits if_splits prod.splits)

section \<open>The invariant\<close>

definition rpc_inv :: "'k kernel \<Rightarrow> 'k \<Rightarrow> (nat \<times> protocol) list \<Rightarrow> ('u, 'k) rpc_system \<Rightarrow> bool" where
  "rpc_inv K k0 rs s \<longleftrightarrow>
     (\<forall>i < length (sy_conns s). map wt_resp (cw_tasks (sy_conns s ! i)) = responses_on i rs \<and>
        (writer_step K)\<^sup>*\<^sup>* (new_writers \<lparr>c_connected = True, c_kernel = k0\<rparr>) (sy_conns s ! i)) \<and>
     (\<forall>r \<in> set rs. fst r < length (sy_conns s))"

lemma rpc_inv_step:
  assumes "rpc_inv K k0 (fst (handle_all ops junk hs u0 es)) s" and "sy_user s = snd (handle_all ops junk hs u0 es)"
    and "rpc_step K k0 ops junk hs s fs s'"
  shows "rpc_inv K k0 (fst (handle_all ops junk hs u0 (es @ fs))) s' \<and>
    sy_user s' = snd (handle_all ops junk hs u0 (es @ fs))"
proof -
  let ?rs = "fst (handle_all ops junk hs u0 es)"
  from assms(3) show ?thesis
  proof cases
    case accepted
    have "responses_on (length (sy_conns s)) ?rs = []"
      using assms(1) by (auto simp: rpc_inv_def responses_on_def filter_empty_conv)
    then show ?thesis
      using assms(1,2) accepted
      by (auto simp: rpc_inv_def nth_append less_Suc_eq new_writers_def)
  next
    case (handled i up bs r u)
    let ?new = "case r of Some p \<Rightarrow> [(i, p)] | None \<Rightarrow> []"
    have all: "handle_all ops junk hs u0 (es @ fs) = (?rs @ ?new, u)"
      using handled(1,5) assms(2) by (auto simp: handle_all_snoc case_prod_beta split: option.splits)
    let ?w = "respond r (sy_conns s ! i)"
    have resps: "map wt_resp (cw_tasks ?w) = responses_on i (?rs @ ?new)"
      using assms(1) handled(3-5) handle_packet_down
      by (cases r) (auto simp: rpc_inv_def respond_def submit_response_def responses_on_def)
    have step: "(writer_step K)\<^sup>*\<^sup>* (new_writers \<lparr>c_connected = True, c_kernel = k0\<rparr>) ?w"
      using assms(1) handled(3) by (cases r)
        (auto simp: rpc_inv_def respond_def intro: submitted rtranclp.rtrancl_into_rtrancl)
    have others: "responses_on j (?rs @ ?new) = responses_on j ?rs" if "j \<noteq> i" for j
      using that by (auto simp: responses_on_def split: option.splits)
    have "fst x < length (sy_conns s)" if "x \<in> set (?rs @ ?new)" for x
      using that assms(1) handled(3) by (auto simp: rpc_inv_def split: option.splits)
    then show ?thesis
      using assms(1) resps step others handled(2,3) unfolding all
      by (auto simp: rpc_inv_def nth_list_update simp del: responses_on_append)
  next
    case (moved i w)
    have "(writer_step K)\<^sup>*\<^sup>* (new_writers \<lparr>c_connected = True, c_kernel = k0\<rparr>) w"
      using assms(1) moved(3,4) by (auto simp: rpc_inv_def intro: other rtranclp.rtrancl_into_rtrancl)
    then show ?thesis
      using assms(1,2) moved conn_step_resps [OF moved(4)] by (auto simp: rpc_inv_def nth_list_update)
  qed
qed

lemma rpc_inv_run:
  fixes K :: "'k kernel" and u0 :: 'u
  assumes "rpc_run K k0 ops junk hs (new_rpc_system u0) es s"
  shows "rpc_inv K k0 (fst (handle_all ops junk hs u0 es)) s \<and> sy_user s = snd (handle_all ops junk hs u0 es)"
  using assms
proof (induction "new_rpc_system u0 :: ('u, 'k) rpc_system" es s rule: rpc_run.induct)
  case none
  show ?case by (simp add: rpc_inv_def new_rpc_system_def)
next
  case (next_step es t fs s')
  have "rpc_inv K k0 (fst (handle_all ops junk hs u0 es)) t" "sy_user t = snd (handle_all ops junk hs u0 es)"
    using next_step(2) by blast+
  from rpc_inv_step [OF this next_step(3)] show ?case .
qed

text \<open>One connection of a reachable state: its tasks are the responses due on it, and its wire is in order.\<close>

lemma server_wire:
  assumes "append_send K sent" and "sent k0 = []" and "rpc_run K k0 ops junk hs (new_rpc_system u0) es s"
    and "i < length (sy_conns s)"
  obtains order xs where "wire_inv sent [] (sy_conns s ! i) order xs"
    "map wt_resp (cw_tasks (sy_conns s ! i)) = responses_on i (fst (handle_all ops junk hs u0 es))"
    "length (cw_tasks (sy_conns s ! i)) = length (responses_on i (fst (handle_all ops junk hs u0 es)))"
    "frame_of (sy_conns s ! i) = (\<lambda>j. frame_bytes (responses_on i (fst (handle_all ops junk hs u0 es)) ! j))"
    "unfailed (sy_conns s ! i)"
proof -
  let ?w = "sy_conns s ! i" and ?rs = "responses_on i (fst (handle_all ops junk hs u0 es))"
  have w: "map wt_resp (cw_tasks ?w) = ?rs"
      "(writer_step K)\<^sup>*\<^sup>* (new_writers \<lparr>c_connected = True, c_kernel = k0\<rparr>) ?w"
    using rpc_inv_run [OF assms(3)] assms(4) by (simp_all add: rpc_inv_def)
  obtain order xs where o: "wire_inv sent [] ?w order xs"
    by (rule wire_inv_reach [OF assms(1) w(2)]) (use assms(2) in simp)
  moreover have "length (cw_tasks ?w) = length ?rs" using w(1) by (metis length_map)
  moreover have "frame_of ?w = (\<lambda>j. frame_bytes (?rs ! j))" by (simp add: frame_of_def w(1) fun_eq_iff)
  ultimately show thesis using that w(1) unfailed_reach [OF assms(1) w(2)] by blast
qed

section \<open>Properties\<close>


lemma demo_packet:
  "handle_packet no_keys (\<lambda>_. VInt32 0) add_handlers True (frame_bytes (request_frame (str_bytes ''add'') [4, 6])) 0 =
    (Inr (Some (Create RPC_METHOD_RESPONSE (result_bytes (success_result (VInt32 5))) 0)), 1)"
proof -
  let ?f = "request_frame (str_bytes ''add'') [4, 6]"
  obtain bt where bt: "packet_buffer (frame_bytes ?f) = Inr bt" "readable False Big bt" "ba_rest bt = frame_bytes ?f"
    unfolding packet_buffer_def by (rule packet_readable)
  have "handleMethodCall no_keys (\<lambda>_. VInt32 0) add_handlers proto 0 =
      (Inr (response_to proto (result_bytes (success_result (VInt32 5)))), 1)"
    if "p_content proto = request_bytes (str_bytes ''add'') (args_bytes [VInt32 2, VInt32 3])" for proto
    using handle_success [OF that, of add_handlers add_method no_keys 0 "VInt32 5" 1] by (simp add: add_call sent_val_def)
  then have "publish_client_msg no_keys (\<lambda>_. VInt32 0) add_handlers True bt 0 =
      (Inr (Some (Create RPC_METHOD_RESPONSE (result_bytes (success_result (VInt32 5))) 0)), 1)"
    using publish_frame [OF bt(2), of ?f "[]" no_keys "\<lambda>_. VInt32 0" add_handlers True 0] bt(3) add_call(8)
    by (simp add: add_call response_to_def header_of_def request_fits_def)
  then show ?thesis using bt(1) by (simp add: handle_packet_def)
qed

lemma demo_run:
  "\<exists>s :: (nat, byte list \<times> nat) rpc_system. rpc_run (trickle id) ([], 0) no_keys (\<lambda>_. VInt32 0) add_handlers
    (new_rpc_system 0) [(0, True, frame_bytes (request_frame (str_bytes ''add'') [4, 6]))] s"
proof -
  let ?f = "frame_bytes (request_frame (str_bytes ''add'') [4, 6])"
  let ?p = "Create RPC_METHOD_RESPONSE (result_bytes (success_result (VInt32 5))) 0"
  let ?w = "new_writers \<lparr>c_connected = True, c_kernel = ([], 0 :: nat)\<rparr>"
  let ?s0 = "new_rpc_system 0 :: (nat, byte list \<times> nat) rpc_system"
  let ?s1 = "?s0\<lparr>sy_conns := sy_conns ?s0 @ [?w]\<rparr>"
  have 1: "rpc_step (trickle id) ([], 0) no_keys (\<lambda>_. VInt32 0) add_handlers ?s0 [] ?s1" by (rule accepted)
  have 2: "rpc_step (trickle id) ([], 0) no_keys (\<lambda>_. VInt32 0) add_handlers ?s1 [(0, True, ?f)]
      (?s1\<lparr>sy_user := 1, sy_conns := (sy_conns ?s1)[0 := respond (Some ?p) (sy_conns ?s1 ! 0)]\<rparr>)"
    by (rule handled) (use demo_packet in \<open>simp_all add: new_rpc_system_def new_writers_def\<close>)
  from next_step [OF next_step [OF none 1] 2] show ?thesis by auto
qed


end
