(* ===== verification/ConcurrentCalls.thy ===== *)
theory ConcurrentCalls
  imports Conversation RPCSystem
begin

text \<open>
  Many clients of one server. When the packets that reach the server of theory \<open>RPCSystem\<close> are calls of
  registered functions (\<open>RPCClient::call\<close>), the sequential server it is equal to is the program that calls
  the functions directly, in the order the server took them.
\<close>

definition result_frame :: "val \<Rightarrow> protocol" where
  "result_frame v = Create RPC_METHOD_RESPONSE (result_bytes (success_result v)) 0"

lemma handle_packet_call:
  assumes "hs name = Some m" and "well_typed_args ops (m_args m) vs" and "request_fits name (args_bytes vs)"
    and "m_fun m vs u = (Inr v, u')"
  shows "handle_packet ops junk hs up (frame_bytes (request_of (t, name, vs))) u =
    (Inr (if up then Some (result_frame (sent_val m v)) else None), u')"
proof -
  let ?f = "request_frame name (args_bytes vs)"
  obtain bt where bt: "packet_buffer (frame_bytes ?f) = Inr bt" "readable False Big bt" "ba_rest bt = frame_bytes ?f"
    unfolding packet_buffer_def by (rule packet_readable)
  have handle: "handleMethodCall ops junk hs proto u =
      (Inr (response_to proto (result_bytes (success_result (sent_val m v)))), u')"
    if "p_content proto = request_bytes name (args_bytes vs)" for proto
    by (rule handle_success [where hs = hs and name = name, OF that assms(3,1,2,4)])
  have "publish_client_msg ops junk hs up bt u = (Inr (if up then Some (result_frame (sent_val m v)) else None), u')"
    using publish_frame [OF bt(2), of ?f "[]" ops junk hs up u] bt(3) assms(3) handle
    by (simp add: response_to_def header_of_def request_fits_def result_frame_def)
  then show ?thesis using bt(1) by (simp add: handle_packet_def)
qed

text \<open>
  The packets of calls, each with the connection it came on and whether that was up, and the results due
  on a connection, in the order of its calls: there are none for calls handled when it was down.
\<close>

type_synonym sent_call = "nat \<times> bool \<times> remote_call"

definition call_packets :: "sent_call list \<Rightarrow> packet list" where
  "call_packets cs = map (\<lambda>(i, up, c). (i, up, frame_bytes (request_of c))) cs"

definition calls_of :: "sent_call list \<Rightarrow> remote_call list" where
  "calls_of cs = map (\<lambda>(i, up, c). c) cs"

definition results_on :: "nat \<Rightarrow> sent_call list \<Rightarrow> val list \<Rightarrow> val list" where
  "results_on i cs vs = map snd (filter (\<lambda>((j, up, c), v). j = i \<and> up) (zip cs vs))"

lemma handle_all_calls:
  "callable ops hs (calls_of cs) u \<Longrightarrow>
    handle_all ops junk hs u (call_packets cs) =
      (map (\<lambda>((i, up, c), v). (i, result_frame v))
         (filter (\<lambda>((i, up, c), v). up) (zip cs (fst (run_locally hs (calls_of cs) u)))),
       snd (run_locally hs (calls_of cs) u))"
proof (induction cs arbitrary: u)
  case Nil
  then show ?case by (simp add: call_packets_def calls_of_def)
next
  case (Cons x cs)
  obtain i up t name vs where x: "x = (i, up, t, name, vs)" by (cases x)
  obtain m v u' where m: "hs name = Some m" "well_typed_args ops (m_args m) vs"
      "request_fits name (args_bytes vs)" "m_fun m vs u = (Inr v, u')" "callable ops hs (calls_of cs) u'"
    using Cons.prems by (auto simp: x calls_of_def split: option.splits prod.splits sum.splits)
  show ?case
    using Cons.IH [OF m(5)] handle_packet_call [where hs = hs and name = name, OF m(1-4), of junk up t] m(1,4)
    by (simp add: x call_packets_def calls_of_def case_prod_beta)
qed

lemma responses_on_results:
  "responses_on i (map (\<lambda>((j, up, c), v). (j, result_frame v)) (filter (\<lambda>((j, up, c), v). up) (zip cs vs))) =
    map result_frame (results_on i cs vs)"
  by (simp add: responses_on_def results_on_def filter_map comp_def split_def conj_commute)

section \<open>Properties\<close>



end
