(* ===== verification/BufferTheorems.thy ===== *)
theory BufferTheorems
  imports Scatter Codec
begin

text \<open>
  The properties of the byte buffer of \<open>src/base/ByteArray.cpp\<close> as a component: each operation of the
  block chain is the operation of a tape, and the ways a caller can leave that contract.
\<close>

section \<open>Refinement of the tape\<close>

text \<open>
  C6: writing. From every well-formed buffer, \<open>write\<close> succeeds, whatever its position and however many
  blocks have to be added, and overwrites the tape from the position on; block size and byte order
  stay, the chain stays well formed and never shrinks.
\<close>

theorem buffer_write_refines_tape:
  assumes "ba_inv b"
  shows "\<exists>b'. ba_write bs b = Inr b' \<and> ba_inv b' \<and> tape_of b' = tape_write bs (tape_of b) \<and>
    same_setup b b' \<and> ba_cap b \<le> ba_cap b'"
  by (rule ba_write_refines [OF assms])

text \<open>Five bytes over two-byte blocks.\<close>

theorem buffer_write_refines_tape_witness:
  "\<exists>b'. ba_write [1, 2, 3, 4, 5] (new_byte_array 2) = Inr b' \<and> ba_inv b' \<and>
    tape_of b' = (map Some [1, 2, 3, 4, 5], 5)"
  using buffer_write_refines_tape [of "new_byte_array 2" "[1, 2, 3, 4, 5]"] new_byte_array_ok [of 2]
  by (auto simp: tape_write_def)

text \<open>
  C7: reading. From every well-formed buffer with \<open>n\<close> bytes left, \<open>read\<close> returns the next \<open>n\<close> cells of
  the tape, moves the position past them, and changes nothing else. (A request for no bytes must not
  be made with the position at the very end of the chain.)
\<close>

theorem buffer_read_refines_tape:
  assumes "ba_inv b" and "n \<le> getReadSize b" and "0 < n \<or> ba_pos b < ba_cap b"
  shows "\<exists>b'. raw_read n b = Inr (fst (tape_read n (tape_of b)), b') \<and> ba_inv b' \<and>
    tape_of b' = snd (tape_read n (tape_of b)) \<and> same_setup b b' \<and> ba_cap b' = ba_cap b"
  by (rule raw_read_refines [OF assms])

definition example_buffer :: byte_array where
  "example_buffer =
     \<lparr>ba_base = 2, ba_pos = 1, ba_cap = 4, ba_size = 4, ba_endian = Big,
      ba_nodes = [\<lparr>node_mem = [Some 1, Some 2], node_size = 2\<rparr>, \<lparr>node_mem = [Some 3, Some 4], node_size = 2\<rparr>],
      ba_cur = 0\<rparr>"

lemma example_buffer_ok:
  "ba_inv example_buffer" "content example_buffer = map Some [1, 2, 3, 4]"
  "ba_pos example_buffer = 1" "ba_cap example_buffer = 4" "ba_size example_buffer = 4"
  "getReadSize example_buffer = 3" "getCapacity example_buffer = 3" "ba_base example_buffer = 2"
  by (simp_all add: example_buffer_def ba_inv_def blocks_ok_def content_def chain_def getReadSize_def
      getCapacity_def usub_def)

theorem buffer_read_refines_tape_witness:
  "\<exists>b'. raw_read 2 example_buffer = Inr (map Some [2, 3], b') \<and> ba_inv b' \<and> ba_pos b' = 3"
  using buffer_read_refines_tape [of example_buffer 2]
  by (auto simp: example_buffer_ok tape_read_def tape_of_def)

text \<open>
  Reading too much. A request for more bytes than are left throws \<open>std::out_of_range\<close>, whatever
  the buffer; no cell is touched.
\<close>

lemma buffer_read_too_much:
  assumes "ba_inv b" and "ba_size b < ba_pos b + n"
  shows "ba_read n b = Inl Out_of_range"
  using assms ba_inv_sizes [OF assms(1)] by (simp add: ba_read_def raw_read_short)

lemma buffer_read_too_much_witness: "ba_read 4 example_buffer = Inl Out_of_range"
  by (rule buffer_read_too_much) (simp_all add: example_buffer_ok)

text \<open>
  The gap in the contract of \<open>read\<close>. With the position at the end of a full chain there is no
  current block, and a request for no bytes, which is what reading an empty string there comes to,
  dereferences a null pointer.
\<close>

lemma buffer_empty_read_at_end:
  assumes "ba_inv b" and "ba_pos b = ba_cap b"
  shows "ba_read 0 b = Inl Null_deref"
proof -
  have "ba_cap b = ba_base b * length (ba_nodes b)" "ba_cur b = ba_pos b div ba_base b" "0 < ba_base b"
    using assms(1) ba_inv_base [OF assms(1)] by (auto simp: ba_inv_def)
  then have "ba_cur b = length (ba_nodes b)" using assms(2) by simp
  then show ?thesis using \<open>0 < ba_base b\<close> by (simp add: ba_read_def raw_read_def locate_def node_at_def)
qed

lemma buffer_empty_read_at_end_witness:
  "ba_read 0 (example_buffer\<lparr>ba_pos := 4, ba_cur := 2\<rparr>) = Inl Null_deref"
  by (rule buffer_empty_read_at_end)
     (simp_all add: example_buffer_def ba_inv_def blocks_ok_def)

text \<open>
  What is written is read back: write a nonempty string anywhere, return to where it started, and
  read as many bytes.
\<close>

lemma buffer_write_rewind_read:
  assumes "ba_inv b" and "bs \<noteq> []"
  shows "\<exists>b1 b2 b3. ba_write bs b = Inr b1 \<and> setPosition (ba_pos b) b1 = Inr b2 \<and>
    ba_read (length bs) b2 = Inr (bs, b3) \<and> ba_inv b3 \<and> ba_pos b3 = ba_pos b + length bs"
proof -
  obtain b1 where b1: "ba_write bs b = Inr b1" "ba_inv b1" "tape_of b1 = tape_write bs (tape_of b)"
    by (rule ba_write_ok [OF assms(1)])
  then have c1: "content b1 = fst (tape_write bs (tape_of b))" and p1: "ba_pos b1 = ba_pos b + length bs"
    by (auto simp: tape_of_def tape_write_def)
  have "ba_pos b \<le> ba_size b1" using ba_inv_sizes [OF b1(2)] p1 by simp
  then obtain b2 where b2: "setPosition (ba_pos b) b1 = Inr b2" "ba_inv b2"
      "tape_of b2 = (content b1, ba_pos b)"
    using setPosition_within [OF b1(2)] by blast
  then have c2: "content b2 = content b1" "ba_pos b2 = ba_pos b" by (auto simp: tape_of_def)
  have "ba_size b2 = length (content b1)" using ba_inv_sizes(4) [OF b2(2)] c2(1) by simp
  then have "length bs \<le> getReadSize b2"
    using ba_inv_sizes [OF b2(2)] ba_inv_sizes [OF b1(2)] c2(2) p1 by simp
  then obtain b3 where b3: "raw_read (length bs) b2 = Inr (fst (tape_read (length bs) (tape_of b2)), b3)"
      "ba_inv b3" "tape_of b3 = snd (tape_read (length bs) (tape_of b2))"
    using raw_read_refines [OF b2(2)] assms(2) by blast
  have "fst (tape_read (length bs) (tape_of b2)) = map Some bs"
    using tape_read_after_write [OF tape_ok_tape_of [OF assms(1)], of bs] b2(3) c1
    by (simp add: tape_of_def)
  then have "ba_read (length bs) b2 = Inr (bs, b3)" by (simp add: ba_read_def b3(1))
  then show ?thesis
    using b1(1) b2(1) b3(2,3) c2(2) by (auto simp: tape_of_def tape_read_def)
qed

lemma buffer_write_rewind_read_witness:
  "\<exists>b1 b2 b3. ba_write [7, 8, 9, 10] example_buffer = Inr b1 \<and> setPosition 1 b1 = Inr b2 \<and>
    ba_read 4 b2 = Inr ([7, 8, 9, 10], b3) \<and> ba_inv b3 \<and> ba_pos b3 = 5"
  using buffer_write_rewind_read [of example_buffer "[7, 8, 9, 10]"]
  by (simp add: example_buffer_ok eval_nat_numeral)

text \<open>
  C38: seeking. Up to the size, \<open>setPosition\<close> moves on the tape and changes nothing else; between the
  size and the capacity it makes the cells passed over part of the contents; past the capacity it
  throws.
\<close>

theorem buffer_seek:
  assumes "ba_inv b"
  shows "(v \<le> ba_size b \<longrightarrow>
        (\<exists>b'. setPosition v b = Inr b' \<and> ba_inv b' \<and> tape_of b' = (content b, v))) \<and>
    (ba_size b < v \<and> v \<le> ba_cap b \<longrightarrow>
        (\<exists>b' cs. setPosition v b = Inr b' \<and> ba_inv b' \<and> tape_of b' = (content b @ cs, v))) \<and>
    (ba_cap b < v \<longrightarrow> setPosition v b = Inl Out_of_range)"
proof (intro conjI impI)
  assume "v \<le> ba_size b"
  then show "\<exists>b'. setPosition v b = Inr b' \<and> ba_inv b' \<and> tape_of b' = (content b, v)"
    using setPosition_within [OF assms] by blast
next
  assume "ba_cap b < v"
  then show "setPosition v b = Inl Out_of_range" by (simp add: setPosition_def)
next
  assume v: "ba_size b < v \<and> v \<le> ba_cap b"
  then obtain b' where b': "setPosition v b = Inr b'" using setPosition_eq [OF assms] by blast
  have "take v (flat b) = content b @ take (v - ba_size b) (drop (ba_size b) (flat b))"
    using v by (metis content_def le_add_diff_inverse less_imp_le take_add)
  moreover have "content b' = take v (flat b)" "ba_pos b' = v"
    using v b' setPosition_eq [OF assms, of v] by (auto simp: content_def max_absorb1)
  ultimately show "\<exists>b' cs. setPosition v b = Inr b' \<and> ba_inv b' \<and> tape_of b' = (content b @ cs, v)"
    using b' setPosition_inv(1) [OF assms b'] by (auto simp: tape_of_def)
qed

theorem buffer_seek_witness:
  "(\<exists>b'. setPosition 3 example_buffer = Inr b' \<and> ba_inv b' \<and> tape_of b' = (map Some [1, 2, 3, 4], 3)) \<and>
   setPosition 5 example_buffer = Inl Out_of_range"
  using buffer_seek [of example_buffer 3] buffer_seek [of example_buffer 5]
  by (simp add: example_buffer_ok)

section \<open>Views and bulk operations\<close>

text \<open>
  \<open>getReadBuffers\<close>. The views cover exactly the next \<open>len\<close> bytes, or all that is left, in order;
  each lies inside a block of the chain; the length reported is that of the data.
\<close>

lemma buffer_read_views:
  assumes "ba_inv b"
  shows "\<exists>iovs. getReadBuffers [] len b = Inr (iovs, min len (getReadSize b)) \<and>
    collect (ba_nodes b) iovs = Inr (take len (drop (ba_pos b) (content b))) \<and>
    (\<forall>v \<in> set iovs. iov_valid (ba_nodes b) v)"
  by (rule getReadBuffers_ok [OF assms]) blast

lemma buffer_read_views_witness:
  "\<exists>iovs. getReadBuffers [] 9 example_buffer = Inr (iovs, 3) \<and>
    collect (ba_nodes example_buffer) iovs = Inr (map Some [2, 3, 4])"
  using buffer_read_views [of example_buffer 9] by (auto simp: example_buffer_ok)

text \<open>
  Receiving into the views of \<open>getWriteBuffers\<close>. Whatever part of the room asked for the kernel
  fills, storing it and advancing the position is a \<open>write\<close> of those bytes.
\<close>

lemma buffer_receive_is_write:
  assumes "ba_inv b" and "0 < len" and "length bs \<le> len"
  shows "\<exists>iovs b1 b2 b3. getWriteBuffers [] len b = Inr (iovs, len, b1) \<and> iov_total iovs = len \<and>
    scatter iovs bs b1 = Inr b2 \<and> setPosition (ba_pos b2 + length bs) b2 = Inr b3 \<and>
    ba_inv b3 \<and> tape_of b3 = tape_write bs (tape_of b)"
  using receive_ok [OF assms(1,2)] assms(3) by metis

lemma buffer_receive_is_write_witness:
  "\<exists>iovs b1 b2 b3. getWriteBuffers [] 7 example_buffer = Inr (iovs, 7, b1) \<and>
    scatter iovs [9, 9, 9, 9] b1 = Inr b2 \<and> setPosition (ba_pos b2 + 4) b2 = Inr b3 \<and>
    tape_of b3 = (map Some [1, 9, 9, 9, 9], 5)"
  using buffer_receive_is_write [of example_buffer 7 "[9, 9, 9, 9]"]
  by (auto simp: example_buffer_ok tape_write_def tape_of_def eval_nat_numeral)

text \<open>
  \<open>readFromFile\<close>. The loop of block-sized reads ends on every file and appends the whole of it at
  the position, as one \<open>write\<close> would.
\<close>

lemma slurp_ok:
  assumes "ba_inv b" and "k = ba_base b"
  shows "\<exists>b'. slurp k bytes b = Some (Inr b') \<and> ba_inv b' \<and> tape_of b' = tape_write bytes (tape_of b) \<and>
    same_setup b b'"
  using assms
proof (induction k bytes b rule: slurp.induct)
  case (1 k bytes b)
  note unfold = slurp.simps [of k bytes b]
  have k: "0 < k" using ba_inv_base [OF "1.prems"(1)] "1.prems"(2) by simp
  obtain b1 where b1: "ba_write (take k bytes) b = Inr b1" "ba_inv b1"
      "tape_of b1 = tape_write (take k bytes) (tape_of b)" "same_setup b b1"
    by (rule ba_write_ok [OF "1.prems"(1)])
  show ?case
  proof (cases "length bytes < k")
    case True
    then show ?thesis using b1 k by (simp add: unfold)
  next
    case False
    have base: "k = ba_base b1" using b1(4) "1.prems"(2) by (simp add: same_setup_def)
    obtain b2 where b2: "slurp k (drop k bytes) b1 = Some (Inr b2)" "ba_inv b2"
        "tape_of b2 = tape_write (drop k bytes) (tape_of b1)" "same_setup b1 b2"
      using "1.IH" [OF _ b1(1) False b1(2) base] k by auto
    have "tape_of b2 = tape_write bytes (tape_of b)"
      using b2(3) b1(3) tape_write_append [OF tape_ok_tape_of [OF "1.prems"(1)]] by simp
    then show ?thesis
      using b1(1) b2(1,2) False k same_setup_trans [OF b1(4) b2(4)] by (simp add: unfold)
  qed
qed

lemma buffer_reads_whole_file:
  assumes "ba_inv b"
  shows "\<exists>b'. readFromFile (Some bytes) b = Some (Inr (True, b')) \<and> ba_inv b' \<and>
    tape_of b' = tape_write bytes (tape_of b)"
  using slurp_ok [OF assms refl, of bytes] by (auto simp: readFromFile_def)

lemma buffer_reads_whole_file_witness:
  "\<exists>b'. readFromFile (Some [1, 2, 3, 4, 5]) (new_byte_array 2) = Some (Inr (True, b')) \<and>
    tape_of b' = (map Some [1, 2, 3, 4, 5], 5)"
  using buffer_reads_whole_file [of "new_byte_array 2" "[1, 2, 3, 4, 5]"] new_byte_array_ok [of 2]
  by (auto simp: tape_write_def)

text \<open>
  \<open>clear\<close> and \<open>toString\<close>. \<open>toString\<close> is the rest of the contents, without moving the position;
  \<open>clear\<close> leaves an empty well-formed buffer of one block, ready to be written again.
\<close>

lemma buffer_clear_and_string:
  assumes "ba_inv b"
  shows "toString b = load (drop (ba_pos b) (content b)) \<and>
    ba_inv (clear b) \<and> tape_of (clear b) = ([], 0) \<and> toString (clear b) = Inr [] \<and>
    length (ba_nodes (clear b)) = 1"
proof -
  have "ba_nodes b \<noteq> []" using assms by (simp add: ba_inv_def)
  then have "length (ba_nodes (clear b)) = 1" by (cases "ba_nodes b") (simp_all add: clear_def)
  moreover have "toString (clear b) = Inr []"
    using toString_eq [OF clear_ok(1) [OF assms]] clear_ok(2) [OF assms]
    by (simp add: tape_of_def load_def)
  ultimately show ?thesis using toString_eq [OF assms] clear_ok [OF assms] by simp
qed

lemma buffer_clear_and_string_witness:
  "toString example_buffer = Inr [2, 3, 4] \<and> tape_of (clear example_buffer) = ([], 0)"
  using buffer_clear_and_string [of example_buffer] by (simp add: example_buffer_ok load_def)

end
