(* ===== verification/FileTheorems.thy ===== *)
theory FileTheorems
  imports BufferTheorems
begin

text \<open>
  \<open>ByteArray::writeToFile\<close> and the overloads with an explicit position (\<open>src/base/ByteArray.cpp\<close>), whose
  arithmetic is only right for some positions.
\<close>

section \<open>Writing to a file\<close>

lemma file_loop_aligned:
  assumes "blocks_ok k ns" and "k * cur + n \<le> k * length ns" and "pos mod int k = 0"
    and "None \<notin> set (take n (drop (k * cur) (chain ns)))"
  shows "file_loop ns k (int n) pos cur = Inr (map the (take n (drop (k * cur) (chain ns))))"
  using assms(2-4)
proof (induction n arbitrary: pos cur rule: less_induct)
  case (less n)
  note unfold = file_loop.simps [of ns k "int n" pos cur]
  have k: "0 < k" using assms(1) by (rule blocks_ok_pos)
  show ?case
  proof (cases "n = 0")
    case True
    then show ?thesis by (simp add: file_loop.simps [of ns k 0])
  next
    case False
    define len where "len = (if k < n then k else n)"
    have len: "len \<le> k" "len \<le> n" "0 < len" using k False by (auto simp: len_def)
    have "k * cur < k * length ns" using less.prems(1) False by linarith
    then have cur: "cur < length ns" by simp
    let ?cs = "take len (drop (k * cur) (chain ns))"
    have f: "fetch ns cur 0 len = Inr ?cs" using fetch_ok [OF assms(1) cur, of 0 len] len(1) by simp
    have all: "take n (drop (k * cur) (chain ns)) = ?cs @ take (n - len) (drop (k * cur + len) (chain ns))"
      using len(2) by (metis add.commute drop_drop le_add_diff_inverse take_add)
    then have "load ?cs = Inr (map the ?cs)" using less.prems(3) by (intro load_written) simp
    moreover have "file_loop ns k (int (n - len)) (pos + int len) (Suc cur) =
        Inr (map the (take (n - len) (drop (k * cur + len) (chain ns))))"
    proof (cases "k < n")
      case True
      then have l: "len = k" by (simp add: len_def)
      have at: "k * Suc cur = k * cur + len" using l by simp
      have w: "None \<notin> set (take (n - len) (drop (k * Suc cur) (chain ns)))"
        unfolding at using less.prems(3) unfolding all by simp
      show ?thesis
        unfolding at [symmetric]
        by (rule less.IH [OF _ _ _ w]) (use less.prems(1,2) at len True l in auto)
    next
      case False
      then show ?thesis by (simp add: len_def file_loop.simps [of ns k 0])
    qed
    moreover have "(if int k < int n then int k else int n) - pos mod int k = int len"
      using less.prems(2) by (simp add: len_def)
    moreover have "node_at ns cur = Inr (ns ! cur)" using cur by (simp add: node_at_def)
    ultimately show ?thesis
      using False k f len less.prems(2) all by (simp add: unfold Let_def of_nat_diff node_at_def)
  qed
qed

text \<open>The last, partial block entered in the middle.\<close>

lemma file_loop_stuck:
  assumes "blocks_ok k ns" and "0 < r" and "r < int k" and "0 < pos mod int k"
  shows "\<exists>e. file_loop ns k r pos cur = Inl e \<and> \<not> is_exception e"
  using assms(2-4)
proof (induction "length ns - cur" arbitrary: r pos cur rule: less_induct)
  case less
  let ?d = "pos mod int k"
  note unfold = file_loop.simps [of ns k r pos cur]
  have k: "0 < k" using assms(1) by (rule blocks_ok_pos)
  have d: "?d < int k" using k by simp
  show ?case
  proof (cases "cur < length ns \<and> ?d \<le> r")
    case False
    then show ?thesis using less.prems k by (auto simp: unfold node_at_def Let_def)
  next
    case True
    then have cur: "cur < length ns" and "nat ?d + nat (r - ?d) \<le> k" using less.prems by auto
    then have f: "\<exists>cs. fetch ns cur (nat ?d) (nat (r - ?d)) = Inr cs" using fetch_ok [OF assms(1) cur] by blast
    have eq: "pos + (r - ?d) = r + int k * (pos div int k)" using minus_mod_eq_mult_div [of pos "int k"] by linarith
    have m: "(pos + (r - ?d)) mod int k = r" unfolding eq mod_mult_self2 using less.prems by simp
    have "\<exists>e. file_loop ns k ?d (pos + (r - ?d)) (Suc cur) = Inl e \<and> \<not> is_exception e"
      by (rule less.hyps) (use cur less.prems m d in auto)
    then show ?thesis
      using f True less.prems k by (auto simp: unfold node_at_def Let_def load_def)
  qed
qed

lemma content_rest: "ba_inv b \<Longrightarrow> ba_rest b = map the (take (getReadSize b) (drop (ba_pos b) (flat b)))"
  using ba_inv_sizes [of b] by (simp add: ba_rest_def content_def drop_take)

lemma writeToFile_ok:
  assumes "ba_inv b" and "None \<notin> set (content b)"
    and "ba_pos b mod ba_base b = 0 \<or> ba_base b \<le> getReadSize b \<or> getReadSize b = 0"
  shows "writeToFile True b = Inr (True, ba_rest b)"
proof -
  let ?k = "ba_base b" and ?ns = "ba_nodes b" and ?n = "getReadSize b"
  let ?d = "ba_pos b mod ?k"
  note sz = ba_inv_sizes [OF assms(1)]
  have ok: "blocks_ok ?k ?ns" and cap: "ba_cap b = ?k * length ?ns" and cur: "ba_cur b = ba_pos b div ?k"
    using assms(1) by (auto simp: ba_inv_def)
  have k: "0 < ?k" using ok by (rule blocks_ok_pos)
  have pos: "?k * ba_cur b + ?d = ba_pos b" by (simp add: cur)
  have w: "None \<notin> set (take ?n (drop (ba_pos b) (flat b)))"
    using assms(2) sz by (metis content_def drop_take in_set_dropD)
  have "file_loop ?ns ?k (int ?n) (int (ba_pos b)) (ba_cur b) = Inr (ba_rest b)"
  proof (cases "?d = 0")
    case True
    then have at: "?k * ba_cur b = ba_pos b" using pos by simp
    show ?thesis
      using file_loop_aligned [OF ok, of "ba_cur b" ?n "int (ba_pos b)"] True w sz cap
      by (simp add: at content_rest [OF assms(1)] flip: of_nat_mod)
  next
    case False
    show ?thesis
    proof (cases "?n = 0")
      case True
      then show ?thesis
        using length_ba_rest [OF assms(1)] by (simp add: file_loop.simps [of _ _ 0])
    next
      case nonzero: False
      define len where "len = ?k - ?d"
      have le: "?k \<le> ?n" using assms(3) False nonzero by simp
      have len: "0 < len" "len \<le> ?n" "?d + len = ?k" "?d < ?k" using k le by (simp_all add: len_def)
      have "ba_pos b < ba_cap b" using nonzero sz by linarith
      then have c: "ba_cur b < length ?ns" using assms(1) by (intro ba_inv_cur)
      let ?rest = "drop (ba_pos b) (flat b)"
      have f: "fetch ?ns (ba_cur b) ?d len = Inr (take len ?rest)"
        using fetch_ok [OF ok c, of ?d len] len(3) by (simp add: pos)
      have next_at: "?k * Suc (ba_cur b) = ba_pos b + len" using pos len(3) by simp
      have split: "take ?n ?rest = take len ?rest @ take (?n - len) (drop (ba_pos b + len) (flat b))"
        using len(2) by (metis add.commute drop_drop le_add_diff_inverse take_add)
      have "load (take len ?rest) = Inr (map the (take len ?rest))"
        using w split by (intro load_written) simp
      moreover have "file_loop ?ns ?k (int (?n - len)) (int (ba_pos b + len)) (Suc (ba_cur b)) =
          Inr (map the (take (?n - len) (drop (ba_pos b + len) (flat b))))"
        unfolding next_at [symmetric]
      proof (rule file_loop_aligned [OF ok])
        show "int (?k * Suc (ba_cur b)) mod int ?k = 0" by (simp only: mod_mult_self1_is_0 of_nat_0 flip: of_nat_mod)
        show "None \<notin> set (take (?n - len) (drop (?k * Suc (ba_cur b)) (flat b)))"
          unfolding next_at using w unfolding split by simp
        show "?k * Suc (ba_cur b) + (?n - len) \<le> ?k * length ?ns"
          unfolding next_at using sz cap len(2) by linarith
      qed
      moreover have "(if int ?k < int ?n then int ?k else int ?n) - int (ba_pos b) mod int ?k = int len"
        using le len(3) by (auto simp flip: of_nat_mod)
      moreover have "nat (int (ba_pos b) mod int ?k) = ?d" by (simp flip: of_nat_mod)
      ultimately show ?thesis
        using nonzero k f c split len(2)
        by (simp add: file_loop.simps [of ?ns ?k "int ?n"] Let_def node_at_def of_nat_diff
            content_rest [OF assms(1)])
    qed
  qed
  then show ?thesis by (simp add: writeToFile_def)
qed

section \<open>Reading at a position\<close>

text \<open>
  The const \<open>read\<close> takes the offset from the position given but the block from \<open>position_\<close>. So it reads
  what was asked for if both are in the same block, and something else otherwise.
\<close>

lemma readAt_current_block:
  assumes "ba_inv b" and "ba_pos b < ba_cap b" and "p \<le> ba_size b" and "n \<le> ba_size b - p"
    and "ba_base b * ba_cur b \<le> p"
  shows "readAt n p b = Inr (take n (drop (ba_base b * ba_cur b + p mod ba_base b) (flat b)))"
proof -
  let ?k = "ba_base b"
  note sz = ba_inv_sizes [OF assms(1)]
  have ok: "blocks_ok ?k (ba_nodes b)" and cap: "ba_cap b = ?k * length (ba_nodes b)"
    using assms(1) by (auto simp: ba_inv_def)
  have k: "0 < ?k" using ok by (rule blocks_ok_pos)
  have cur: "ba_cur b < length (ba_nodes b)" using ba_inv_cur [OF assms(1,2)] .
  have "ba_cur b \<le> p div ?k" using assms(5) k by (simp add: less_eq_div_iff_mult_less_eq mult.commute)
  then have "?k * ba_cur b \<le> ?k * (p div ?k)" by simp
  then have "?k * ba_cur b + p mod ?k \<le> p" by (metis add_le_mono1 mult_div_mod_eq)
  then have fits: "?k * ba_cur b + p mod ?k + n \<le> ?k * length (ba_nodes b)"
    using assms(3,4) sz cap by linarith
  have "p mod ?k \<le> ?k" using k by (simp add: less_imp_le)
  then show ?thesis
    using read_loop_ok [OF ok, of "ba_cur b" n "p mod ?k" "?k - p mod ?k" p] cur fits assms(3,4)
      locate_ok [OF assms(1,2), of p]
    by (simp add: readAt_def)
qed

lemma readAt_other_block: "readAt 1 3 example_buffer = Inr [Some 2]" "content example_buffer ! 3 = Some 4"
  using readAt_current_block [of example_buffer 3 1] example_buffer_ok
  by (simp_all add: example_buffer_def chain_def)

section \<open>Properties\<close>

text \<open>
  C39: saving a buffer. \<open>writeToFile\<close> writes exactly the bytes from the position to the end if the
  position is at the start of a block or at least a whole block is left (or nothing is), and reading
  that file into a fresh buffer gives the same bytes. In every other case, the position inside a block
  with less than a block left, the call runs outside the chain.
\<close>

theorem buffer_saved_to_file:
  assumes "ba_inv b" and "None \<notin> set (content b)" and "0 < k"
  shows "if ba_pos b mod ba_base b = 0 \<or> ba_base b \<le> getReadSize b \<or> getReadSize b = 0
    then writeToFile True b = Inr (True, ba_rest b) \<and>
      (\<exists>b'. readFromFile (Some (ba_rest b)) (new_byte_array k) = Some (Inr (True, b')) \<and>
        tape_of b' = (map Some (ba_rest b), length (ba_rest b)))
    else \<exists>e. writeToFile True b = Inl e \<and> \<not> is_exception e"
proof (cases "ba_pos b mod ba_base b = 0 \<or> ba_base b \<le> getReadSize b \<or> getReadSize b = 0")
  case True
  obtain b' where "readFromFile (Some (ba_rest b)) (new_byte_array k) = Some (Inr (True, b'))"
      "tape_of b' = tape_write (ba_rest b) (tape_of (new_byte_array k))"
    using slurp_ok [OF new_byte_array_ok(1) refl, of k "ba_rest b"] assms(3) by (auto simp: readFromFile_def)
  then show ?thesis
    using True writeToFile_ok [OF assms(1,2)] new_byte_array_ok [of k] assms(3) by (simp add: tape_write_def)
next
  case False
  have "blocks_ok (ba_base b) (ba_nodes b)" using assms(1) by (simp add: ba_inv_def)
  then have "\<exists>e. file_loop (ba_nodes b) (ba_base b) (int (getReadSize b)) (int (ba_pos b)) (ba_cur b) = Inl e \<and>
      \<not> is_exception e"
    by (rule file_loop_stuck) (use False in \<open>auto simp flip: of_nat_mod\<close>)
  then show ?thesis using False by (auto simp: writeToFile_def)
qed

theorem buffer_saved_to_file_witness:
  "writeToFile True example_buffer = Inr (True, [2, 3, 4])"
  using buffer_saved_to_file [of example_buffer 2] example_buffer_ok by (simp add: ba_rest_def)

end
