(* ===== verification/WireTheorems.thy ===== *)
theory WireTheorems
  imports RPCCommon
begin

text \<open>
  The properties of the wire formats: integers and strings of \<open>ByteArray\<close>, the values of
  \<open>Serializer\<close>, and the frames of \<open>Protocol\<close>.
\<close>

section \<open>Integers\<close>

text \<open>
  Fixed-width integers. For every width but one byte, the bytes \<open>writeFint\<close> puts out are the image
  of the value in the byte order the buffer is set to, whatever the order of the machine, and undoing
  the swap on reading gives the value back.
\<close>

lemma fixed_width_portable:
  assumes "LENGTH('a::len) \<in> {16, 32, 64}"
  shows "fint_bytes sg native e (w :: 'a word) = mem_bytes e w \<and>
    (let v = of_mem native (fint_bytes sg native e w)
     in if e = native then v else byte_swap sg v) = w"
proof -
  have "8 dvd LENGTH('a)" using assms by auto
  then show ?thesis
    using fint_bytes_eq [OF assms, of sg native e w] byte_swap_involution [OF assms]
      of_mem_mem_bytes [of native w] of_mem_mem_bytes [of native "byte_swap sg w"]
    by (cases "e = native") (simp_all add: fint_bytes_def Let_def)
qed

lemma fixed_width_portable_witness:
  "fint_bytes False Little Big (258 :: 16 word) = mem_bytes Big (258 :: 16 word)"
  using fixed_width_portable [of False Little Big "258 :: 16 word"] by simp

text \<open>
  The one-byte case of \<open>byte_swap\<close> is not the identity a one-byte swap should be: it loses the
  value, so \<open>writeFint\<close> of a \<open>uint8_t\<close> into a buffer of the other byte order writes a zero byte.
\<close>

lemma one_byte_swap_loses_value:
  "byte_swap False (w :: byte) = 0 \<and>
   fint_bytes False Little Big w = fint_bytes False Little Big (0 :: byte)"
  by (simp add: byte_swap_byte fint_bytes_def)

text \<open>
  Zigzag. The two codings are inverse to each other in both directions, at both widths: every
  signed value has one code and every code is one signed value.
\<close>

lemma zigzag_bijection:
  "DecodeZigzag32 (EncodeZigzag32 v) = v \<and> EncodeZigzag32 (DecodeZigzag32 u) = u \<and>
   DecodeZigzag64 (EncodeZigzag64 v') = v' \<and> EncodeZigzag64 (DecodeZigzag64 u') = u'"
  by (simp add: zigzag32 zigzag64 zigzag32_inverse zigzag64_inverse)

text \<open>
  The scratch arrays \<open>tmp[5]\<close> and \<open>tmp[10]\<close> of \<open>writeUint32\<close> and \<open>writeUint64\<close> are large enough, and
  values below 128 take one byte.
\<close>

lemma varint_fits_scratch:
  "length (varint_bytes (v :: 32 word)) \<le> 5 \<and> length (varint_bytes (v' :: 64 word)) \<le> 10 \<and>
   (unat v < 128 \<longrightarrow> length (varint_bytes v) = 1)"
  using length_varint_word [of v] length_varint_word [of v'] varint_short [of v] by simp

lemma varint_fits_scratch_witness:
  "length (varint_bytes (5 :: 32 word)) = 1 \<and> length (varint_bytes (300 :: 64 word)) \<le> 10"
  using varint_fits_scratch [of 5 300] by simp

section \<open>Strings\<close>

text \<open>
  Strings with a 16-bit length. A string of any length is written without complaint, and read back
  cut to its length modulo 65536.
\<close>

lemma string16_truncates:
  "\<exists>b1 b2 b3. writeStringF16 s (new_byte_array 4096) = Inr b1 \<and> setPosition 0 b1 = Inr b2 \<and>
     readStringF16 b2 = Inr (take (length s mod 2 ^ 16) s, b3)"
proof -
  let ?s = "take (length s mod 2 ^ 16) s" and ?pre = "mem_bytes Big (word_of_nat (length s) :: 16 word)"
  let ?r = "length (?pre @ s) mod 4096 \<noteq> 0"
  have len: "length ?s = length s mod 2 ^ 16" by (simp add: min_absorb2)
  have pre: "(word_of_nat (length ?s) :: 16 word) = word_of_nat (length s)"
    unfolding len by (simp add: word_of_nat_eq_iff take_bit_eq_mod)
  have room: "?s \<noteq> [] \<or> ?r"
  proof (cases "?s = []")
    case True
    then have "length s mod 2 ^ 16 = 0" using len by auto
    then obtain q where "length s = 65536 * q" by auto
    then have "length (?pre @ s) = 2 + (16 * q) * 4096" by simp
    then have "length (?pre @ s) mod 4096 = 2" by (simp only: mod_mult_self1) simp
    then show ?thesis by simp
  qed simp
  obtain b1 b2 where b: "writeStringF16 s (new_byte_array 4096) = Inr b1" "setPosition 0 b1 = Inr b2"
      "readable ?r Big b2" "ba_rest b2 = ?pre @ s"
    by (rule emit_from_new [OF emits_string(1), where r = ?r]) blast+
  have small: "length ?s < 2 ^ 16" by (simp add: len)
  have rest: "ba_rest b2 = (mem_bytes Big (word_of_nat (length ?s) :: 16 word) @ ?s) @ drop (length s mod 2 ^ 16) s"
    unfolding pre b(4) by simp
  obtain b3 where "readStringF16 b2 = Inr (?s, b3)"
    by (rule parsesD [OF parses_string(1) [OF small room, of Big] b(3) rest])
  then show ?thesis using b(1,2) by blast
qed

section \<open>The serializer\<close>


definition int_keys :: key_ops where
  "int_keys = \<lparr>key_less = (\<lambda>a b. case (a, b) of (VInt32 x, VInt32 y) \<Rightarrow> sint x < sint y | _ \<Rightarrow> False),
              key_equal = (=)\<rparr>"


text \<open>
  C37: truncation. No proper prefix of an encoding is mistaken for a value: reading one throws
  \<open>std::out_of_range\<close>.
\<close>

theorem serializer_rejects_prefix:
  assumes "has_type t v" and "storable ops v" and "n < length (enc Big v)" and "n < 2 ^ 31"
    and "n mod 4096 \<noteq> 0 \<or> n = 0 \<or> no_empty v"
  shows "\<exists>b. serializer_of (take n (enc Big v)) = Inr b \<and> deser ops t b = Inl Out_of_range"
proof -
  let ?r = "n mod 4096 \<noteq> 0 \<or> n = 0"
  have len: "length (take n (enc Big v)) = n" using assms(3) by simp
  obtain b where b: "serializer_of (take n (enc Big v)) = Inr b" "readable ?r Big b"
      "ba_rest b = take n (enc Big v)"
    by (rule serializer_of_ok [of "take n (enc Big v)" ?r]) (use assms(4) len in auto)
  have "?r \<or> no_empty v" using assms(5) by blast
  from starvesD [OF deser_starves [OF assms(1,2) this] b(2) assms(3) b(3)] show ?thesis
    using b(1) by blast
qed

theorem serializer_rejects_prefix_witness:
  "\<exists>b. serializer_of [2, 65] = Inr b \<and> deser int_keys TString b = Inl Out_of_range"
  using serializer_rejects_prefix [of TString "VString [65, 66]" int_keys 2]
  by (simp add: varint_bytes.simps)



section \<open>Frames\<close>

text \<open>
  C36: round trip of a frame. Decoding what \<open>encode\<close> produced sets every field to that of the message
  sent, whatever the decoder held before; the content may be any string of less than 4 GiB.
\<close>

theorem frame_round_trip:
  assumes "length (p_content p) < 2 ^ 32"
  shows "\<exists>b b'. encode p = Inr b \<and>
    decode q b = Inr (q\<lparr>p_magic := p_magic p, p_version := p_version p, p_type := p_type p,
      p_seq := p_seq p, p_length := word_of_nat (length (p_content p)), p_content := p_content p\<rparr>, b')"
proof -
  let ?r = "p_content p = []"
  have r: "?r \<Longrightarrow> length (frame_bytes p) mod 4096 \<noteq> 0" by (simp add: length_frame_bytes BASE_LENGTH_def)
  obtain b where b: "encode p = Inr b" "readable ?r Big b" "ba_rest b = frame_bytes p"
    by (rule encode_ok [OF r])
  have ne: "p_content p \<noteq> [] \<or> ?r" by blast
  have rest: "ba_rest b = frame_bytes p @ []" using b(3) by simp
  obtain b' where "decode q b = Inr ((header_of q p)\<lparr>p_content := p_content p\<rparr>, b')"
    by (rule parsesD [OF decode_parses [OF assms ne] b(2) rest])
  then show ?thesis using b(1) by (simp add: header_of_def)
qed

theorem frame_round_trip_witness:
  "\<exists>b b'. encode HeartBeat = Inr b \<and> decode new_protocol b = Inr (HeartBeat, b')"
  using frame_round_trip [of HeartBeat new_protocol]
  by (simp add: HeartBeat_def Create_def new_protocol_def)

text \<open>
  The meta data alone. \<open>decodeMeta\<close> of \<open>encodeMeta\<close> gives the header with the length of the
  content, and leaves the decoder's content alone; the header is \<open>BASE_LENGTH\<close> bytes, the ones a frame
  starts with.
\<close>

lemma frame_meta_round_trip:
  "\<exists>b b'. encodeMeta p = Inr b \<and> getReadSize b = BASE_LENGTH \<and>
    decodeMeta q b = Inr (header_of q p, b') \<and> p_content (header_of q p) = p_content q"
proof -
  obtain b where b: "encodeMeta p = Inr b" "readable True Big b" "ba_rest b = header_bytes p"
    by (rule encodeMeta_ok)
  have rest: "ba_rest b = header_bytes p @ []" using b(3) by simp
  obtain b' where "decodeMeta q b = Inr (header_of q p, b')"
    by (rule parsesD [OF decodeMeta_parses b(2) rest])
  moreover have "getReadSize b = BASE_LENGTH"
    using b(2,3) length_ba_rest [of b] by (simp add: readable_def)
  ultimately show ?thesis using b(1) by (simp add: header_of_def)
qed

end
