(* ===== verification/TypeSafety.thy ===== *)
theory TypeSafety
  imports RPCCommon
begin

text \<open>
  What \<open>operator>>\<close> guarantees of a value read from bytes nobody vouches for: it has the type asked for,
  and every container in it could have been built by insertions: sets and maps in order and without
  equivalent keys, hash containers without equal ones.
\<close>

section \<open>Keys\<close>

text \<open>\<open>std::less\<close>, or what stands for it, is a strict weak order on the keys.\<close>

definition key_order :: "key_ops \<Rightarrow> bool" where
  "key_order ops \<longleftrightarrow>
     (\<forall>a. \<not> key_less ops a a) \<and>
     (\<forall>a b c. key_less ops a b \<longrightarrow> key_less ops b c \<longrightarrow> key_less ops a c)"

text \<open>What follows concerns one relation \<open>lt\<close> on the elements, by their keys.\<close>

lemma emplace_unique_sorted:
  assumes "\<And>a b c. lt a b \<Longrightarrow> lt b c \<Longrightarrow> lt a c" and "sorted_wrt lt xs"
  shows "sorted_wrt lt (emplace_unique lt x xs)"
proof -
  define l r where "l = takeWhile (\<lambda>y. lt y x) xs" and "r = dropWhile (\<lambda>y. lt y x) xs"
  have xs: "xs = l @ r" by (simp add: l_def r_def)
  have sorted: "sorted_wrt lt (l @ r)" using assms(2) xs by simp
  have before: "\<forall>y \<in> set l. lt y x" by (auto simp: l_def dest: set_takeWhileD)
  have eq: "emplace_unique lt x xs =
      (case r of [] \<Rightarrow> xs @ [x] | y # ys \<Rightarrow> if lt x y then l @ x # y # ys else xs)"
    unfolding emplace_unique_def l_def r_def by (rule refl)
  show ?thesis
  proof (cases r)
    case Nil
    then show ?thesis using eq xs sorted before by (simp add: sorted_wrt_append)
  next
    case (Cons y ys)
    then have "lt x y \<Longrightarrow> \<forall>z \<in> set ys. lt x z" using sorted assms(1) unfolding sorted_wrt_append by auto
    then show ?thesis using eq Cons sorted before assms(2) by (auto simp: sorted_wrt_append)
  qed
qed

lemma emplace_multi_sorted:
  assumes "\<And>a. \<not> lt a a" and "\<And>a b c. lt a b \<Longrightarrow> lt b c \<Longrightarrow> lt a c"
    and "sorted_wrt (\<lambda>a b. \<not> lt b a) xs"
  shows "sorted_wrt (\<lambda>a b. \<not> lt b a) (emplace_multi lt x xs)"
proof -
  define l r where "l = takeWhile (\<lambda>y. \<not> lt x y) xs" and "r = dropWhile (\<lambda>y. \<not> lt x y) xs"
  have "xs = l @ r" by (simp add: l_def r_def)
  then have sorted: "sorted_wrt (\<lambda>a b. \<not> lt b a) (l @ r)" using assms(3) by simp
  have before: "\<forall>y \<in> set l. \<not> lt x y" by (auto simp: l_def dest: set_takeWhileD)
  have after: "\<forall>z \<in> set r. \<not> lt z x"
  proof (cases r)
    case (Cons y ys)
    then have "lt x y" using hd_dropWhile [of "\<lambda>y. \<not> lt x y" xs] by (simp add: r_def)
    moreover have "\<forall>z \<in> set ys. \<not> lt z y" using sorted Cons by (simp add: sorted_wrt_append)
    ultimately show ?thesis using Cons assms(1,2) by (metis set_ConsD)
  qed simp
  have "emplace_multi lt x xs = l @ x # r" by (simp add: emplace_multi_def l_def r_def)
  then show ?thesis using sorted before after by (simp add: sorted_wrt_append)
qed

lemma emplace_hashed_apart:
  "sorted_wrt (\<lambda>a b. \<not> eq a b) xs \<Longrightarrow> sorted_wrt (\<lambda>a b. \<not> eq a b) (emplace_hashed eq x xs)"
  by (auto simp: emplace_hashed_def sorted_wrt_append)

lemma canonical_emplace:
  assumes "key_order ops" and "canonical ops k vs"
  shows "canonical ops k (emplace ops k x vs)"
proof -
  note laws = assms(1) [unfolded key_order_def]
  have trans: "key_less ops (key_of k a) (key_of k c)"
    if "key_less ops (key_of k a) (key_of k b)" "key_less ops (key_of k b) (key_of k c)" for a b c
    using laws that by blast
  have u: "sorted_wrt (\<lambda>a b. key_less ops (key_of k a) (key_of k b)) vs \<Longrightarrow>
      sorted_wrt (\<lambda>a b. key_less ops (key_of k a) (key_of k b))
        (emplace_unique (\<lambda>a b. key_less ops (key_of k a) (key_of k b)) x vs)"
    by (rule emplace_unique_sorted) (rule trans)
  have m: "sorted_wrt (\<lambda>a b. \<not> key_less ops (key_of k b) (key_of k a)) vs \<Longrightarrow>
      sorted_wrt (\<lambda>a b. \<not> key_less ops (key_of k b) (key_of k a))
        (emplace_multi (\<lambda>a b. key_less ops (key_of k a) (key_of k b)) x vs)"
    by (rule emplace_multi_sorted) (use laws trans in blast)+
  have h: "sorted_wrt (\<lambda>a b. \<not> key_equal ops (key_of k a) (key_of k b)) vs \<Longrightarrow>
      sorted_wrt (\<lambda>a b. \<not> key_equal ops (key_of k a) (key_of k b))
        (emplace_hashed (\<lambda>a b. key_equal ops (key_of k a) (key_of k b)) x vs)"
    by (rule emplace_hashed_apart)
  show ?thesis
    using assms(2) u m h unfolding canonical_def emplace_def Let_def
    by (cases k) (simp_all only: insert_iff empty_iff ckind.distinct if_True if_False simp_thms)
qed

lemma set_emplace: "set (emplace ops k x vs) \<subseteq> insert x (set vs)"
proof -
  have "set (emplace_unique lt x vs) \<subseteq> insert x (set vs)" for lt
  proof (cases "dropWhile (\<lambda>y. lt y x) vs")
    case (Cons y ys)
    then have "set (y # ys) \<subseteq> set vs" by (metis set_dropWhileD subsetI)
    then show ?thesis unfolding emplace_unique_def Cons by (auto dest: set_takeWhileD)
  next
    case Nil
    then show ?thesis unfolding emplace_unique_def Nil by simp
  qed
  moreover have "set (emplace_multi lt x vs) \<subseteq> insert x (set vs)" for lt
    by (auto simp: emplace_multi_def dest: set_takeWhileD set_dropWhileD)
  moreover have "set (emplace_hashed eq x vs) \<subseteq> insert x (set vs)" for eq
    by (auto simp: emplace_hashed_def)
  ultimately show ?thesis by (simp add: emplace_def Let_def subset_insertI)
qed

section \<open>Values\<close>

fun containers_ok :: "key_ops \<Rightarrow> val \<Rightarrow> bool" where
  "containers_ok ops (VStruct vs) = list_all (containers_ok ops) vs"
| "containers_ok ops (VTuple vs) = list_all (containers_ok ops) vs"
| "containers_ok ops (VPair u v) = (containers_ok ops u \<and> containers_ok ops v)"
| "containers_ok ops (VCont k vs) = (canonical ops k vs \<and> list_all (containers_ok ops) vs)"
| "containers_ok ops v = True"

text \<open>The elements of maps are pairs.\<close>

fun proper_type :: "ty \<Rightarrow> bool" where
  "proper_type (TStruct ts) = list_all proper_type ts"
| "proper_type (TTuple ts) = list_all proper_type ts"
| "proper_type (TPair t u) = (proper_type t \<and> proper_type u)"
| "proper_type (TCont k t) = (proper_type t \<and> (is_map k \<longrightarrow> (case t of TPair _ _ \<Rightarrow> True | _ \<Rightarrow> False)))"
| "proper_type t = True"

definition delivers :: "key_ops \<Rightarrow> ty \<Rightarrow> bool" where
  "delivers ops t \<longleftrightarrow>
     (\<forall>b v b'. deser ops t b = Inr (v, b') \<longrightarrow> has_type t v \<and> containers_ok ops v)"

lemma deliversD: "delivers ops t \<Longrightarrow> deser ops t b = Inr (v, b') \<Longrightarrow> has_type t v \<and> containers_ok ops v"
  by (auto simp: delivers_def)

lemma read_mapD: "read_map h f b = Inr (v, b') \<Longrightarrow> \<exists>x. f b = Inr (x, b') \<and> v = h x"
  by (auto simp: read_map_def rbind_def split: sum.splits)

lemma read_allD:
  assumes "\<And>t. t \<in> set ts \<Longrightarrow> delivers ops t" and "read_all (map (deser ops) ts) b = Inr (vs, b')"
  shows "length ts = length vs \<and> list_all (\<lambda>(t, x). has_type t x) (zip ts vs) \<and> list_all (containers_ok ops) vs"
  using assms
proof (induction ts arbitrary: b vs)
  case (Cons t ts)
  obtain v b1 vs' where v: "deser ops t b = Inr (v, b1)" "read_all (map (deser ops) ts) b1 = Inr (vs', b')"
      "vs = v # vs'"
    using Cons.prems(2) by (auto simp: rbind_def split: sum.splits)
  have "delivers ops t" and rest: "\<And>t. t \<in> set ts \<Longrightarrow> delivers ops t" using Cons.prems(1) by simp_all
  then have "has_type t v \<and> containers_ok ops v" using v(1) unfolding delivers_def by blast
  then show ?case using Cons.IH [OF rest v(2)] v(3) by simp
qed simp

lemma read_nD:
  assumes "delivers ops t" and "key_order ops" and "canonical ops k acc"
    and "\<forall>x \<in> set acc. has_type t x \<and> containers_ok ops x"
    and "read_n (emplace ops k) n (deser ops t) acc b = Inr (vs, b')"
  shows "canonical ops k vs \<and> (\<forall>x \<in> set vs. has_type t x \<and> containers_ok ops x)"
  using assms(3-5)
proof (induction n arbitrary: acc b)
  case (Suc n)
  obtain v b1 where v: "deser ops t b = Inr (v, b1)"
      "read_n (emplace ops k) n (deser ops t) (emplace ops k v acc) b1 = Inr (vs, b')"
    using Suc.prems(3) by (auto simp: rbind_def split: sum.splits)
  have "has_type t v \<and> containers_ok ops v" using assms(1) v(1) by (auto simp: delivers_def)
  then have "\<forall>x \<in> set (emplace ops k v acc). has_type t x \<and> containers_ok ops x"
    using set_emplace [of ops k v acc] Suc.prems(2) by blast
  then show ?case using Suc.IH [OF canonical_emplace [OF assms(2) Suc.prems(1)] _ v(2)] by blast
qed auto

lemma canonical_Nil: "canonical ops k []"
  by (simp add: canonical_def Let_def)

lemma deser_delivers: "proper_type t \<Longrightarrow> key_order ops \<Longrightarrow> delivers ops t"
proof (induction t)
  case (TStruct ts)
  then have "\<And>t. t \<in> set ts \<Longrightarrow> delivers ops t" by (simp add: list_all_iff)
  then show ?case using read_allD by (fastforce simp: delivers_def dest!: read_mapD)
next
  case (TTuple ts)
  then have "\<And>t. t \<in> set ts \<Longrightarrow> delivers ops t" by (simp add: list_all_iff)
  then show ?case using read_allD by (fastforce simp: delivers_def dest!: read_mapD)
next
  case (TPair t u)
  then have d: "delivers ops t" "delivers ops u" by simp_all
  show ?case
    unfolding delivers_def
  proof (intro allI impI)
    fix b v b' assume "deser ops (TPair t u) b = Inr (v, b')"
    then obtain x b1 y where "deser ops t b = Inr (x, b1)" "deser ops u b1 = Inr (y, b')" "v = VPair x y"
      by (auto simp: rbind_def split: sum.splits dest!: read_mapD)
    then show "has_type (TPair t u) v \<and> containers_ok ops v" using deliversD [OF d(1)] deliversD [OF d(2)] by simp
  qed
next
  case (TCont k t)
  then have d: "delivers ops t" by simp
  have pairs: "is_map k \<Longrightarrow> has_type t x \<Longrightarrow> is_pair x" for x
    using TCont.prems(1) by (cases t; cases x) auto
  show ?case
    unfolding delivers_def
  proof (intro allI impI)
    fix b v b' assume "deser ops (TCont k t) b = Inr (v, b')"
    then obtain n b1 vs where "read_n (emplace ops k) n (deser ops t) [] b1 = Inr (vs, b')" "v = VCont k vs"
      by (auto simp: rbind_def split: sum.splits dest!: read_mapD)
    then show "has_type (TCont k t) v \<and> containers_ok ops v"
      using read_nD [OF d TCont.prems(2) canonical_Nil] pairs by (auto simp: list_all_iff)
  qed
qed (auto simp: delivers_def dest!: read_mapD)

section \<open>Properties\<close>

text \<open>
  C11: reading is type safe. If reading a type from any bytes gives a value, the value has that type,
  and every container in it is one that insertions build: sets and maps strictly in key order,
  multisets and multimaps in order, hash sets and maps without equal keys. So what a remote peer
  sends cannot hand a registered function a malformed argument.
\<close>

theorem deserialised_value_well_formed:
  assumes "proper_type t" and "key_order ops" and "deser ops t b = Inr (v, b')"
  shows "has_type t v \<and> containers_ok ops v"
  using deser_delivers [OF assms(1,2)] assms(3) by (auto simp: delivers_def)

text \<open>A set of \<open>int8_t\<close>, in their unsigned order.\<close>

definition byte_keys :: key_ops where
  "byte_keys =
     \<lparr>key_less = (\<lambda>a b. case (a, b) of (VInt8 x, VInt8 y) \<Rightarrow> x < y | _ \<Rightarrow> False), key_equal = (=)\<rparr>"

lemma byte_keys_order: "key_order byte_keys"
  by (auto simp: key_order_def byte_keys_def split: val.splits)

theorem deserialised_value_well_formed_witness:
  "\<exists>b b'. deser byte_keys (TCont C_set TInt8) b = Inr (VCont C_set [VInt8 3, VInt8 7], b') \<and>
    containers_ok byte_keys (VCont C_set [VInt8 3, VInt8 7])"
proof -
  let ?t = "TCont C_set TInt8" and ?v = "VCont C_set [VInt8 3, VInt8 7]"
  have typed: "has_type ?t ?v" "storable byte_keys ?v" "True \<or> no_empty ?v"
    by (simp_all add: is_map_def canonical_def byte_keys_def)
  obtain b where b: "readable True Big b" "ba_rest b = enc Big ?v @ []"
    by (rule serializer_of_ok [of "enc Big ?v" True]) (simp_all add: varint_bytes.simps)
  obtain b' where "deser byte_keys ?t b = Inr (?v, b')"
    by (rule parsesD [OF deser_parses [OF typed] b])
  moreover from this have "containers_ok byte_keys ?v"
    by (intro deserialised_value_well_formed [THEN conjunct2, of ?t byte_keys b ?v b'] byte_keys_order)
      (simp_all add: is_map_def)
  ultimately show ?thesis by blast
qed

end
