(* ===== verification/Reflection.thy ===== *)
theory Reflection
  imports Serializer
begin

text \<open>
  The compile-time reflection of \<open>include/base/Reflection.hpp\<close>: how the number of members of an
  aggregate is found, and how its members are handed to a visitor. What the compiler makes of the
  code is the value \<open>Compiled\<close> or \<open>Ill_formed\<close>.
\<close>

section \<open>Counting\<close>

text \<open>
  \<open>constructible k\<close> is \<open>requires { T{Args...}; }\<close> with \<open>k\<close> arguments of \<open>AnyType\<close>. The result is a
  \<open>size_t\<close>, so \<open>0 - 1\<close> is its greatest value; the recursion goes on while \<open>T\<close> accepts more arguments.
\<close>

partial_function (option) MemberCountImpl :: "(nat \<Rightarrow> bool) \<Rightarrow> nat \<Rightarrow> nat option" where
  "MemberCountImpl constructible k =
     (if \<not> constructible k then Some (if k = 0 then 2 ^ 64 - 1 else k - 1)
      else MemberCountImpl constructible (Suc k))"

text \<open>\<open>MemberNum<T>\<close> is 0 unless the user specialises it.\<close>

definition MemberCount :: "nat \<Rightarrow> (nat \<Rightarrow> bool) \<Rightarrow> nat option" where
  "MemberCount member_num constructible =
     (if 0 < member_num then Some member_num else MemberCountImpl constructible 0)"

section \<open>Visiting\<close>

datatype 'r compiled = Ill_formed | Compiled 'r

definition MaxVisitMembers :: nat where
  "MaxVisitMembers = 64"

text \<open>
  One case per number of members, each a structured binding, which must name exactly the members
  there are.
\<close>

definition VisitMembers ::
    "bool \<Rightarrow> bool \<Rightarrow> nat option \<Rightarrow> 'v list \<Rightarrow> ('v list \<Rightarrow> 'r) \<Rightarrow> 'r compiled" where
  "VisitMembers is_class is_monostate member_count object visitor =
     (case member_count of
        None \<Rightarrow> Ill_formed
      | Some count \<Rightarrow>
          if count = 0 \<and> is_class \<and> \<not> is_monostate then Ill_formed
          else if \<not> (count \<le> MaxVisitMembers) then Ill_formed
          else if count = 0 then Compiled (visitor [])
          else if length object = count then Compiled (visitor object)
          else Ill_formed)"

section \<open>Aggregates\<close>

text \<open>
  A member is initialised by one argument, unless it is an array, to which \<open>AnyType\<close> does not convert:
  then the braces around its elements are elided and it takes an argument for each of them.
\<close>

datatype member = Plain | Array_of nat

fun slots :: "member \<Rightarrow> nat" where
  "slots Plain = 1"
| "slots (Array_of n) = n"

definition accepts :: "member list \<Rightarrow> nat \<Rightarrow> bool" where
  "accepts ms k \<longleftrightarrow> k \<le> sum_list (map slots ms)"

lemma MemberCountImpl_accepts:
  assumes "k \<le> Suc (sum_list (map slots ms))" and "0 < k"
  shows "MemberCountImpl (accepts ms) k = Some (sum_list (map slots ms))"
  using assms
proof (induction "Suc (sum_list (map slots ms)) - k" arbitrary: k)
  case 0
  then show ?case by (subst MemberCountImpl.simps) (simp add: accepts_def)
next
  case (Suc n)
  then have "accepts ms k" "MemberCountImpl (accepts ms) (Suc k) = Some (sum_list (map slots ms))"
    by (simp_all add: accepts_def)
  then show ?case by (subst MemberCountImpl.simps) simp
qed

lemma MemberCount_accepts: "MemberCount 0 (accepts ms) = Some (sum_list (map slots ms))"
  using MemberCountImpl_accepts [of 1 ms]
  by (simp add: MemberCount_def MemberCountImpl.simps [of _ 0] accepts_def)

lemma slots_sum:
  assumes "Array_of 0 \<notin> set ms"
  shows "length ms \<le> sum_list (map slots ms)"
    and "sum_list (map slots ms) = length ms \<longleftrightarrow> (\<forall>m \<in> set ms. slots m = 1)"
proof -
  have pos: "1 \<le> slots m" if "m \<in> set ms" for m
  proof (cases m)
    case (Array_of n)
    then show ?thesis using that assms by (cases n) auto
  qed simp
  then have "length ms \<le> sum_list (map slots ms) \<and>
      (sum_list (map slots ms) = length ms \<longleftrightarrow> (\<forall>m \<in> set ms. slots m = 1))"
  proof (induction ms)
    case (Cons m ms)
    let ?s = "sum_list (map slots ms)"
    have m: "1 \<le> slots m" using Cons.prems by simp
    have rest: "length ms \<le> ?s" "?s = length ms \<longleftrightarrow> (\<forall>m \<in> set ms. slots m = 1)"
      using Cons.IH Cons.prems by simp_all
    have "slots m + ?s = Suc (length ms) \<longleftrightarrow> slots m = 1 \<and> ?s = length ms" using m rest(1) by linarith
    then show ?case using m rest by simp
  qed simp
  then show "length ms \<le> sum_list (map slots ms)"
    and "sum_list (map slots ms) = length ms \<longleftrightarrow> (\<forall>m \<in> set ms. slots m = 1)" by blast+
qed

section \<open>Properties\<close>



end
