(* ===== verification/Logging.thy ===== *)
theory Logging
  imports Prelude "HOL-Library.Signed_Division"
begin

text \<open>
  The logging component: the fixed buffer (\<open>include/base/Buffer.hpp\<close>), the formatting stream
  (\<open>src/base/LogStream.cpp\<close>) and the double-buffered writer thread (\<open>src/base/AsyncLogger.cpp\<close>).
\<close>

section \<open>The fixed buffer\<close>

record log_buffer =
  lb_max :: nat
  lb_data :: string

definition new_log_buffer :: "nat \<Rightarrow> log_buffer" where
  "new_log_buffer n = \<lparr>lb_max = n, lb_data = []\<rparr>"

definition LOG_BUFFER_SIZE :: nat where
  "LOG_BUFFER_SIZE = 2048"

definition lb_avail :: "log_buffer \<Rightarrow> nat" where
  "lb_avail b = lb_max b - length (lb_data b)"

definition lb_append :: "string \<Rightarrow> log_buffer \<Rightarrow> bool \<times> log_buffer" where
  "lb_append str b =
     (if lb_avail b < length str then (False, b)
      else (True, b\<lparr>lb_data := lb_data b @ str\<rparr>))"

definition lb_clear :: "log_buffer \<Rightarrow> log_buffer" where
  "lb_clear b = b\<lparr>lb_data := []\<rparr>"

section \<open>Formatting\<close>

definition DIGITS :: string where
  "DIGITS = ''9876543210123456789''"

definition DIGITS_HEX :: string where
  "DIGITS_HEX = ''0123456789ABCDEF''"

text \<open>\<open>ZERO = DIGITS + 9\<close>, indexed by a remainder between -9 and 9.\<close>

definition ZERO_at :: "int \<Rightarrow> char" where
  "ZERO_at d = DIGITS ! nat (9 + d)"

text \<open>The \<open>do\<close> loop of \<open>convert\<close>, with C++'s division that rounds towards zero.\<close>

function convert_loop :: "int \<Rightarrow> string" where
  "convert_loop i =
     ZERO_at (i smod 10) # (if i sdiv 10 = 0 then [] else convert_loop (i sdiv 10))"
  by pat_completeness auto
termination
proof (relation "measure (\<lambda>i. nat \<bar>i\<bar>)")
  fix i :: int assume "i sdiv 10 \<noteq> 0"
  moreover have "\<bar>i sdiv 10\<bar> = \<bar>i\<bar> div 10" by (simp add: signed_divide_int_def abs_mult sgn_if)
  ultimately show "(i sdiv 10, i) \<in> measure (\<lambda>i. nat \<bar>i\<bar>)" by auto
qed simp

declare convert_loop.simps [simp del]

definition convert :: "int \<Rightarrow> string" where
  "convert val = rev (convert_loop val @ (if val < 0 then ''-'' else []))"

definition K_MAXNUMERIC_SIZE :: nat where
  "K_MAXNUMERIC_SIZE = 32"

definition format_integer :: "int \<Rightarrow> log_buffer \<Rightarrow> log_buffer" where
  "format_integer val b =
     (if K_MAXNUMERIC_SIZE \<le> lb_avail b then snd (lb_append (convert val) b) else b)"

definition put_bool :: "bool \<Rightarrow> log_buffer \<Rightarrow> log_buffer" where
  "put_bool v b = snd (lb_append (if v then ''T'' else ''F'') b)"

definition put_char :: "char \<Rightarrow> log_buffer \<Rightarrow> log_buffer" where
  "put_char v b = snd (lb_append [v] b)"

text \<open>\<open>None\<close> is the null pointer.\<close>

definition put_cstring :: "string option \<Rightarrow> log_buffer \<Rightarrow> log_buffer" where
  "put_cstring str b =
     (case str of Some s \<Rightarrow> snd (lb_append s b) | None \<Rightarrow> snd (lb_append ''NULL'' b))"

definition put_string :: "string \<Rightarrow> log_buffer \<Rightarrow> log_buffer" where
  "put_string str b = snd (lb_append str b)"

function hex_loop :: "nat \<Rightarrow> string" where
  "hex_loop i = DIGITS_HEX ! (i mod 16) # (if i div 16 = 0 then [] else hex_loop (i div 16))"
  by pat_completeness auto
termination by (relation "measure (\<lambda>i. i)") auto

declare hex_loop.simps [simp del]

definition put_pointer :: "nat \<Rightarrow> log_buffer \<Rightarrow> log_buffer" where
  "put_pointer v b =
     (if K_MAXNUMERIC_SIZE \<le> lb_avail b then snd (lb_append (''0x'' @ rev (hex_loop v)) b) else b)"

text \<open>\<open>float\<close>, \<open>double\<close> and \<open>long double\<close>: \<open>text\<close> is what \<open>snprintf\<close> made of the value.\<close>

definition put_double :: "string \<Rightarrow> log_buffer \<Rightarrow> log_buffer" where
  "put_double text b =
     (if K_MAXNUMERIC_SIZE \<le> lb_avail b then snd (lb_append text b) else b)"

section \<open>Numerals\<close>

text \<open>The decimal numeral of a number, as one writes it.\<close>

function decimal :: "nat \<Rightarrow> string" where
  "decimal n = (if n < 10 then [] else decimal (n div 10)) @ [char_of (48 + n mod 10)]"
  by pat_completeness auto
termination by (relation "measure (\<lambda>n. n)") auto

declare decimal.simps [simp del]

lemma ZERO_at_digit:
  assumes "\<bar>d\<bar> < 10"
  shows "ZERO_at d = char_of (48 + nat \<bar>d\<bar>)"
proof -
  have "d \<in> {-9, -8, -7, -6, -5, -4, -3, -2, -1, 0, 1, 2, 3, 4, 5, 6, 7, 8, 9}"
    using assms unfolding abs_less_iff insert_iff empty_iff by presburger
  then show ?thesis
    by (elim insertE emptyE; hypsubst; code_simp)
qed

lemma smod_abs: "\<bar>i smod 10\<bar> = \<bar>i :: int\<bar> mod 10" and sdiv_abs: "\<bar>i sdiv 10\<bar> = \<bar>i :: int\<bar> div 10"
  by (simp_all add: signed_modulo_int_def signed_divide_int_def abs_mult sgn_if)

lemma convert_loop_decimal: "rev (convert_loop i) = decimal (nat \<bar>i\<bar>)"
proof (induction i rule: convert_loop.induct)
  case (1 i)
  have d: "ZERO_at (i smod 10) = char_of (48 + nat \<bar>i\<bar> mod 10)"
    by (subst ZERO_at_digit) (simp_all add: smod_abs nat_mod_distrib)
  have q: "nat \<bar>i sdiv 10\<bar> = nat \<bar>i\<bar> div 10" by (simp add: sdiv_abs nat_div_distrib)
  have "i sdiv 10 = 0 \<longleftrightarrow> \<bar>i\<bar> div 10 = 0" by (metis abs_eq_0 sdiv_abs)
  also have "\<dots> \<longleftrightarrow> nat \<bar>i\<bar> < 10" by (auto simp: zdiv_eq_0_iff)
  finally have z: "i sdiv 10 = 0 \<longleftrightarrow> nat \<bar>i\<bar> < 10" .
  show ?case
    using 1 by (simp add: convert_loop.simps [of i] decimal.simps [of "nat \<bar>i\<bar>"] d z q)
qed

lemma length_decimal: "n < 10 ^ k \<Longrightarrow> 0 < k \<Longrightarrow> length (decimal n) \<le> k"
proof (induction k arbitrary: n)
  case (Suc k)
  show ?case
  proof (cases "n < 10")
    case True
    then show ?thesis by (simp add: decimal.simps [of n])
  next
    case False
    then have "0 < k" using Suc.prems by (cases k) auto
    moreover have "n div 10 < 10 ^ k" using Suc.prems by (simp add: div_less_iff_less_mult mult.commute)
    ultimately show ?thesis using Suc.IH [of "n div 10"] False by (simp add: decimal.simps [of n])
  qed
qed simp

section \<open>The writer thread\<close>

text \<open>
  The shared buffers, the buffers of the writer's own, the file, and where the writer is: at the top
  of its loop, between releasing the lock and testing the flag again, or gone. The writer's pointers
  are \<open>None\<close> after a move.
\<close>

datatype phase = Looping | Writing | Ended

record async_logger =
  al_cur :: log_buffer
  al_next :: "log_buffer option"
  al_dirty :: "log_buffer list"
  al_running :: bool
  al_phase :: phase
  al_spare :: "log_buffer option"
  al_spare_next :: "log_buffer option"
  al_pending :: "log_buffer list"
  al_file :: string

definition fresh_buffer :: log_buffer where
  "fresh_buffer = new_log_buffer LOG_BUFFER_SIZE"

text \<open>The file holds what this logger has written to it; \<open>run\<close> starts the writer thread.\<close>

definition new_logger :: async_logger where
  "new_logger =
     \<lparr>al_cur = fresh_buffer, al_next = Some fresh_buffer, al_dirty = [], al_running = False,
      al_phase = Ended, al_spare = Some fresh_buffer, al_spare_next = Some fresh_buffer,
      al_pending = [], al_file = []\<rparr>"

definition al_run :: "async_logger \<Rightarrow> async_logger" where
  "al_run s = s\<lparr>al_running := True, al_phase := Looping\<rparr>"

definition running_logger :: async_logger where
  "running_logger = al_run new_logger"

text \<open>\<open>AsyncLogger::append\<close>, under the mutex.\<close>

definition al_append :: "string \<Rightarrow> async_logger \<Rightarrow> async_logger" where
  "al_append msg s =
     (if length msg < lb_avail (al_cur s)
      then s\<lparr>al_cur := snd (lb_append msg (al_cur s))\<rparr>
      else
        let cur = (case al_next s of Some b \<Rightarrow> b | None \<Rightarrow> fresh_buffer)
        in s\<lparr>al_dirty := al_dirty s @ [al_cur s], al_next := None, al_cur := snd (lb_append msg cur)\<rparr>)"

text \<open>
  The writer's critical section (whatever it waited for). A null \<open>to_file_buffer\<close> would leave the
  shared \<open>cur_buffer_\<close> null.
\<close>

definition al_swap :: "async_logger \<Rightarrow> async_logger outcome" where
  "al_swap s =
     (case al_spare s of
        None \<Rightarrow> Inl Null_deref
      | Some b \<Rightarrow>
          Inr (s\<lparr>al_pending := al_dirty s @ [al_cur s], al_dirty := [], al_cur := b, al_spare := None,
                 al_next := (if al_next s = None then al_spare_next s else al_next s),
                 al_spare_next := (if al_next s = None then None else al_spare_next s),
                 al_phase := Writing\<rparr>))"

text \<open>
  Taking a buffer back: \<open>assert(!to_file_buffers.empty())\<close>, then the last one, cleared.
\<close>

definition take_back :: "log_buffer option \<times> log_buffer list \<Rightarrow> (log_buffer option \<times> log_buffer list) outcome" where
  "take_back p =
     (case p of
        (Some b, bs) \<Rightarrow> Inr (Some b, bs)
      | (None, bs) \<Rightarrow>
          if bs = [] then Inl Null_deref else Inr (Some (lb_clear (last bs)), butlast bs))"

definition al_write :: "async_logger \<Rightarrow> async_logger outcome" where
  "al_write s =
     (let bufs = (if 2 < length (al_pending s) then take 2 (al_pending s) else al_pending s) in
      rbind (take_back (al_spare s, bufs)) (\<lambda>(spare, bufs).
      rbind (take_back (al_spare_next s, bufs)) (\<lambda>(spare_next, bufs).
        Inr (s\<lparr>al_file := al_file s @ concat (map lb_data (al_pending s)), al_pending := [],
               al_spare := spare, al_spare_next := spare_next, al_phase := Looping\<rparr>))))"

definition al_terminate :: "async_logger \<Rightarrow> async_logger" where
  "al_terminate s = (if al_running s then s\<lparr>al_running := False\<rparr> else s)"

text \<open>
  The steps of the threads. A message is a line of \<open>Logger\<close>, so it is no longer than a buffer.
\<close>

datatype log_event = Append string | Swap | Write | Terminate | Exit

inductive log_step :: "async_logger \<Rightarrow> log_event \<Rightarrow> async_logger \<Rightarrow> bool" where
  append: "length msg \<le> LOG_BUFFER_SIZE \<Longrightarrow> log_step s (Append msg) (al_append msg s)"
| swap: "al_phase s = Looping \<Longrightarrow> al_running s \<Longrightarrow> al_swap s = Inr s' \<Longrightarrow> log_step s Swap s'"
| flush: "al_phase s = Writing \<Longrightarrow> al_write s = Inr s' \<Longrightarrow> log_step s Write s'"
| ending: "log_step s Terminate (al_terminate s)"
| leave: "al_phase s = Looping \<Longrightarrow> \<not> al_running s \<Longrightarrow> log_step s Exit (s\<lparr>al_phase := Ended\<rparr>)"

inductive log_run :: "async_logger \<Rightarrow> log_event list \<Rightarrow> async_logger \<Rightarrow> bool" where
  start: "log_run s [] s"
| more: "log_run s es t \<Longrightarrow> log_step t e u \<Longrightarrow> log_run s (es @ [e]) u"

fun logged :: "log_event list \<Rightarrow> string" where
  "logged [] = []"
| "logged (Append msg # es) = msg @ logged es"
| "logged (_ # es) = logged es"

lemma logged_append [simp]: "logged (es @ fs) = logged es @ logged fs"
  by (induction es rule: logged.induct) simp_all

section \<open>Invariant of the writer\<close>

definition standard :: "log_buffer \<Rightarrow> bool" where
  "standard b \<longleftrightarrow> lb_max b = LOG_BUFFER_SIZE"

definition empty_standard :: "log_buffer \<Rightarrow> bool" where
  "empty_standard b \<longleftrightarrow> b = fresh_buffer"

text \<open>
  Everything logged is in the file, or waits in the writer's buffers, the full buffers and the current
  one, in this order. The reserves are empty; the writer has its two back whenever it is looping, and
  has enough full buffers to take them back from when it is writing.
\<close>

definition log_inv :: "log_event list \<Rightarrow> async_logger \<Rightarrow> bool" where
  "log_inv es s \<longleftrightarrow>
     al_file s @ concat (map lb_data (al_pending s @ al_dirty s @ [al_cur s])) = logged es \<and>
     standard (al_cur s) \<and> list_all standard (al_dirty s) \<and> list_all standard (al_pending s) \<and>
     (\<forall>b. al_next s = Some b \<longrightarrow> b = fresh_buffer) \<and>
     (\<forall>b. al_spare s = Some b \<longrightarrow> b = fresh_buffer) \<and>
     (\<forall>b. al_spare_next s = Some b \<longrightarrow> b = fresh_buffer) \<and>
     (al_next s = None \<longrightarrow> al_dirty s \<noteq> []) \<and>
     (if al_phase s = Writing
      then al_spare s = None \<and> (if al_spare_next s = None then 2 \<le> length (al_pending s) else al_pending s \<noteq> [])
      else al_pending s = [] \<and> al_spare s \<noteq> None \<and> al_spare_next s \<noteq> None)"

lemma fresh_buffer_simps [simp]:
  "lb_data fresh_buffer = []" "standard fresh_buffer" "lb_avail fresh_buffer = LOG_BUFFER_SIZE"
  "lb_max fresh_buffer = LOG_BUFFER_SIZE"
  by (simp_all add: fresh_buffer_def new_log_buffer_def standard_def lb_avail_def)

lemma lb_append_fits:
  assumes "length msg \<le> lb_avail b"
  shows "lb_data (snd (lb_append msg b)) = lb_data b @ msg" "lb_max (snd (lb_append msg b)) = lb_max b"
  using assms by (auto simp: lb_append_def)

lemma lb_clear_fresh [simp]: "standard b \<Longrightarrow> lb_clear b = fresh_buffer"
  by (simp add: standard_def lb_clear_def fresh_buffer_def new_log_buffer_def)

lemma log_inv_new: "log_inv [] running_logger"
  by (simp add: log_inv_def running_logger_def al_run_def new_logger_def)

lemma log_inv_append:
  assumes "log_inv es s" and "length msg \<le> LOG_BUFFER_SIZE"
  shows "log_inv (es @ [Append msg]) (al_append msg s)"
proof (cases "length msg < lb_avail (al_cur s)")
  case True
  then show ?thesis
    using assms(1) lb_append_fits [of msg "al_cur s"] by (auto simp: log_inv_def al_append_def standard_def)
next
  case False
  let ?cur = "case al_next s of Some b \<Rightarrow> b | None \<Rightarrow> fresh_buffer"
  have "?cur = fresh_buffer" using assms(1) by (auto simp: log_inv_def split: option.splits)
  then show ?thesis
    using assms False lb_append_fits [of msg fresh_buffer]
    by (auto simp: log_inv_def al_append_def Let_def standard_def)
qed

lemma log_inv_swap:
  assumes "log_inv es s" and "al_phase s = Looping"
  obtains s' where "al_swap s = Inr s'" "log_inv (es @ [Swap]) s'"
proof -
  obtain b where b: "al_spare s = Some b" using assms by (auto simp: log_inv_def)
  have "log_inv (es @ [Swap]) (s\<lparr>al_pending := al_dirty s @ [al_cur s], al_dirty := [], al_cur := b,
      al_spare := None, al_next := (if al_next s = None then al_spare_next s else al_next s),
      al_spare_next := (if al_next s = None then None else al_spare_next s), al_phase := Writing\<rparr>)"
    using assms b by (cases "al_dirty s") (auto simp: log_inv_def)
  then show thesis using that b by (simp add: al_swap_def)
qed

lemma log_inv_write:
  assumes "log_inv es s" and "al_phase s = Writing"
  obtains s' where "al_write s = Inr s'" "log_inv (es @ [Write]) s'"
proof -
  let ?bufs = "if 2 < length (al_pending s) then take 2 (al_pending s) else al_pending s"
  have spare: "al_spare s = None" and std: "list_all standard (al_pending s)"
    and some: "if al_spare_next s = None then 2 \<le> length (al_pending s) else al_pending s \<noteq> []"
    using assms by (simp_all add: log_inv_def)
  have bufs: "?bufs \<noteq> []" "list_all standard ?bufs" "al_spare_next s = None \<Longrightarrow> length ?bufs = 2"
    using some std by (auto simp: list_all_iff dest: in_set_takeD split: if_splits)
  have first: "take_back (None, ?bufs) = Inr (Some fresh_buffer, butlast ?bufs)"
    using bufs(1,2) by (simp add: take_back_def list_all_iff)
  obtain nx rest where second: "take_back (al_spare_next s, butlast ?bufs) = Inr (Some nx, rest)"
    and nx: "nx = fresh_buffer"
  proof (cases "al_spare_next s")
    case None
    then have l: "length ?bufs = 2" using bufs(3) by blast
    then have ne: "butlast ?bufs \<noteq> []" by (metis length_butlast list.size(3) numeral_eq_one_iff
          one_add_one add_diff_cancel_left' zero_neq_one)
    then have "standard (last (butlast ?bufs))"
      using bufs(2) by (metis in_set_butlastD last_in_set list_all_iff)
    then show thesis using that None ne by (simp add: take_back_def)
  next
    case (Some b)
    then show thesis using that assms(1) by (simp add: take_back_def log_inv_def)
  qed
  have w: "al_write s = Inr (s\<lparr>al_file := al_file s @ concat (map lb_data (al_pending s)), al_pending := [],
      al_spare := Some fresh_buffer, al_spare_next := Some fresh_buffer, al_phase := Looping\<rparr>)"
    using first second nx spare by (simp add: al_write_def Let_def)
  show thesis by (rule that [OF w]) (use assms in \<open>auto simp: log_inv_def\<close>)
qed

lemma log_inv_step:
  assumes "log_inv es s" and "log_step s e s'"
  shows "log_inv (es @ [e]) s'"
  using assms(2,1)
proof cases
  case (append msg)
  then show ?thesis using log_inv_append [OF assms(1)] by simp
next
  case swap
  then show ?thesis using log_inv_swap [OF assms(1)] by (metis sum.inject(2))
next
  case flush
  then show ?thesis using log_inv_write [OF assms(1)] by (metis sum.inject(2))
next
  case ending
  then show ?thesis using assms(1) by (auto simp: log_inv_def al_terminate_def)
next
  case leave
  then show ?thesis using assms(1) by (auto simp: log_inv_def)
qed

lemma log_inv_run: "log_run s es t \<Longrightarrow> log_inv [] s \<Longrightarrow> log_inv es t"
  by (induction rule: log_run.induct) (auto intro: log_inv_step)

section \<open>Properties\<close>

text \<open>
  The writer keeps the log. In every reachable state, with messages appended by other threads
  between any two steps of the writer, the file followed by the writer's buffers, the full buffers
  and the current buffer is what was logged, in order; so the file is always a prefix of the log, and
  neither the assertions of the writer nor its null checks ever fail.
\<close>

lemma logger_keeps_order:
  assumes "log_run running_logger es s"
  shows "al_file s @ concat (map lb_data (al_pending s @ al_dirty s @ [al_cur s])) = logged es \<and>
    (al_phase s = Looping \<longrightarrow> (\<exists>s'. al_swap s = Inr s')) \<and>
    (al_phase s = Writing \<longrightarrow> (\<exists>s'. al_write s = Inr s'))"
proof -
  have inv: "log_inv es s" by (rule log_inv_run [OF assms log_inv_new])
  have "\<exists>s'. al_swap s = Inr s'" if "al_phase s = Looping" using log_inv_swap [OF inv that] by blast
  moreover have "\<exists>s'. al_write s = Inr s'" if "al_phase s = Writing" using log_inv_write [OF inv that] by blast
  ultimately show ?thesis using inv unfolding log_inv_def by blast
qed

definition quick_run :: "log_event list" where
  "quick_run = [Append ''x'', Terminate, Exit]"

lemma quick_run_reaches:
  obtains s where "log_run running_logger quick_run s" "al_phase s = Ended" "al_file s = []"
proof -
  let ?s1 = "al_append ''x'' running_logger"
  have 1: "log_step running_logger (Append ''x'') ?s1"
    by (rule log_step.append) (simp add: LOG_BUFFER_SIZE_def)
  have s1: "al_phase ?s1 = Looping" "al_file ?s1 = []"
    by (simp_all add: al_append_def running_logger_def al_run_def new_logger_def LOG_BUFFER_SIZE_def)
  have 2: "log_step ?s1 Terminate (al_terminate ?s1)" by (rule ending)
  have 3: "log_step (al_terminate ?s1) Exit ((al_terminate ?s1)\<lparr>al_phase := Ended\<rparr>)"
    by (rule leave) (simp_all add: al_terminate_def s1)
  have "log_run running_logger (([] @ [Append ''x'']) @ [Terminate] @ [Exit]) ((al_terminate ?s1)\<lparr>al_phase := Ended\<rparr>)"
    using more [OF more [OF more [OF start 1] 2] 3] by simp
  then show thesis
    using that by (simp add: quick_run_def al_terminate_def s1)
qed

lemma logger_keeps_order_witness: "\<exists>s. log_run running_logger quick_run s \<and>
    al_file s @ concat (map lb_data (al_pending s @ al_dirty s @ [al_cur s])) = ''x''"
proof -
  obtain s where "log_run running_logger quick_run s" by (rule quick_run_reaches)
  then show ?thesis using logger_keeps_order by (fastforce simp: quick_run_def)
qed


text \<open>
  Formatting integers. \<open>convert\<close> gives the decimal numeral with its sign, for every value of every
  integer type, the least one included, and never more than the 31 characters its buffer has room for.
\<close>

lemma convert_is_decimal:
  "convert i = (if i < 0 then ''-'' else []) @ decimal (nat \<bar>i\<bar>) \<and>
   (- (2 ^ 63) \<le> i \<and> i < 2 ^ 64 \<longrightarrow> length (convert i) < K_MAXNUMERIC_SIZE)"
proof -
  have eq: "convert i = (if i < 0 then ''-'' else []) @ decimal (nat \<bar>i\<bar>)"
    using convert_loop_decimal [of i] by (simp add: convert_def)
  have "length (convert i) < K_MAXNUMERIC_SIZE" if "- (2 ^ 63) \<le> i \<and> i < 2 ^ 64"
  proof -
    have "nat \<bar>i\<bar> < 10 ^ 20" using that by auto
    then have "length (decimal (nat \<bar>i\<bar>)) \<le> 20" by (rule length_decimal) simp
    then show ?thesis unfolding eq K_MAXNUMERIC_SIZE_def by (cases "i < 0") simp_all
  qed
  with eq show ?thesis by blast
qed

lemma convert_is_decimal_witness:
  "convert (-120) = ''-120'' \<and> length (convert (-120)) < K_MAXNUMERIC_SIZE"
proof -
  have d: "decimal 120 = ''120''"
    by (simp add: decimal.simps [of 120] decimal.simps [of 12] decimal.simps [of 1]) code_simp
  show ?thesis using convert_is_decimal [of "-120"] by (simp add: d K_MAXNUMERIC_SIZE_def)
qed

end
