(* ===== verification/Logger.thy ===== *)
theory Logger
  imports Logging
begin

text \<open>
  The front end of logging (\<open>include/base/Logger.h\<close>, \<open>src/base/Logger.cpp\<close>): the macros, the line a
  \<open>Logger\<close> object builds, with the time kept from one line to the next, and the hand-over to the writer
  thread, which the first line starts. Then the whole: what the log file holds when threads log at
  will.
\<close>

section \<open>Log lines\<close>

text \<open>
  The levels of \<open>Logger\<close> and its macros: debugging and informational lines depend on \<open>g_log_level\<close>,
  warnings and errors do not.
\<close>

datatype log_level = DEBUG | INFO | WARNING | ERROR

fun level_number :: "log_level \<Rightarrow> nat" where
  "level_number DEBUG = 0"
| "level_number INFO = 1"
| "level_number WARNING = 2"
| "level_number ERROR = 3"

instantiation log_level :: linorder
begin

definition less_eq_log_level :: "log_level \<Rightarrow> log_level \<Rightarrow> bool" where
  "less_eq_log_level a b \<longleftrightarrow> level_number a \<le> level_number b"

definition less_log_level :: "log_level \<Rightarrow> log_level \<Rightarrow> bool" where
  "less_log_level a b \<longleftrightarrow> level_number a < level_number b"

instance
proof
  fix a b c :: log_level
  show "a < b \<longleftrightarrow> a \<le> b \<and> \<not> b \<le> a" by (auto simp: less_eq_log_level_def less_log_level_def)
  show "a \<le> a" by (simp add: less_eq_log_level_def)
  show "a \<le> b \<Longrightarrow> b \<le> c \<Longrightarrow> a \<le> c" by (simp add: less_eq_log_level_def)
  show "a \<le> b \<Longrightarrow> b \<le> a \<Longrightarrow> a = b" by (cases a; cases b) (simp_all add: less_eq_log_level_def)
  show "a \<le> b \<or> b \<le> a" by (auto simp: less_eq_log_level_def)
qed

end

definition log_enabled :: "log_level \<Rightarrow> log_level \<Rightarrow> bool" where
  "log_enabled g_log_level level \<longleftrightarrow>
     (if level \<in> {DEBUG, INFO} then g_log_level \<le> level else True)"

lemma log_enabled_mono: "log_enabled g a \<Longrightarrow> a \<le> b \<Longrightarrow> log_enabled g b"
  by (cases a; cases b; cases g) (simp_all add: log_enabled_def less_eq_log_level_def)

text \<open>What a line is made of, in the order of its \<open>operator<<\<close> calls.\<close>

datatype log_item =
    Put_bool bool | Put_char char | Put_cstring "string option" | Put_string string
  | Put_integer int | Put_pointer nat | Put_double string

fun put_item :: "log_item \<Rightarrow> log_buffer \<Rightarrow> log_buffer" where
  "put_item (Put_bool v) = put_bool v"
| "put_item (Put_char v) = put_char v"
| "put_item (Put_cstring s) = put_cstring s"
| "put_item (Put_string s) = put_string s"
| "put_item (Put_integer i) = format_integer i"
| "put_item (Put_pointer p) = put_pointer p"
| "put_item (Put_double t) = put_double t"

text \<open>
  The two static variables of \<open>format_base_info\<close>: the second of the last line and its text. What
  \<open>localtime\<close> and \<open>snprintf\<close> make of a second is the argument \<open>localtime\<close>.
\<close>

record log_clock =
  lastsec :: int
  str_t :: string

definition new_log_clock :: log_clock where
  "new_log_clock = \<lparr>lastsec = 0, str_t = []\<rparr>"

definition update_clock :: "(int \<Rightarrow> string) \<Rightarrow> int \<Rightarrow> log_clock \<Rightarrow> log_clock" where
  "update_clock localtime tv_sec c =
     (if lastsec c \<noteq> tv_sec then c\<lparr>lastsec := tv_sec, str_t := localtime tv_sec\<rparr> else c)"

text \<open>Where and when a line is logged; \<open>lo_tid\<close> is the hash of the thread's identifier.\<close>

record log_origin =
  lo_level :: log_level
  lo_file :: string
  lo_line :: nat
  lo_func :: string
  lo_tid :: nat
  lo_sec :: int
  lo_usec :: nat

fun LEVEL_STRING :: "log_level \<Rightarrow> string" where
  "LEVEL_STRING DEBUG = ''DEBUG''"
| "LEVEL_STRING INFO = ''INFO''"
| "LEVEL_STRING WARNING = ''WARNING''"
| "LEVEL_STRING ERROR = ''ERROR''"

text \<open>\<open>%03ld\<close>.\<close>

definition pad3 :: "nat \<Rightarrow> string" where
  "pad3 n = replicate (3 - length (decimal n)) (CHR ''0'') @ decimal n"

definition PREINFO_LEN :: nat where
  "PREINFO_LEN = 256"

definition preinfo :: "string \<Rightarrow> log_origin \<Rightarrow> string" where
  "preinfo time p =
     ''['' @ LEVEL_STRING (lo_level p) @ '']['' @ time @ ''.'' @ pad3 (lo_usec p div 1000) @ ''][''
     @ lo_file p @ '':'' @ decimal (lo_line p) @ '' '' @ lo_func p @ ''][pid:'' @ decimal (lo_tid p) @ ''] ''"

text \<open>\<open>snprintf\<close> keeps what fits its array with the zero byte.\<close>

definition format_base_info ::
    "(int \<Rightarrow> string) \<Rightarrow> log_origin \<Rightarrow> log_clock \<times> log_buffer \<Rightarrow> log_clock \<times> log_buffer" where
  "format_base_info localtime p cb =
     (let c = update_clock localtime (lo_sec p) (fst cb) in
      (c, put_cstring (Some (take (PREINFO_LEN - 1) (preinfo (str_t c) p))) (snd cb)))"

text \<open>
  The \<open>Logger\<close> of one statement: its constructor, the \<open>operator<<\<close> calls, and the end of the line its
  destructor adds before it passes the buffer on.
\<close>

definition log_line :: "(int \<Rightarrow> string) \<Rightarrow> log_origin \<Rightarrow> log_item list \<Rightarrow> log_clock \<Rightarrow> string \<times> log_clock" where
  "log_line localtime p items c =
     (case format_base_info localtime p (c, new_log_buffer LOG_BUFFER_SIZE) of
        (c', b) \<Rightarrow> (lb_data (put_cstring (Some [CHR 0x0A]) (fold put_item items b)), c'))"

section \<open>What a line is\<close>

definition lb_ok :: "log_buffer \<Rightarrow> bool" where
  "lb_ok b \<longleftrightarrow> length (lb_data b) \<le> lb_max b \<and> lb_max b = LOG_BUFFER_SIZE"

lemma lb_ok_append: "lb_ok b \<Longrightarrow> lb_ok (snd (lb_append s b))"
  by (auto simp: lb_ok_def lb_append_def lb_avail_def)

lemma lb_ok_item: "lb_ok b \<Longrightarrow> lb_ok (put_item i b)"
  by (cases i) (auto simp: put_bool_def put_char_def put_cstring_def put_string_def format_integer_def
      put_pointer_def put_double_def lb_ok_append split: option.splits)

lemma lb_ok_items: "lb_ok b \<Longrightarrow> lb_ok (fold put_item items b)"
  by (induction items arbitrary: b) (simp_all add: lb_ok_item)

text \<open>What is in a buffer stays at its front.\<close>

definition extends :: "log_buffer \<Rightarrow> log_buffer \<Rightarrow> bool" where
  "extends b b' \<longleftrightarrow> (\<exists>s. lb_data b' = lb_data b @ s)"

lemma extends_append: "extends b (snd (lb_append s b))"
  by (auto simp: extends_def lb_append_def)

lemma extends_refl [simp]: "extends b b"
  by (simp add: extends_def)

lemma extends_item: "extends b (put_item i b)"
  by (cases i) (auto simp: put_bool_def put_char_def put_cstring_def put_string_def format_integer_def
      put_pointer_def put_double_def extends_append split: option.splits)

lemma extends_trans: "extends a b \<Longrightarrow> extends b c \<Longrightarrow> extends a c"
  by (auto simp: extends_def)

lemma extends_items: "extends b (fold put_item items b)"
proof (induction items arbitrary: b)
  case (Cons i items)
  from extends_trans [OF extends_item Cons.IH] show ?case by simp
qed simp

text \<open>The time kept is that of the second it is kept for.\<close>

definition clock_ok :: "(int \<Rightarrow> string) \<Rightarrow> log_clock \<Rightarrow> bool" where
  "clock_ok localtime c \<longleftrightarrow> lastsec c \<noteq> 0 \<longrightarrow> str_t c = localtime (lastsec c)"

lemma clock_ok_new: "clock_ok localtime new_log_clock"
  by (simp add: clock_ok_def new_log_clock_def)

lemma update_clock_ok:
  "clock_ok localtime c \<Longrightarrow> clock_ok localtime (update_clock localtime sec c) \<and>
    (sec \<noteq> 0 \<longrightarrow> str_t (update_clock localtime sec c) = localtime sec)"
  by (auto simp: clock_ok_def update_clock_def)

text \<open>A line: what it starts with, how it ends, and its length.\<close>

definition good_line :: "(int \<Rightarrow> string) \<Rightarrow> log_origin \<Rightarrow> string \<Rightarrow> bool" where
  "good_line localtime p l \<longleftrightarrow>
     length l \<le> LOG_BUFFER_SIZE \<and>
     (\<exists>s. l = take (PREINFO_LEN - 1) (preinfo (localtime (lo_sec p)) p) @ s) \<and>
     (last l = CHR 0x0A \<or> length l = LOG_BUFFER_SIZE)"

lemma log_line_good:
  assumes "clock_ok localtime c" and "lo_sec p \<noteq> 0" and "log_line localtime p items c = (l, c')"
  shows "good_line localtime p l" "clock_ok localtime c'"
proof -
  let ?c = "update_clock localtime (lo_sec p) c" and ?new = "new_log_buffer LOG_BUFFER_SIZE"
  let ?info = "take (PREINFO_LEN - 1) (preinfo (localtime (lo_sec p)) p)"
  let ?b0 = "put_cstring (Some ?info) ?new"
  let ?b1 = "fold put_item items ?b0"
  have c: "clock_ok localtime ?c" "str_t ?c = localtime (lo_sec p)"
    using update_clock_ok [OF assms(1), of "lo_sec p"] assms(2) by auto
  have l: "l = lb_data (snd (lb_append [CHR 0x0A] ?b1))" "c' = ?c"
    using assms(3) c(2) by (auto simp: log_line_def format_base_info_def Let_def put_cstring_def)
  show "clock_ok localtime c'" using c(1) l(2) by simp
  have new: "lb_ok ?new" by (simp add: lb_ok_def new_log_buffer_def)
  have ok: "lb_ok ?b1" by (intro lb_ok_items) (use lb_ok_append [OF new] in \<open>simp add: put_cstring_def\<close>)
  have "length ?info \<le> lb_avail ?new"
    by (simp add: PREINFO_LEN_def lb_avail_def new_log_buffer_def LOG_BUFFER_SIZE_def)
  then have info: "lb_data ?b0 = ?info"
    by (simp add: put_cstring_def lb_append_def new_log_buffer_def del: length_take)
  obtain s where s: "lb_data ?b1 = ?info @ s" using extends_items [of ?b0 items] info by (auto simp: extends_def)
  have "length l \<le> LOG_BUFFER_SIZE" using lb_ok_append [OF ok, of "[CHR 0x0A]"] unfolding l(1) lb_ok_def by simp
  moreover have "\<exists>s. l = ?info @ s" using s by (auto simp: l(1) lb_append_def)
  moreover have "last l = CHR 0x0A \<or> length l = LOG_BUFFER_SIZE"
    using ok by (auto simp: l(1) lb_append_def lb_avail_def lb_ok_def)
  ultimately show "good_line localtime p l" by (simp add: good_line_def)
qed

section \<open>The whole\<close>

text \<open>
  The state all threads share. The lines under construction, each in the \<open>Logger\<close> object of its thread,
  are kept with their origins; \<open>ls_done\<close> lists those handed over, in order. \<open>None\<close> is
  \<open>async_logger_ptr\<close> before \<open>thread_once\<close> has run.
\<close>

record log_system =
  ls_clock :: log_clock
  ls_open :: "(log_origin \<times> string) list"
  ls_done :: "(log_origin \<times> string) list"
  ls_logger :: "async_logger option"

definition new_log_system :: log_system where
  "new_log_system = \<lparr>ls_clock = new_log_clock, ls_open = [], ls_done = [], ls_logger = None\<rparr>"

definition thread_once :: "async_logger option \<Rightarrow> async_logger" where
  "thread_once s = (case s of None \<Rightarrow> running_logger | Some a \<Rightarrow> a)"

definition transfer :: "string \<Rightarrow> async_logger option \<Rightarrow> async_logger option" where
  "transfer msg s = Some (al_append msg (thread_once s))"

text \<open>A thread starts a line that is enabled, finishes one, or the writer thread goes on.\<close>

inductive system_step :: "(int \<Rightarrow> string) \<Rightarrow> log_level \<Rightarrow> log_system \<Rightarrow> log_system \<Rightarrow> bool"
  for localtime g_log_level where
  begun: "log_enabled g_log_level (lo_level p) \<Longrightarrow> lo_sec p \<noteq> 0 \<Longrightarrow>
    log_line localtime p items (ls_clock s) = (l, c) \<Longrightarrow>
    system_step localtime g_log_level s (s\<lparr>ls_clock := c, ls_open := ls_open s @ [(p, l)]\<rparr>)"
| finished: "ls_open s = xs @ (p, l) # ys \<Longrightarrow>
    system_step localtime g_log_level s
      (s\<lparr>ls_open := xs @ ys, ls_done := ls_done s @ [(p, l)], ls_logger := transfer l (ls_logger s)\<rparr>)"
| writer: "ls_logger s = Some a \<Longrightarrow> log_step a e a' \<Longrightarrow> e \<in> {Swap, Write, Terminate, Exit} \<Longrightarrow>
    system_step localtime g_log_level s (s\<lparr>ls_logger := Some a'\<rparr>)"

definition system_inv :: "(int \<Rightarrow> string) \<Rightarrow> log_level \<Rightarrow> log_system \<Rightarrow> bool" where
  "system_inv localtime g s \<longleftrightarrow>
     clock_ok localtime (ls_clock s) \<and>
     (\<forall>(p, l) \<in> set (ls_open s @ ls_done s). good_line localtime p l \<and> log_enabled g (lo_level p)) \<and>
     (case ls_logger s of
        None \<Rightarrow> ls_done s = []
      | Some a \<Rightarrow> \<exists>es. log_inv es a \<and> logged es = concat (map snd (ls_done s)))"

lemma system_inv_step:
  assumes "system_step localtime g s s'" and "system_inv localtime g s"
  shows "system_inv localtime g s'"
  using assms(1)
proof cases
  case (begun p items l c)
  have "good_line localtime p l" "clock_ok localtime c"
    using log_line_good [OF _ begun(3,4)] assms(2) by (simp_all add: system_inv_def)
  then show ?thesis using assms(2) begun(1,2) by (auto simp: system_inv_def split: option.splits)
next
  case (finished xs p l ys)
  have good: "good_line localtime p l" using assms(2) finished(2) by (simp add: system_inv_def)
  obtain es where es: "log_inv es (thread_once (ls_logger s))" "logged es = concat (map snd (ls_done s))"
    using assms(2) log_inv_new by (cases "ls_logger s") (auto simp: system_inv_def thread_once_def intro: that [of "[]"])
  have "log_inv (es @ [Append l]) (al_append l (thread_once (ls_logger s)))"
    by (rule log_inv_append [OF es(1)]) (use good in \<open>simp add: good_line_def\<close>)
  then have "\<exists>es. log_inv es (al_append l (thread_once (ls_logger s))) \<and> logged es = concat (map snd (ls_done s)) @ l"
    using es(2) by (intro exI [of _ "es @ [Append l]"]) simp
  then show ?thesis using assms(2) finished by (auto simp: system_inv_def transfer_def)
next
  case (writer a e a')
  then obtain es where es: "log_inv es a" "logged es = concat (map snd (ls_done s))"
    using assms(2) by (auto simp: system_inv_def)
  have "log_inv (es @ [e]) a'" by (rule log_inv_step [OF es(1) writer(3)])
  moreover have "logged (es @ [e]) = concat (map snd (ls_done s))" using es(2) writer(4) by auto
  ultimately show ?thesis using assms(2) writer(1) by (auto simp: system_inv_def)
qed

lemma system_inv_reach:
  "(system_step localtime g)\<^sup>*\<^sup>* new_log_system s \<Longrightarrow> system_inv localtime g s"
proof (induction rule: rtranclp_induct)
  case base
  show ?case by (simp add: system_inv_def new_log_system_def clock_ok_new)
qed (auto intro: system_inv_step)

section \<open>Properties\<close>


definition demo_origin :: log_origin where
  "demo_origin = \<lparr>lo_level = INFO, lo_file = ''f.cpp'', lo_line = 7, lo_func = ''main'', lo_tid = 1,
     lo_sec = 5, lo_usec = 0\<rparr>"


end
