(* ===== verification/TcpServer.thy ===== *)
theory TcpServer
  imports Prelude "HOL-Library.Multiset"
begin

text \<open>
  The table of connections of \<open>TcpServer\<close> (\<open>src/net/TcpServer.cpp\<close>): accepting, subscribing,
  broadcasting, the cleaner of dead connections and \<open>close\<close>; and the event loop, with one-shot
  readiness events, as a transition system.
\<close>

section \<open>The table\<close>

text \<open>
  \<open>clients_idx_\<close> is listed in the order its iterators visit it. A mapped null pointer, which
  \<open>operator[]\<close> leaves behind for a missing descriptor, is \<open>None\<close>. \<open>'h\<close> stands for the handlers.
\<close>

record connection =
  cn_ip :: "byte list"
  cn_connected :: bool

record 'h observer =
  ob_wanted_ip :: "byte list"
  ob_incoming :: "'h option"
  ob_disconnection :: "'h option"

record 'h tcp_server =
  sv_sock :: int
  sv_clients :: "(int \<times> connection option) list"
  sv_write_mtx :: "int list"
  sv_subscribers :: "'h observer list"
  sv_closed :: "int list"

definition subscribe :: "'h observer \<Rightarrow> 'h tcp_server \<Rightarrow> 'h tcp_server" where
  "subscribe ob s = s\<lparr>sv_subscribers := sv_subscribers s @ [ob]\<rparr>"

text \<open>The handlers called, in order, for a message and for a disconnection of a client.\<close>

definition wants :: "byte list \<Rightarrow> 'h observer \<Rightarrow> bool" where
  "wants ip ob \<longleftrightarrow> ob_wanted_ip ob = ip \<or> ob_wanted_ip ob = []"

fun publish_msg :: "byte list \<Rightarrow> 'h observer list \<Rightarrow> 'h list" where
  "publish_msg ip [] = []"
| "publish_msg ip (sub # subs) =
     (if wants ip sub
      then (case ob_incoming sub of Some h \<Rightarrow> h # publish_msg ip subs | None \<Rightarrow> publish_msg ip subs)
      else publish_msg ip subs)"

fun publish_disconnected :: "byte list \<Rightarrow> 'h observer list \<Rightarrow> 'h list" where
  "publish_disconnected ip [] = []"
| "publish_disconnected ip (sub # subs) =
     (if wants ip sub
      then (case ob_disconnection sub of
              Some h \<Rightarrow> h # publish_disconnected ip subs | None \<Rightarrow> publish_disconnected ip subs)
      else publish_disconnected ip subs)"

text \<open>\<open>insert\<close> keeps an entry that is already there.\<close>

definition insert_client :: "int \<Rightarrow> connection \<Rightarrow> 'h tcp_server \<Rightarrow> 'h tcp_server" where
  "insert_client fd c s =
     (if fd \<in> fst ` set (sv_clients s) then s
      else s\<lparr>sv_clients := sv_clients s @ [(fd, Some c)]\<rparr>)"

text \<open>\<open>accept\<close>'s descriptor, or -1, and the peer's address are arguments.\<close>

definition accept_client :: "int \<Rightarrow> byte list \<Rightarrow> 'h tcp_server \<Rightarrow> (byte list \<times> 'h tcp_server) outcome" where
  "accept_client desc ip s =
     (if desc = -1 then Inl Runtime_error
      else Inr (ip, insert_client desc \<lparr>cn_ip = ip, cn_connected = True\<rparr> s))"

section \<open>Sending\<close>

text \<open>
  \<open>Client::send\<close> of a string: the number of bytes the kernel took, or \<open>None\<close> for -1. It throws unless
  all of it went out.
\<close>

definition client_send_all :: "nat option \<Rightarrow> nat \<Rightarrow> unit outcome" where
  "client_send_all ret msg_size =
     (case ret of
        None \<Rightarrow> Inl Runtime_error
      | Some n \<Rightarrow> if n < msg_size then Inl Runtime_error else Inr ())"

text \<open>
  \<open>send_to_client\<close>: \<open>True\<close> is \<open>SUCCESS\<close>. \<open>send fd\<close> is what the kernel answers on that descriptor.
\<close>

definition send_to :: "(int \<Rightarrow> nat option) \<Rightarrow> nat \<Rightarrow> int \<times> connection option \<Rightarrow> bool outcome" where
  "send_to send len c =
     (case snd c of
        None \<Rightarrow> Inl Null_deref
      | Some _ \<Rightarrow>
          (case client_send_all (send (fst c)) len of Inl e \<Rightarrow> Inr False | Inr _ \<Rightarrow> Inr True))"

text \<open>The broadcast stops at the first failure; the second component lists the descriptors tried.\<close>

fun send_to_all :: "(int \<Rightarrow> nat option) \<Rightarrow> nat \<Rightarrow> (int \<times> connection option) list \<Rightarrow> (bool \<times> int list) outcome" where
  "send_to_all send len [] = Inr (True, [])"
| "send_to_all send len (c # cs) =
     rbind (send_to send len c) (\<lambda>ok.
       if ok then rbind (send_to_all send len cs) (\<lambda>(r, fds). Inr (r, fst c # fds))
       else Inr (False, [fst c]))"

fun send_to_ip :: "(int \<Rightarrow> nat option) \<Rightarrow> nat \<Rightarrow> byte list \<Rightarrow> (int \<times> connection option) list \<Rightarrow> bool outcome" where
  "send_to_ip send len ip [] = Inr False"
| "send_to_ip send len ip ((fd, None) # cs) = Inl Null_deref"
| "send_to_ip send len ip ((fd, Some c) # cs) =
     (if cn_ip c = ip then send_to send len (fd, Some c) else send_to_ip send len ip cs)"

section \<open>Removing dead connections\<close>

text \<open>\<open>std::find_if\<close> for a client that is not connected, from the beginning each time.\<close>

fun find_dead :: "(int \<times> connection option) list \<Rightarrow> int option outcome" where
  "find_dead [] = Inr None"
| "find_dead ((fd, None) # cs) = Inl Null_deref"
| "find_dead ((fd, Some c) # cs) = (if \<not> cn_connected c then Inr (Some fd) else find_dead cs)"

lemma find_dead_in: "find_dead cs = Inr (Some fd) \<Longrightarrow> fd \<in> fst ` set cs"
  by (induction cs rule: find_dead.induct) (auto split: if_splits)

text \<open>\<open>closes fd\<close> says whether the system call succeeds; otherwise \<open>Client::close\<close> throws.\<close>

definition erase_client :: "int \<Rightarrow> 'h tcp_server \<Rightarrow> 'h tcp_server" where
  "erase_client fd s =
     s\<lparr>sv_clients := filter (\<lambda>c. fst c \<noteq> fd) (sv_clients s),
       sv_write_mtx := filter (\<lambda>m. m \<noteq> fd) (sv_write_mtx s),
       sv_closed := sv_closed s @ [fd]\<rparr>"

function remove_dead :: "(int \<Rightarrow> bool) \<Rightarrow> 'h tcp_server \<Rightarrow> 'h tcp_server outcome" where
  "remove_dead closes s =
     rbind (find_dead (sv_clients s)) (\<lambda>removed.
       case removed of
         None \<Rightarrow> Inr s
       | Some fd \<Rightarrow> if closes fd then remove_dead closes (erase_client fd s) else Inl Runtime_error)"
  by pat_completeness auto
termination
proof (relation "measure (\<lambda>(_, s). length (sv_clients s))")
  fix closes :: "int \<Rightarrow> bool" and s :: "'h tcp_server" and r fd
  assume "find_dead (sv_clients s) = Inr r" "r = Some fd"
  then have "fd \<in> fst ` set (sv_clients s)" using find_dead_in by blast
  then obtain c where "c \<in> set (sv_clients s)" "fst c = fd" by auto
  then have "length (filter (\<lambda>c. fst c \<noteq> fd) (sv_clients s)) < length (sv_clients s)"
    by (rule_tac length_filter_less) auto
  then show "((closes, erase_client fd s), closes, s) \<in> measure (\<lambda>(_, s). length (sv_clients s))"
    by (simp add: erase_client_def)
qed simp

declare remove_dead.simps [simp del]

section \<open>Closing the server\<close>

text \<open>
  \<open>Client::close\<close> clears the connected flag and then makes the system call; the loop stops at the first
  that throws. The result: whether all went well, the descriptors closed, and the table.
\<close>

fun close_all ::
    "(int \<Rightarrow> bool) \<Rightarrow> (int \<times> connection option) list \<Rightarrow> (bool \<times> int list \<times> (int \<times> connection option) list) outcome" where
  "close_all closes [] = Inr (True, [], [])"
| "close_all closes ((fd, None) # cs) = Inl Null_deref"
| "close_all closes ((fd, Some c) # cs) =
     (let c' = c\<lparr>cn_connected := False\<rparr> in
      if closes fd
      then rbind (close_all closes cs) (\<lambda>(ok, fds, cs'). Inr (ok, fd # fds, (fd, Some c') # cs'))
      else Inr (False, [], (fd, Some c') # cs))"

definition close_server :: "(int \<Rightarrow> bool) \<Rightarrow> 'h tcp_server \<Rightarrow> (bool \<times> 'h tcp_server) outcome" where
  "close_server closes s =
     rbind (close_all closes (sv_clients s)) (\<lambda>(ok, fds, cs).
       let s = s\<lparr>sv_closed := sv_closed s @ fds, sv_clients := cs\<rparr> in
       if \<not> ok then Inr (False, s)
       else let s = s\<lparr>sv_clients := []\<rparr>
            in if closes (sv_sock s) then Inr (True, s\<lparr>sv_closed := sv_closed s @ [sv_sock s]\<rparr>)
               else Inr (False, s))"

lemma close_all_ok:
  assumes "\<forall>c \<in> set cs. snd c \<noteq> None" and "\<forall>c \<in> set cs. closes (fst c)"
  shows "\<exists>cs'. close_all closes cs = Inr (True, map fst cs, cs')"
  using assms by (induction closes cs rule: close_all.induct) (auto simp: Let_def)

section \<open>The event loop\<close>

text \<open>
  \<open>add_fd\<close> registers a connection for one event; when \<open>epoll_wait\<close> reports it, \<open>handle_et_event\<close>
  submits a task that drains the socket, and the kernel reports nothing more for it until the task
  calls \<open>reset_oneshot\<close>, which it does if \<open>receive_data\<close> returned \<open>true\<close>. Connections are numbered in the
  order they are accepted.
\<close>

record event_loop =
  ev_armed :: "nat set"
  ev_tasks :: "nat multiset"
  ev_next :: nat

definition new_event_loop :: event_loop where
  "new_event_loop = \<lparr>ev_armed = {}, ev_tasks = {#}, ev_next = 0\<rparr>"

definition add_fd :: "nat \<Rightarrow> event_loop \<Rightarrow> event_loop" where
  "add_fd c l = l\<lparr>ev_armed := insert c (ev_armed l)\<rparr>"

definition reset_oneshot :: "nat \<Rightarrow> event_loop \<Rightarrow> event_loop" where
  "reset_oneshot c l = l\<lparr>ev_armed := insert c (ev_armed l)\<rparr>"

inductive loop_step :: "event_loop \<Rightarrow> event_loop \<Rightarrow> bool" where
  accepted: "loop_step l (add_fd (ev_next l) (l\<lparr>ev_next := Suc (ev_next l)\<rparr>))"
| readable: "c \<in> ev_armed l \<Longrightarrow>
    loop_step l (l\<lparr>ev_armed := ev_armed l - {c}, ev_tasks := add_mset c (ev_tasks l)\<rparr>)"
| drained: "c \<in># ev_tasks l \<Longrightarrow>
    loop_step l (reset_oneshot c (l\<lparr>ev_tasks := ev_tasks l - {#c#}\<rparr>))"
| failed: "c \<in># ev_tasks l \<Longrightarrow> loop_step l (l\<lparr>ev_tasks := ev_tasks l - {#c#}\<rparr>)"

inductive_simps loop_step_simps: "loop_step l l'"

definition loop_inv :: "event_loop \<Rightarrow> bool" where
  "loop_inv l \<longleftrightarrow>
     (\<forall>c. count (ev_tasks l) c \<le> 1) \<and> (\<forall>c \<in> ev_armed l. count (ev_tasks l) c = 0 \<and> c < ev_next l) \<and>
     (\<forall>c. 0 < count (ev_tasks l) c \<longrightarrow> c < ev_next l)"

lemma loop_inv_step:
  assumes "loop_step l l'" and "loop_inv l"
  shows "loop_inv l'"
  using assms
proof cases
  case accepted
  have "count (ev_tasks l) (ev_next l) = 0"
    using assms(2) unfolding loop_inv_def by (metis less_irrefl neq0_conv)
  then show ?thesis
    using assms(2) accepted by (auto simp: loop_inv_def add_fd_def less_Suc_eq)
next
  case (readable c)
  then show ?thesis using assms(2) by (auto simp: loop_inv_def)
next
  case (drained c)
  then have "count (ev_tasks l) c = 1" using assms(2) by (simp add: loop_inv_def count_greater_zero_iff le_antisym Suc_leI)
  then show ?thesis
    using assms(2) drained by (auto simp: loop_inv_def reset_oneshot_def)
next
  case (failed c)
  then show ?thesis
    using assms(2) by (auto simp: loop_inv_def)
qed

section \<open>What the cleaner leaves\<close>

definition alive :: "int \<times> connection option \<Rightarrow> bool" where
  "alive c \<longleftrightarrow> (\<exists>cn. snd c = Some cn \<and> cn_connected cn)"

definition dead_fds :: "'h tcp_server \<Rightarrow> int list" where
  "dead_fds s = map fst (filter (\<lambda>c. \<not> alive c) (sv_clients s))"

definition no_null :: "'h tcp_server \<Rightarrow> bool" where
  "no_null s \<longleftrightarrow> (\<forall>c \<in> set (sv_clients s). snd c \<noteq> None)"

lemma find_dead_ok:
  assumes "\<forall>c \<in> set cs. snd c \<noteq> None"
  shows "find_dead cs = Inr (case filter (\<lambda>c. \<not> alive c) cs of [] \<Rightarrow> None | c # _ \<Rightarrow> Some (fst c))"
  using assms by (induction cs rule: find_dead.induct) (auto simp: alive_def)

lemma erase_first_dead:
  assumes "distinct (map fst cs)" and "filter (\<lambda>c. \<not> alive c) cs = d # ds"
  shows "filter alive (filter (\<lambda>c. fst c \<noteq> fst d) cs) = filter alive cs"
    and "filter (\<lambda>c. \<not> alive c) (filter (\<lambda>c. fst c \<noteq> fst d) cs) = ds"
proof -
  have d: "d \<in> set cs" "\<not> alive d" using assms(2) by (auto dest: filter_eq_ConsD)
  have same: "c = d" if "c \<in> set cs" "fst c = fst d" for c
    using assms(1) d(1) that by (auto simp: distinct_map dest: inj_onD)
  show "filter alive (filter (\<lambda>c. fst c \<noteq> fst d) cs) = filter alive cs"
    unfolding filter_filter by (rule filter_cong) (use d same in auto)
  have "filter (\<lambda>c. \<not> alive c) (filter (\<lambda>c. fst c \<noteq> fst d) cs) =
      filter (\<lambda>c. fst c \<noteq> fst d) (filter (\<lambda>c. \<not> alive c) cs)"
    unfolding filter_filter by (rule filter_cong) auto
  moreover have "distinct (map fst (d # ds))"
    unfolding assms(2) [symmetric] using assms(1) by (rule distinct_map_filter)
  then have "filter (\<lambda>c. fst c \<noteq> fst d) ds = ds" by (auto simp: filter_id_conv image_iff)
  ultimately show "filter (\<lambda>c. \<not> alive c) (filter (\<lambda>c. fst c \<noteq> fst d) cs) = ds"
    by (simp add: assms(2))
qed

definition cleaned :: "'h tcp_server \<Rightarrow> 'h tcp_server" where
  "cleaned s =
     s\<lparr>sv_clients := filter alive (sv_clients s),
       sv_write_mtx := filter (\<lambda>m. m \<notin> set (dead_fds s)) (sv_write_mtx s),
       sv_closed := sv_closed s @ dead_fds s\<rparr>"

lemma remove_dead_ok:
  assumes "no_null s" and "distinct (map fst (sv_clients s))" and "\<forall>fd \<in> set (dead_fds s). closes fd"
  shows "remove_dead closes s = Inr (cleaned s)"
  using assms
proof (induction "length (dead_fds s)" arbitrary: s)
  case 0
  then have none: "filter (\<lambda>c. \<not> alive c) (sv_clients s) = []" by (simp add: dead_fds_def)
  then have "\<forall>c \<in> set (sv_clients s). alive c" by (simp add: filter_empty_conv)
  then have "cleaned s = s" using none by (simp add: cleaned_def dead_fds_def)
  then show ?case
    using 0 none find_dead_ok [of "sv_clients s"]
    by (subst remove_dead.simps) (simp add: no_null_def)
next
  case (Suc n)
  then obtain d ds where d: "filter (\<lambda>c. \<not> alive c) (sv_clients s) = d # ds"
    by (cases "filter (\<lambda>c. \<not> alive c) (sv_clients s)") (auto simp: dead_fds_def)
  let ?t = "erase_client (fst d) s"
  note erased = erase_first_dead [OF Suc.prems(2) d]
  have dead: "dead_fds s = fst d # map fst ds" "dead_fds ?t = map fst ds"
    using d erased(2) by (simp_all add: dead_fds_def erase_client_def)
  have "remove_dead closes ?t = Inr (cleaned ?t)"
    using Suc dead by (intro Suc.hyps(1)) (auto simp: no_null_def erase_client_def distinct_map_filter)
  moreover have "cleaned ?t = cleaned s"
    using erased(1) dead by (simp add: cleaned_def) (auto simp: erase_client_def filter_filter conj_commute)
  moreover have "find_dead (sv_clients s) = Inr (Some (fst d))"
    using find_dead_ok [of "sv_clients s"] Suc.prems(1) d by (simp add: no_null_def)
  moreover have "closes (fst d)" using Suc.prems(3) dead(1) by simp
  ultimately show ?case by (subst remove_dead.simps) simp
qed

section \<open>Properties\<close>

text \<open>
  C28: the cleaner. One round of \<open>remove_dead_clients\<close>, which searches the table from its start after
  every erasure, ends having closed each dead connection once, in table order, and removed it and its
  write lock; the live connections are all left, in order.
\<close>

theorem cleaner_removes_exactly_the_dead:
  assumes "no_null s" and "distinct (map fst (sv_clients s))" and "\<forall>fd \<in> set (dead_fds s). closes fd"
  shows "remove_dead closes s =
    Inr (s\<lparr>sv_clients := filter alive (sv_clients s),
           sv_write_mtx := filter (\<lambda>m. m \<notin> set (dead_fds s)) (sv_write_mtx s),
           sv_closed := sv_closed s @ dead_fds s\<rparr>)"
  using remove_dead_ok [OF assms] by (simp add: cleaned_def)

definition two_clients :: "nat tcp_server" where
  "two_clients =
     \<lparr>sv_sock = 3, sv_clients = [(5, Some \<lparr>cn_ip = [1], cn_connected = False\<rparr>),
        (6, Some \<lparr>cn_ip = [2], cn_connected = True\<rparr>)],
      sv_write_mtx = [6, 5], sv_subscribers = [], sv_closed = []\<rparr>"

theorem cleaner_removes_exactly_the_dead_witness:
  "\<exists>s. remove_dead (\<lambda>_. True) two_clients = Inr s \<and> map fst (sv_clients s) = [6] \<and>
    sv_write_mtx s = [6] \<and> sv_closed s = [5]"
  using cleaner_removes_exactly_the_dead [of two_clients "\<lambda>_. True"]
  by (simp add: two_clients_def no_null_def dead_fds_def alive_def)



end
