(* ===== verification/ServerLoop.thy ===== *)
theory ServerLoop
  imports TcpServer Receive RPCClient
begin

text \<open>
  \<open>TcpServer\<close> in operation (\<open>src/net/TcpServer.cpp\<close>): starting, one round of the event loop on the
  table of connections, the dispatch of a connection's events, and the invariant of the table that
  the cleaner and the broadcasts rely on.
\<close>

section \<open>Starting\<close>

text \<open>
  What the system calls answer: the descriptors of \<open>socket\<close> and \<open>epoll_create\<close>, the results of \<open>bind\<close>
  and \<open>listen\<close>, and the message for \<open>errno\<close>. The state started from is the constructor's.
\<close>

record boot =
  bt_socket :: int
  bt_bind :: int
  bt_listen :: int
  bt_epoll :: int
  bt_error :: "byte list"

record server_state =
  ss_sock :: int
  ss_epoll :: "int option"
  ss_cleaner :: bool
  ss_pool :: bool
  ss_watched :: "(int \<times> bool) list"

definition new_server_state :: server_state where
  "new_server_state = \<lparr>ss_sock = -1, ss_epoll = None, ss_cleaner = False, ss_pool = False, ss_watched = []\<rparr>"

text \<open>Each throws \<open>std::runtime_error\<close> when its call gives -1.\<close>

definition initialize_socket :: "boot \<Rightarrow> server_state \<Rightarrow> server_state \<times> unit outcome" where
  "initialize_socket B s =
     (s\<lparr>ss_sock := bt_socket B\<rparr>, if bt_socket B = -1 then Inl Runtime_error else Inr ())"

definition bind_addres :: "boot \<Rightarrow> unit outcome" where
  "bind_addres B = (if bt_bind B = -1 then Inl Runtime_error else Inr ())"

definition listen_client :: "boot \<Rightarrow> unit outcome" where
  "listen_client B = (if bt_listen B = -1 then Inl Runtime_error else Inr ())"

definition init_epoll :: "boot \<Rightarrow> server_state \<Rightarrow> server_state \<times> unit outcome" where
  "init_epoll B s =
     (s\<lparr>ss_epoll := Some (bt_epoll B)\<rparr>, if bt_epoll B = -1 then Inl Runtime_error else Inr ())"

text \<open>\<open>add_fd(sock_fd_, false)\<close>: watched without \<open>EPOLLONESHOT\<close>.\<close>

definition start :: "boot \<Rightarrow> bool \<Rightarrow> server_state \<Rightarrow> result_type \<times> server_state" where
  "start B remove_dead_client_auto s =
     (let s = (if remove_dead_client_auto then s\<lparr>ss_cleaner := True\<rparr> else s) in
      case initialize_socket B s of
        (s, Inl _) \<Rightarrow> (FAILURE (bt_error B), s)
      | (s, Inr _) \<Rightarrow>
          (case rbind (bind_addres B) (\<lambda>_. listen_client B) of
             Inl _ \<Rightarrow> (FAILURE (bt_error B), s)
           | Inr _ \<Rightarrow>
               (case init_epoll B s of
                  (s, Inl _) \<Rightarrow> (FAILURE (bt_error B), s)
                | (s, Inr _) \<Rightarrow>
                    (SUCCESS, s\<lparr>ss_watched := ss_watched s @ [(ss_sock s, False)], ss_pool := True\<rparr>))))"

text \<open>\<open>terminate_dead_clients_remover\<close> tells the cleaner to stop and joins it.\<close>

definition terminate_dead_clients_remover :: "server_state \<Rightarrow> server_state" where
  "terminate_dead_clients_remover s = s\<lparr>ss_cleaner := False\<rparr>"

definition close_tcp_server ::
    "(int \<Rightarrow> bool) \<Rightarrow> server_state \<Rightarrow> 'h tcp_server \<Rightarrow> (bool \<times> server_state \<times> 'h tcp_server) outcome" where
  "close_tcp_server closes s t =
     (let s = terminate_dead_clients_remover s in
      rbind (close_server closes t) (\<lambda>(ok, t). Inr (ok, s, t)))"

section \<open>One round of the event loop\<close>

text \<open>
  An event: its descriptor, whether it has \<open>EPOLLIN\<close>, and what \<open>accept\<close> and \<open>inet_ntoa\<close> answer should it
  come to that.
\<close>

record net_event =
  ne_fd :: int
  ne_readable :: bool
  ne_desc :: int
  ne_ip :: "byte list"

text \<open>\<open>clients_idx_[file_desc]\<close> inserts a null pointer for a descriptor that is missing.\<close>

definition index_client :: "int \<Rightarrow> 'h tcp_server \<Rightarrow> 'h tcp_server" where
  "index_client fd s =
     (if fd \<in> fst ` set (sv_clients s) then s else s\<lparr>sv_clients := sv_clients s @ [(fd, None)]\<rparr>)"

definition ensure_mtx :: "int \<Rightarrow> 'h tcp_server \<Rightarrow> 'h tcp_server" where
  "ensure_mtx fd s =
     (if fd \<in> set (sv_write_mtx s) then s else s\<lparr>sv_write_mtx := sv_write_mtx s @ [fd]\<rparr>)"

text \<open>The result of one event lists the descriptors for which a task was submitted.\<close>

definition handle_event :: "net_event \<Rightarrow> 'h tcp_server \<Rightarrow> (int list \<times> 'h tcp_server) outcome" where
  "handle_event e s =
     (if ne_fd e = sv_sock s
      then rbind (accept_client (ne_desc e) (ne_ip e) s) (\<lambda>(_, s). Inr ([], s))
      else if ne_readable e then Inr ([ne_fd e], ensure_mtx (ne_fd e) (index_client (ne_fd e) s))
      else Inr ([], s))"

fun handle_et_event :: "net_event list \<Rightarrow> 'h tcp_server \<Rightarrow> (int list \<times> 'h tcp_server) outcome" where
  "handle_et_event [] s = Inr ([], s)"
| "handle_et_event (e # es) s =
     rbind (handle_event e s) (\<lambda>(ts, s).
     rbind (handle_et_event es s) (\<lambda>(us, s). Inr (ts @ us, s)))"

text \<open>The handler \<open>accept_client\<close> gives every connection: which subscribers' handlers run.\<close>

definition client_event_handler :: "byte list \<Rightarrow> client_event \<Rightarrow> 'h tcp_server \<Rightarrow> 'h list" where
  "client_event_handler ip event s =
     (case event of
        DISCONNECTED \<Rightarrow> publish_disconnected ip (sv_subscribers s)
      | INCOMING_MSG \<Rightarrow> publish_msg ip (sv_subscribers s))"

lemma publish_msg_eq:
  "publish_msg ip subs = map (the \<circ> ob_incoming) (filter (\<lambda>ob. wants ip ob \<and> ob_incoming ob \<noteq> None) subs)"
  by (induction subs) (auto split: option.splits)

lemma publish_disconnected_eq:
  "publish_disconnected ip subs =
    map (the \<circ> ob_disconnection) (filter (\<lambda>ob. wants ip ob \<and> ob_disconnection ob \<noteq> None) subs)"
  by (induction subs) (auto split: option.splits)

section \<open>The table over time\<close>

definition new_tcp_server :: "int \<Rightarrow> 'h tcp_server" where
  "new_tcp_server sock =
     \<lparr>sv_sock = sock, sv_clients = [], sv_write_mtx = [], sv_subscribers = [], sv_closed = []\<rparr>"

definition table_fds :: "'h tcp_server \<Rightarrow> int set" where
  "table_fds s = fst ` set (sv_clients s)"

text \<open>\<open>set_connected(false)\<close> on the client of a descriptor, as its task or a failed response does.\<close>

definition lose_client :: "int \<Rightarrow> 'h tcp_server \<Rightarrow> 'h tcp_server" where
  "lose_client fd s =
     s\<lparr>sv_clients := map (\<lambda>(f, c). (f, if f = fd then map_option (cn_connected_update (\<lambda>_. False)) c else c))
        (sv_clients s)\<rparr>"

text \<open>
  What the kernel promises of an event: a descriptor that \<open>accept\<close> returns is not one the table still
  holds (those are open) nor the listening socket, and only watched connections become readable.
\<close>

definition sane_event :: "'h tcp_server \<Rightarrow> net_event \<Rightarrow> bool" where
  "sane_event s e \<longleftrightarrow>
     (if ne_fd e = sv_sock s then ne_desc e \<notin> table_fds s \<and> ne_desc e \<noteq> sv_sock s
      else ne_readable e \<longrightarrow> ne_fd e \<in> table_fds s)"

inductive server_step :: "'h tcp_server \<Rightarrow> 'h tcp_server \<Rightarrow> bool" where
  event: "sane_event s e \<Longrightarrow> handle_event e s = Inr (ts, s') \<Longrightarrow> server_step s s'"
| lost: "server_step s (lose_client fd s)"
| subscribed: "server_step s (subscribe ob s)"
| clean: "remove_dead closes s = Inr s' \<Longrightarrow> server_step s s'"

inductive_cases server_stepE: "server_step s s'"

text \<open>Every descriptor once, no null pointers, and write locks for connections of the table only.\<close>

definition table_ok :: "'h tcp_server \<Rightarrow> bool" where
  "table_ok s \<longleftrightarrow>
     distinct (map fst (sv_clients s)) \<and> no_null s \<and> sv_sock s \<notin> table_fds s \<and>
     distinct (sv_write_mtx s) \<and> set (sv_write_mtx s) \<subseteq> table_fds s"

lemma table_okI:
  assumes "table_ok s" and "map fst (sv_clients s') = map fst (sv_clients s)" and "no_null s'"
    and "sv_sock s' = sv_sock s" and "sv_write_mtx s' = sv_write_mtx s"
  shows "table_ok s'"
proof -
  have "table_fds s' = table_fds s" using assms(2) unfolding table_fds_def by (metis list.set_map)
  then show ?thesis using assms by (simp add: table_ok_def)
qed

lemma table_ok_event:
  assumes "table_ok s" and "sane_event s e" and "handle_event e s = Inr (ts, s')"
  shows "table_ok s'"
proof (cases "ne_fd e = sv_sock s")
  case True
  then have "ne_desc e \<notin> table_fds s" "ne_desc e \<noteq> sv_sock s" using assms(2) by (simp_all add: sane_event_def)
  moreover from this have "s' = s\<lparr>sv_clients := sv_clients s @ [(ne_desc e, Some \<lparr>cn_ip = ne_ip e, cn_connected = True\<rparr>)]\<rparr>"
    using assms(3) True
    by (auto simp: handle_event_def accept_client_def insert_client_def table_fds_def split: if_splits)
  ultimately show ?thesis
    using assms(1) unfolding table_ok_def table_fds_def no_null_def by auto
next
  case False
  show ?thesis
  proof (cases "ne_readable e")
    case True
    then have "ne_fd e \<in> table_fds s" using assms(2) False by (simp add: sane_event_def)
    moreover from this have "index_client (ne_fd e) s = s" by (simp add: index_client_def table_fds_def)
    then have "s' = ensure_mtx (ne_fd e) s" using assms(3) True False by (simp add: handle_event_def)
    moreover have "table_fds (ensure_mtx fd s) = table_fds s" for fd by (simp add: ensure_mtx_def table_fds_def)
    ultimately show ?thesis
      using assms(1) by (simp add: table_ok_def) (simp add: ensure_mtx_def no_null_def)
  qed (use assms False in \<open>simp add: handle_event_def\<close>)
qed

lemma table_ok_lost:
  assumes "table_ok s"
  shows "table_ok (lose_client fd s)"
proof (rule table_okI [OF assms])
  show "map fst (sv_clients (lose_client fd s)) = map fst (sv_clients s)"
    by (simp add: lose_client_def comp_def case_prod_beta)
  show "no_null (lose_client fd s)"
    using assms by (auto simp: lose_client_def table_ok_def no_null_def)
qed (simp_all add: lose_client_def)

lemma table_ok_erase: "table_ok s \<Longrightarrow> table_ok (erase_client fd s)"
  by (auto simp: table_ok_def erase_client_def table_fds_def no_null_def distinct_map_filter)

lemma table_ok_clean: "remove_dead closes s = Inr s' \<Longrightarrow> table_ok s \<Longrightarrow> table_ok s'"
proof (induction closes s arbitrary: s' rule: remove_dead.induct)
  case (1 closes s)
  note unfold = remove_dead.simps [of closes s]
  obtain r where r: "find_dead (sv_clients s) = Inr r"
    using "1.prems"(1) unfold by (cases "find_dead (sv_clients s)") auto
  show ?case
  proof (cases r)
    case None
    then show ?thesis using "1.prems" r unfold by simp
  next
    case (Some fd)
    then have c: "closes fd" "remove_dead closes (erase_client fd s) = Inr s'"
      using "1.prems"(1) r unfold by (simp_all split: if_splits)
    show ?thesis by (rule "1.IH" [OF r Some c table_ok_erase [OF "1.prems"(2)]])
  qed
qed

lemma table_ok_step: "server_step s s' \<Longrightarrow> table_ok s \<Longrightarrow> table_ok s'"
proof (induction rule: server_step.induct)
  case (event s e ts s')
  then show ?case by (rule_tac table_ok_event [of s e ts s'])
next
  case (lost s fd)
  then show ?case by (rule table_ok_lost)
next
  case (subscribed s ob)
  then have "no_null s" by (simp add: table_ok_def)
  then show ?case by (intro table_okI [OF subscribed.prems]) (simp_all add: subscribe_def no_null_def)
next
  case (clean closes s s')
  then show ?case by (rule table_ok_clean)
qed

lemma table_ok_reach: "server_step\<^sup>*\<^sup>* s t \<Longrightarrow> table_ok s \<Longrightarrow> table_ok t"
  by (induction rule: rtranclp_induct) (auto intro: table_ok_step)

lemma table_ok_new: "table_ok (new_tcp_server sock)"
  by (simp add: table_ok_def new_tcp_server_def table_fds_def no_null_def)

section \<open>Sending to everybody\<close>

lemma send_to_all_ok:
  assumes "\<forall>c \<in> set cs. snd c \<noteq> None"
  shows "send_to_all send len cs =
    (let good = (\<lambda>c. \<exists>n. send (fst c) = Some n \<and> len \<le> n) in
     Inr (list_all good cs,
          map fst (takeWhile good cs) @ map fst (take 1 (dropWhile good cs))))"
  using assms
proof (induction cs)
  case (Cons c cs)
  then obtain cn where "snd c = Some cn" by auto
  then show ?case
    using Cons by (cases "send (fst c)") (simp_all add: send_to_def client_send_all_def Let_def)
qed (simp add: Let_def)

section \<open>Properties\<close>


definition demo_event :: net_event where
  "demo_event = \<lparr>ne_fd = 3, ne_readable = True, ne_desc = 5, ne_ip = [1]\<rparr>"


text \<open>
  A broadcast. \<open>send_to_all_clients\<close> tries the connections in table order and stops at the first one
  that does not take the whole message; it succeeds exactly if all of them take it.
\<close>

lemma broadcast_stops_at_first_failure:
  assumes "no_null s"
  shows "send_to_all send len (sv_clients s) =
    (let good = (\<lambda>c. \<exists>n. send (fst c) = Some n \<and> len \<le> n) in
     Inr (list_all good (sv_clients s),
          map fst (takeWhile good (sv_clients s)) @ map fst (take 1 (dropWhile good (sv_clients s)))))"
  by (rule send_to_all_ok) (use assms in \<open>simp add: no_null_def\<close>)

lemma broadcast_stops_at_first_failure_witness:
  "send_to_all (\<lambda>fd. if fd = 6 then Some 1 else Some 9) 4 (sv_clients two_clients) = Inr (False, [5, 6])"
  using broadcast_stops_at_first_failure [of two_clients "\<lambda>fd. if fd = 6 then Some 1 else Some 9" 4]
  by (simp add: two_clients_def no_null_def Let_def)

text \<open>
  Starting. \<open>start\<close> succeeds exactly if all four system calls do; then the listening socket is
  watched, without one-shot, and the pool exists. Otherwise it reports the failure and there is no
  pool; the cleaner thread runs in either case.
\<close>

lemma start_outcome:
  "(case start B auto new_server_state of (r, s) \<Rightarrow>
     (is_successful r \<longleftrightarrow> -1 \<notin> {bt_socket B, bt_bind B, bt_listen B, bt_epoll B}) \<and>
     (is_successful r \<longleftrightarrow> ss_pool s) \<and> (is_successful r \<longleftrightarrow> ss_watched s = [(bt_socket B, False)]) \<and>
     ss_cleaner s = auto \<and> (r = SUCCESS \<or> r = FAILURE (bt_error B)))"
  by (simp add: start_def initialize_socket_def bind_addres_def listen_client_def init_epoll_def
      new_server_state_def is_successful_def Let_def)

end
