(* ===== verification/TcpClient.thy ===== *)
theory TcpClient
  imports Prelude
begin

text \<open>
  The send buffer of \<open>TcpClient\<close> (\<open>src/net/TcpClient.cpp\<close>): what could not be sent without blocking
  is kept for the next message.
\<close>

section \<open>Model\<close>

text \<open>
  One call of \<open>send\<close>: the number of bytes taken, or -1 with \<open>EWOULDBLOCK\<close>, \<open>EINTR\<close> or another error.
\<close>

datatype send_result = Sent nat | Would_block | Interrupted_send | Send_error

type_synonym 'k sender = "byte list \<Rightarrow> 'k \<Rightarrow> send_result \<times> 'k"

definition BUFFER_SIZE :: nat where
  "BUFFER_SIZE = 2048 * 1024"

datatype send_status = Sent_ok | Sent_failure string

text \<open>
  The loop from \<open>sent_byte\<close> on: the status, what \<open>buffer_\<close> holds afterwards, and the kernel. It does not
  return while every call is interrupted.
\<close>

partial_function (option) send_loop ::
    "'k sender \<Rightarrow> byte list \<Rightarrow> nat \<Rightarrow> 'k \<Rightarrow> (send_status \<times> byte list \<times> 'k) option" where
  "send_loop send buf sent_byte k =
     (case send (drop sent_byte buf) k of
        (Would_block, k') \<Rightarrow> Some (Sent_ok, drop sent_byte buf, k')
      | (Interrupted_send, k') \<Rightarrow> send_loop send buf sent_byte k'
      | (Send_error, k') \<Rightarrow> Some (Sent_failure ''sent failed!'', buf, k')
      | (Sent n, k') \<Rightarrow>
          if n = 0 then Some (Sent_failure ''sent failed!'', buf, k')
          else if sent_byte + n = length buf then Some (Sent_ok, [], k')
          else send_loop send buf (sent_byte + n) k')"

definition send_msg ::
    "'k sender \<Rightarrow> byte list \<Rightarrow> byte list \<Rightarrow> 'k \<Rightarrow> (send_status \<times> byte list \<times> 'k) option" where
  "send_msg send msg buf k =
     (if msg = [] then Some (Sent_failure ''msg size is 0!'', buf, k)
      else if BUFFER_SIZE - length buf < length msg
      then Some (Sent_failure ''Buffer data exceeds limit size!'', [], k)
      else send_loop send (buf @ msg) 0 k)"

section \<open>What the kernel promises\<close>

text \<open>
  \<open>send\<close> takes a prefix of what it is offered, and nothing when it fails; and it is interrupted only
  \<open>patience k\<close> more times before it does anything else.
\<close>

definition stream_sender :: "'k sender \<Rightarrow> ('k \<Rightarrow> byte list) \<Rightarrow> ('k \<Rightarrow> nat) \<Rightarrow> bool" where
  "stream_sender send out patience \<longleftrightarrow>
     (\<forall>bs k r k'. send bs k = (r, k') \<longrightarrow>
        (case r of Sent n \<Rightarrow> n \<le> length bs \<and> out k' = out k @ take n bs \<and> patience k' \<le> patience k
         | Interrupted_send \<Rightarrow> out k' = out k \<and> patience k' < patience k
         | _ \<Rightarrow> out k' = out k))"

text \<open>What holds when \<open>send_loop\<close> returns.\<close>

definition sent_right :: "('k \<Rightarrow> byte list) \<Rightarrow> byte list \<Rightarrow> nat \<Rightarrow> 'k \<Rightarrow> send_status \<times> byte list \<times> 'k \<Rightarrow> bool" where
  "sent_right out buf from k r \<longleftrightarrow>
     (case r of
        (Sent_ok, rest, k') \<Rightarrow> out k' @ rest = out k @ drop from buf
      | (Sent_failure _, rest, k') \<Rightarrow> rest = buf \<and> (\<exists>n. out k' = out k @ take n (drop from buf)))"

lemma take_drop_more: "take n (drop i xs) @ take m (drop (i + n) xs) = take (n + m) (drop i xs)"
  by (metis add.commute drop_drop take_add)

lemma sent_right_more:
  assumes "out k' = out k @ take n (drop from buf)" and "sent_right out buf (from + n) k' r"
    and "from + n \<le> length buf"
  shows "sent_right out buf from k r"
proof -
  have "drop from buf = take n (drop from buf) @ drop (from + n) buf"
    by (metis add.commute append_take_drop_id drop_drop)
  then show ?thesis
    using assms take_drop_more [of n "from" buf]
    by (auto simp: sent_right_def split: send_status.splits)
qed

lemma send_loop_ok:
  assumes "stream_sender send out patience" and "from < length buf"
  shows "\<exists>r. send_loop send buf from k = Some r \<and> sent_right out buf from k r"
  using assms(2)
proof (induction "patience k + (length buf - from)" arbitrary: "from" k rule: less_induct)
  case less
  obtain r k' where r: "send (drop from buf) k = (r, k')" by fastforce
  note promise = assms(1) [unfolded stream_sender_def, rule_format, OF r]
  show ?case
  proof (cases r)
    case (Sent n)
    then have n: "n \<le> length buf - from" "out k' = out k @ take n (drop from buf)" "patience k' \<le> patience k"
      using promise by auto
    show ?thesis
    proof (cases "n = 0 \<or> from + n = length buf")
      case True
      then show ?thesis
        using r Sent n(2)
        by (subst send_loop.simps) (auto simp: sent_right_def intro!: exI [of _ 0])
    next
      case False
      then have "from + n < length buf" "patience k' + (length buf - (from + n)) < patience k + (length buf - from)"
        using n less.prems by auto
      then obtain q where "send_loop send buf (from + n) k' = Some q" "sent_right out buf (from + n) k' q"
        using less.hyps by blast
      then show ?thesis
        using r Sent False sent_right_more [of out k' k n "from" buf q, OF n(2)] \<open>from + n < length buf\<close>
        by (subst send_loop.simps) auto
    qed
  next
    case Would_block
    then show ?thesis using r promise by (subst send_loop.simps) (simp add: sent_right_def)
  next
    case Interrupted_send
    then have k': "out k' = out k" "patience k' < patience k" using promise by auto
    then have "patience k' + (length buf - from) < patience k + (length buf - from)" by simp
    then obtain q where "send_loop send buf from k' = Some q" "sent_right out buf from k' q"
      using less.hyps less.prems by blast
    then show ?thesis
      using r Interrupted_send k'(1) sent_right_more [of out k' k 0 "from" buf q] less.prems
      by (subst send_loop.simps) auto
  next
    case Send_error
    then show ?thesis
      using r promise by (subst send_loop.simps) (auto simp: sent_right_def intro!: exI [of _ 0])
  qed
qed

text \<open>A message: on success the stream goes on, and the buffer never grows beyond its size.\<close>

lemma message_sent_or_kept:
  assumes "stream_sender send out patience" and "msg \<noteq> []" and "length buf + length msg \<le> BUFFER_SIZE"
  shows "\<exists>r rest k'. send_msg send msg buf k = Some (r, rest, k') \<and>
    (r = Sent_ok \<longrightarrow> out k' @ rest = out k @ buf @ msg) \<and>
    (r \<noteq> Sent_ok \<longrightarrow> rest = buf @ msg \<and> (\<exists>n. out k' = out k @ take n (buf @ msg)))"
proof -
  have fits: "\<not> BUFFER_SIZE - length buf < length msg" using assms(3) by simp
  obtain q where q: "send_loop send (buf @ msg) 0 k = Some q" "sent_right out (buf @ msg) 0 k q"
    using send_loop_ok [OF assms(1), of 0 "buf @ msg" k] assms(2) by auto
  obtain r rest k' where "q = (r, rest, k')" by (cases q) auto
  then show ?thesis
    using q assms(2) fits by (cases r) (auto simp: send_msg_def sent_right_def)
qed

text \<open>A loop that returns has sent the rest of the buffer, or kept a part or all of it.\<close>

lemma send_loop_bound:
  assumes "send_loop send buf from k = Some (r, rest, k')"
  shows "length rest \<le> length buf"
proof -
  have "length (fst (snd x)) \<le> length buf" if "send_loop send buf from k = Some x" for x
    by (rule send_loop.raw_induct [OF _ that,
          where P = "\<lambda>send buf from k x. length (fst (snd x)) \<le> length buf"])
      (auto split: prod.splits send_result.splits if_splits)
  from this [OF assms] show ?thesis by simp
qed

lemma send_msg_bound:
  assumes "length buf \<le> BUFFER_SIZE" and "send_msg send msg buf k = Some (r, rest, k')"
  shows "length rest \<le> BUFFER_SIZE"
  using assms send_loop_bound [of send "buf @ msg" 0 k r rest k'] by (auto simp: send_msg_def split: if_splits)

lemma send_msg_returns:
  assumes "stream_sender send out patience" and "length buf \<le> BUFFER_SIZE"
  obtains r rest k' where "send_msg send msg buf k = Some (r, rest, k')" "length rest \<le> BUFFER_SIZE"
    "r = Sent_ok \<Longrightarrow> out k' @ rest = out k @ buf @ msg"
proof -
  consider (none) "msg = []" | (full) "msg \<noteq> []" "BUFFER_SIZE - length buf < length msg"
    | (room) "msg \<noteq> []" "length buf + length msg \<le> BUFFER_SIZE"
    using assms(2) by linarith
  then show thesis
  proof cases
    case none
    then show thesis using that [of "Sent_failure ''msg size is 0!''" buf k] assms(2) by (simp add: send_msg_def)
  next
    case full
    then show thesis
      using that [of "Sent_failure ''Buffer data exceeds limit size!''" "[]" k] by (simp add: send_msg_def)
  next
    case room
    then obtain r rest k' where "send_msg send msg buf k = Some (r, rest, k')"
        "r = Sent_ok \<longrightarrow> out k' @ rest = out k @ buf @ msg"
      using message_sent_or_kept [OF assms(1) room, of k] by auto
    then show thesis using that [of r rest k'] send_msg_bound [OF assms(2), of send msg k r rest k'] by simp
  qed
qed

section \<open>A sequence of messages\<close>

text \<open>The statuses of the calls, in order, and what \<open>buffer_\<close> holds after the last.\<close>

fun send_msgs :: "'k sender \<Rightarrow> byte list list \<Rightarrow> byte list \<Rightarrow> 'k \<Rightarrow> (send_status list \<times> byte list \<times> 'k) option" where
  "send_msgs send [] buf k = Some ([], buf, k)"
| "send_msgs send (m # ms) buf k =
     (case send_msg send m buf k of
        None \<Rightarrow> None
      | Some (r, buf', k') \<Rightarrow>
          (case send_msgs send ms buf' k' of
             None \<Rightarrow> None
           | Some (rs, buf'', k'') \<Rightarrow> Some (r # rs, buf'', k'')))"

section \<open>Properties\<close>

text \<open>
  C31: sending messages. If interruptions end, every call returns; whatever the socket accepts of each,
  the bytes kept for later never exceed the buffer; and if the calls report success, nothing is lost,
  repeated or reordered: what has gone out followed by what is kept is the earlier stream, the bytes
  kept before, and the messages.
\<close>

theorem messages_sent_in_order:
  assumes "stream_sender send out patience" and "length buf \<le> BUFFER_SIZE"
  shows "\<exists>rs rest k'. send_msgs send ms buf k = Some (rs, rest, k') \<and> length rs = length ms \<and>
    length rest \<le> BUFFER_SIZE \<and>
    (set rs \<subseteq> {Sent_ok} \<longrightarrow> out k' @ rest = out k @ buf @ concat ms)"
  using assms(2)
proof (induction ms arbitrary: buf k)
  case (Cons m ms)
  obtain r buf' k' where 1: "send_msg send m buf k = Some (r, buf', k')" "length buf' \<le> BUFFER_SIZE"
      "r = Sent_ok \<Longrightarrow> out k' @ buf' = out k @ buf @ m"
    by (rule send_msg_returns [OF assms(1) Cons.prems, of m k]) blast
  obtain rs rest k'' where 2: "send_msgs send ms buf' k' = Some (rs, rest, k'')" "length rs = length ms"
      "length rest \<le> BUFFER_SIZE" "set rs \<subseteq> {Sent_ok} \<longrightarrow> out k'' @ rest = out k' @ buf' @ concat ms"
    using Cons.IH [OF 1(2), of k'] by blast
  have "out k'' @ rest = out k @ buf @ concat (m # ms)" if "r = Sent_ok" "set rs \<subseteq> {Sent_ok}"
    using 1(3) [OF that(1)] 2(4) that(2) by (metis append_assoc concat.simps(2))
  then show ?case using 1(1) 2(1-3) by simp
qed simp

text \<open>A socket that takes two bytes, then would block.\<close>

definition full_socket :: "byte list sender" where
  "full_socket bs out =
     (if out = [] then (Sent (min 2 (length bs)), out @ take 2 bs) else (Would_block, out))"

theorem messages_sent_in_order_witness:
  "\<exists>rs rest out. send_msgs full_socket [[1, 2, 3, 4], [5]] [9] [] = Some (rs, rest, out) \<and>
    length rest \<le> BUFFER_SIZE \<and> (set rs \<subseteq> {Sent_ok} \<longrightarrow> out @ rest = [9, 1, 2, 3, 4, 5])"
proof -
  have "stream_sender full_socket (\<lambda>out. out) (\<lambda>_. 0)"
    by (auto simp: stream_sender_def full_socket_def min_def split: if_splits send_result.splits)
  from messages_sent_in_order [OF this, of "[9]" "[[1, 2, 3, 4], [5]]" "[]"] show ?thesis
    by (auto simp: BUFFER_SIZE_def)
qed

end
