(* ===== verification/ClientLoop.thy ===== *)
theory ClientLoop
  imports TcpClient RPCClient
begin

text \<open>
  \<open>TcpClient\<close> in operation (\<open>src/net/TcpClient.cpp\<close>): connecting, the receiving thread with the
  observers of \<open>include/net/ClientObserver.h\<close>, and closing. The system calls of connecting are those
  of \<open>RPCClient\<close>, whose code it shares word for word.
\<close>

section \<open>State\<close>

text \<open>\<open>tc_worker\<close>: \<open>worker_ptr\<close> holds a thread that has not been joined. \<open>'h\<close> stands for the handlers.\<close>

record 'h client_observer =
  co_incoming :: "'h option"
  co_disconnection :: "'h option"

record 'h tcp_client =
  tc_is_connected :: bool
  tc_is_closed :: bool
  tc_worker :: bool
  tc_subscribers :: "'h client_observer list"

definition new_tcp_client :: "'h tcp_client" where
  "new_tcp_client =
     \<lparr>tc_is_connected = False, tc_is_closed = True, tc_worker = False, tc_subscribers = []\<rparr>"

definition client_subscribe :: "'h client_observer \<Rightarrow> 'h tcp_client \<Rightarrow> 'h tcp_client" where
  "client_subscribe ob s = s\<lparr>tc_subscribers := tc_subscribers s @ [ob]\<rparr>"

section \<open>Connecting\<close>

text \<open>Assigning a new thread to \<open>worker_ptr\<close> destroys the old one; if that is joinable, the process ends.\<close>

definition start_worker :: "'h tcp_client \<Rightarrow> 'h tcp_client outcome" where
  "start_worker s = (if tc_worker s then Inl Terminate_called else Inr (s\<lparr>tc_worker := True\<rparr>))"

definition client_connected :: "'h tcp_client \<Rightarrow> (result_type \<times> 'h tcp_client) outcome" where
  "client_connected s =
     rbind (start_worker (s\<lparr>tc_is_connected := True, tc_is_closed := False\<rparr>)) (\<lambda>s. Inr (SUCCESS, s))"

definition tcp_connect_socket ::
    "'k connector \<Rightarrow> 'h tcp_client \<Rightarrow> 'k \<Rightarrow> ((result_type \<times> 'h tcp_client) outcome \<times> 'k) option" where
  "tcp_connect_socket K s k =
     (case connect_loop K k of
        None \<Rightarrow> None
      | Some (Connected, k) \<Rightarrow> Some (client_connected s, k)
      | Some (Refused err, k) \<Rightarrow> Some (Inr (FAILURE err, s), k)
      | Some (_, k) \<Rightarrow>
          (case wait_for_write K k of
             (Wait_success, k) \<Rightarrow>
               (case k_so_error K k of
                  (Some err, k) \<Rightarrow>
                    Some (if err = 0 then client_connected s else Inr (FAILURE (k_strerror K k), s), k)
                | (None, k) \<Rightarrow> Some (Inr (FAILURE (k_strerror K k), s), k))
           | (_, k) \<Rightarrow> Some (Inr (FAILURE (k_strerror K k), s), k)))"

definition tcp_connect_server ::
    "'k connector \<Rightarrow> 'h tcp_client \<Rightarrow> 'k \<Rightarrow> ((result_type \<times> 'h tcp_client) outcome \<times> 'k) option" where
  "tcp_connect_server K s k =
     (case k_setup K k of
        (Some err, k) \<Rightarrow> Some (Inr (FAILURE err, s), k)
      | (None, k) \<Rightarrow> tcp_connect_socket K s k)"

section \<open>The receiving thread\<close>

text \<open>The calls of handlers, in order: a message, or the reason of the disconnection.\<close>

datatype 'h handler_call = On_message 'h "byte list" | On_disconnect 'h "byte list"

fun publish_server_msg :: "'h client_observer list \<Rightarrow> byte list \<Rightarrow> 'h handler_call list" where
  "publish_server_msg [] msg = []"
| "publish_server_msg (sub # subs) msg =
     (case co_incoming sub of
        Some h \<Rightarrow> On_message h msg # publish_server_msg subs msg
      | None \<Rightarrow> publish_server_msg subs msg)"

fun publish_server_disconnected :: "'h client_observer list \<Rightarrow> byte list \<Rightarrow> 'h handler_call list" where
  "publish_server_disconnected [] ret = []"
| "publish_server_disconnected (sub # subs) ret =
     (case co_disconnection sub of
        Some h \<Rightarrow> On_disconnect h ret # publish_server_disconnected subs ret
      | None \<Rightarrow> publish_server_disconnected subs ret)"

text \<open>
  What the thread sees of the world: whether \<open>terminate_worker\<close> has cleared \<open>is_connected_\<close>, \<open>select\<close> for
  reading, \<open>recv\<close> with room for so many bytes, and the message for \<open>errno\<close>.
\<close>

record 'k reader_kernel =
  rk_stopped :: "'k \<Rightarrow> bool"
  rk_select :: "'k \<Rightarrow> int \<times> 'k"
  rk_recv :: "nat \<Rightarrow> 'k \<Rightarrow> byte list option \<times> 'k"
  rk_strerror :: "'k \<Rightarrow> byte list"

definition PACKET_ROOM :: nat where
  "PACKET_ROOM = 4096"

lemma PACKET_ROOM_pos: "0 < PACKET_ROOM"
  by (simp add: PACKET_ROOM_def)

definition wait_for_read :: "'k reader_kernel \<Rightarrow> 'k \<Rightarrow> wait_result \<times> 'k" where
  "wait_for_read K k =
     (case rk_select K k of
        (ret, k') \<Rightarrow> (if ret = -1 then Wait_failure else if ret = 0 then Wait_timeout else Wait_success, k'))"

text \<open>
  The thread's function: the handler calls so far are \<open>acc\<close>; the result is the calls made and the value
  of \<open>is_connected_\<close>. An exception that leaves it ends the process.
\<close>

partial_function (option) recv_loop ::
    "'k reader_kernel \<Rightarrow> 'h client_observer list \<Rightarrow> 'h handler_call list \<Rightarrow> 'k \<Rightarrow>
      ((bool \<times> 'h handler_call list) outcome \<times> 'k) option" where
  "recv_loop K subs acc k =
     (if rk_stopped K k then Some (Inr (False, acc), k)
      else case wait_for_read K k of
             (Wait_failure, k) \<Rightarrow> Some (Inl Terminate_called, k)
           | (Wait_timeout, k) \<Rightarrow> recv_loop K subs acc k
           | (Wait_success, k) \<Rightarrow>
               (case rk_recv K PACKET_ROOM k of
                  (None, k) \<Rightarrow> Some (Inr (False, acc @ publish_server_disconnected subs (rk_strerror K k)), k)
                | (Some msg, k) \<Rightarrow>
                    if msg = []
                    then Some (Inr (False, acc @ publish_server_disconnected subs (str_bytes ''Server closed connection'')), k)
                    else recv_loop K subs (acc @ publish_server_msg subs msg) k))"

definition recv_server ::
    "'k reader_kernel \<Rightarrow> 'h client_observer list \<Rightarrow> 'k \<Rightarrow>
      ((bool \<times> 'h handler_call list) outcome \<times> 'k) option" where
  "recv_server K subs k = recv_loop K subs [] k"

section \<open>Closing\<close>

definition terminate_worker :: "'h tcp_client \<Rightarrow> 'h tcp_client" where
  "terminate_worker s = s\<lparr>tc_is_connected := False, tc_worker := False\<rparr>"

text \<open>\<open>close_error\<close> is \<open>None\<close> when the system call succeeds.\<close>

definition tcp_close :: "byte list option \<Rightarrow> 'h tcp_client \<Rightarrow> result_type \<times> 'h tcp_client" where
  "tcp_close close_error s =
     (if tc_is_closed s then (FAILURE (str_bytes ''client is already closed''), s)
      else let s = terminate_worker s in
           case close_error of
             Some err \<Rightarrow> (FAILURE err, s)
           | None \<Rightarrow> (SUCCESS, s\<lparr>tc_is_closed := True\<rparr>))"

text \<open>The destructor closes; then the members go, and with \<open>worker_ptr\<close> the thread, if there still is one.\<close>

definition destroy_tcp_client :: "byte list option \<Rightarrow> 'h tcp_client \<Rightarrow> 'h tcp_client outcome" where
  "destroy_tcp_client close_error s =
     (let s = snd (tcp_close close_error s) in if tc_worker s then Inl Terminate_called else Inr s)"

section \<open>What the kernel promises\<close>

text \<open>
  A stream whose peer sends \<open>pending k\<close> more bytes and then closes: \<open>select\<close> times out only \<open>patience k\<close>
  more times, \<open>recv\<close> gives a piece of what is left, at most as much as there is room for, and nothing
  only at the end.
\<close>

definition closing_stream :: "'k reader_kernel \<Rightarrow> ('k \<Rightarrow> byte list) \<Rightarrow> ('k \<Rightarrow> nat) \<Rightarrow> bool" where
  "closing_stream K pending patience \<longleftrightarrow>
     (\<forall>k. \<not> rk_stopped K k) \<and>
     (\<forall>k ret k'. rk_select K k = (ret, k') \<longrightarrow>
        pending k' = pending k \<and> ret \<noteq> -1 \<and> (if ret = 0 then patience k' < patience k else patience k' \<le> patience k)) \<and>
     (\<forall>n k r k'. rk_recv K n k = (r, k') \<longrightarrow>
        (\<exists>msg. r = Some msg \<and> pending k = msg @ pending k' \<and> length msg \<le> n \<and>
          (0 < n \<longrightarrow> msg = [] \<longrightarrow> pending k = [])))"

lemma wait_for_read_ok:
  assumes "closing_stream K pending patience"
  obtains (timeout) k' where "wait_for_read K k = (Wait_timeout, k')" "pending k' = pending k" "patience k' < patience k"
  | (ready) k' where "wait_for_read K k = (Wait_success, k')" "pending k' = pending k"
proof -
  obtain ret k' where r: "rk_select K k = (ret, k')" by fastforce
  then have "pending k' = pending k" "ret \<noteq> -1" "ret = 0 \<longrightarrow> patience k' < patience k"
    using assms unfolding closing_stream_def by (metis (full_types))+
  then show thesis using that r by (cases "ret = 0") (auto simp: wait_for_read_def)
qed

definition all_calls :: "'h client_observer list \<Rightarrow> byte list list \<Rightarrow> 'h handler_call list" where
  "all_calls subs chunks =
     concat (map (publish_server_msg subs) chunks) @
     publish_server_disconnected subs (str_bytes ''Server closed connection'')"

lemma all_calls_Cons: "all_calls subs (c # cs) = publish_server_msg subs c @ all_calls subs cs"
  by (simp add: all_calls_def)

lemma recv_loop_ok:
  assumes "closing_stream K pending patience"
  shows "\<exists>chunks k'. concat chunks = pending k \<and> (\<forall>c \<in> set chunks. c \<noteq> [] \<and> length c \<le> PACKET_ROOM) \<and>
    recv_loop K subs acc k = Some (Inr (False, acc @ all_calls subs chunks), k')"
proof (induction k arbitrary: acc rule: wf_induct_rule [OF wf_measures [of "[\<lambda>k. length (pending k), patience]"]])
  case (1 k)
  have running: "\<not> rk_stopped K k" for k using assms by (simp add: closing_stream_def)
  note unfold = recv_loop.simps [of K subs acc k]
  from assms show ?case
  proof (cases rule: wait_for_read_ok [where k = k])
    case (timeout k')
    then have "(k', k) \<in> measures [\<lambda>k. length (pending k), patience]" by simp
    from "1.IH" [OF this, of acc] show ?thesis
      using timeout running by (auto simp: unfold)
  next
    case (ready k')
    obtain r k'' where r: "rk_recv K PACKET_ROOM k' = (r, k'')" by fastforce
    then obtain msg where msg: "r = Some msg" "pending k' = msg @ pending k''" "length msg \<le> PACKET_ROOM"
        "msg = [] \<longrightarrow> pending k' = []"
      using assms unfolding closing_stream_def by (metis PACKET_ROOM_pos)
    show ?thesis
    proof (cases "msg = []")
      case True
      then show ?thesis
        using ready r msg running by (auto simp: unfold all_calls_def intro!: exI [of _ "[]"])
    next
      case False
      then have "(k'', k) \<in> measures [\<lambda>k. length (pending k), patience]"
        using ready(2) msg(2) by (cases msg) (auto simp flip: ready(2))
      from "1.IH" [OF this, of "acc @ publish_server_msg subs msg"]
      obtain chunks k3 where "concat chunks = pending k''" "\<forall>c \<in> set chunks. c \<noteq> [] \<and> length c \<le> PACKET_ROOM"
          "recv_loop K subs (acc @ publish_server_msg subs msg) k'' =
            Some (Inr (False, (acc @ publish_server_msg subs msg) @ all_calls subs chunks), k3)" by blast
      then show ?thesis
        using ready r msg False running
        by (intro exI [of _ "msg # chunks"] exI [of _ k3]) (simp add: unfold all_calls_Cons)
    qed
  qed
qed

section \<open>The life of a client\<close>

text \<open>
  What can happen to a client, one after the other: a call of \<open>connect_server\<close> (with the kernel's
  answers), the end of its receiving thread's function, and a call of \<open>close\<close>.
\<close>

datatype 'k life = Connect "'k connector" 'k | Server_gone | Close "byte list option"

definition life_step :: "'k life \<Rightarrow> 'h tcp_client \<Rightarrow> 'h tcp_client outcome option" where
  "life_step e s =
     (case e of
        Connect K k \<Rightarrow>
          (case tcp_connect_server K s k of
             None \<Rightarrow> None
           | Some (r, _) \<Rightarrow> Some (rbind r (\<lambda>(_, s). Inr s)))
      | Server_gone \<Rightarrow> Some (Inr (s\<lparr>tc_is_connected := False\<rparr>))
      | Close err \<Rightarrow> Some (Inr (snd (tcp_close err s))))"

fun lifetime :: "'k life list \<Rightarrow> 'h tcp_client \<Rightarrow> 'h tcp_client outcome option" where
  "lifetime [] s = Some (Inr s)"
| "lifetime (e # es) s =
     (case life_step e s of Some (Inr s) \<Rightarrow> lifetime es s | r \<Rightarrow> r)"

definition client_ok :: "'h tcp_client \<Rightarrow> bool" where
  "client_ok s \<longleftrightarrow>
     (tc_is_closed s \<longrightarrow> \<not> tc_worker s \<and> \<not> tc_is_connected s) \<and> (tc_is_connected s \<longrightarrow> tc_worker s)"

text \<open>The client connects only when it has no thread left: at first, and after \<open>close\<close>.\<close>

fun careful :: "bool \<Rightarrow> 'k life list \<Rightarrow> bool" where
  "careful idle [] = True"
| "careful idle (Connect K k # es) = (idle \<and> careful False es)"
| "careful idle (Server_gone # es) = careful idle es"
| "careful idle (Close err # es) = careful True es"

lemma connect_idle:
  assumes "tcp_connect_server K s k = Some (r, k')" and "\<not> tc_worker s" and "client_ok s"
  obtains x s' where "r = Inr (x, s')" "client_ok s'" "is_successful x \<longleftrightarrow> tc_worker s'"
    "is_successful x \<longleftrightarrow> tc_is_connected s'"
proof -
  have c: "client_connected s = Inr (SUCCESS, s\<lparr>tc_is_connected := True, tc_is_closed := False, tc_worker := True\<rparr>)"
    using assms(2) by (simp add: client_connected_def start_worker_def)
  have f: "\<not> tc_is_connected s" using assms(2,3) by (auto simp: client_ok_def)
  have "r = client_connected s \<or> (\<exists>err. r = Inr (FAILURE err, s))"
    using assms(1)
    by (auto simp: tcp_connect_server_def tcp_connect_socket_def
        split: option.splits prod.splits connect_result.splits wait_result.splits if_splits)
  then show thesis
  proof
    assume "r = client_connected s"
    then show thesis using that c by (simp add: client_ok_def is_successful_def)
  next
    assume "\<exists>err. r = Inr (FAILURE err, s)"
    then show thesis using that assms(2,3) f by (auto simp: is_successful_def)
  qed
qed

lemma close_idle: "client_ok s \<Longrightarrow> client_ok (snd (tcp_close err s)) \<and> \<not> tc_worker (snd (tcp_close err s))"
  by (auto simp: tcp_close_def terminate_worker_def client_ok_def Let_def split: option.splits)

lemma lifetime_ok:
  "careful idle es \<Longrightarrow> client_ok s \<Longrightarrow> (idle \<longrightarrow> \<not> tc_worker s) \<Longrightarrow> lifetime es s = Some r \<Longrightarrow>
    \<exists>s'. r = Inr s' \<and> client_ok s'"
proof (induction idle es arbitrary: s rule: careful.induct)
  case (2 idle K k es)
  from "2.prems" have idle: "\<not> tc_worker s" "careful False es" by simp_all
  show ?case
  proof (cases "tcp_connect_server K s k")
    case None
    then show ?thesis using "2.prems"(4) by (simp add: life_step_def)
  next
    case (Some p)
    obtain q k' where p: "p = (q, k')" by fastforce
    obtain x s' where s': "q = Inr (x, s')" "client_ok s'"
      using connect_idle [OF _ idle(1) "2.prems"(2)] Some p by metis
    then have "lifetime es s' = Some r" using "2.prems"(4) Some p by (simp add: life_step_def)
    then show ?thesis using "2.IH" [OF idle(2) s'(2)] by simp
  qed
next
  case (3 idle es)
  have "client_ok (s\<lparr>tc_is_connected := False\<rparr>)" using "3.prems"(2) by (simp add: client_ok_def)
  from "3.IH" [OF _ this] "3.prems" show ?case by (simp add: life_step_def)
next
  case (4 idle err es)
  then show ?case
    using close_idle [of s err] "4.IH" [of "snd (tcp_close err s)"] by (simp add: life_step_def)
qed auto

lemma destroy_ok: "client_ok s \<Longrightarrow> \<exists>t. destroy_tcp_client err s = Inr t"
  by (cases err) (auto simp: destroy_tcp_client_def tcp_close_def terminate_worker_def client_ok_def Let_def)

section \<open>Properties\<close>

text \<open>
  C32: receiving. However the bytes a server sends before it closes arrive, the receiving thread ends
  having called every message handler, in order of subscription, with consecutive pieces of at most
  4096 bytes that make up the whole stream, then every disconnection handler once; the client then
  no longer counts as connected.
\<close>

theorem receiver_delivers_stream:
  assumes "closing_stream K pending patience"
  shows "\<exists>chunks k'. concat chunks = pending k \<and> (\<forall>c \<in> set chunks. c \<noteq> [] \<and> length c \<le> 4096) \<and>
    recv_server K subs k =
      Some (Inr (False, concat (map (publish_server_msg subs) chunks) @
        publish_server_disconnected subs (str_bytes ''Server closed connection'')), k')"
  using recv_loop_ok [OF assms, where acc = "[]"] by (simp add: recv_server_def all_calls_def PACKET_ROOM_def)

text \<open>A peer that has sent the bytes of the state and closed; three bytes arrive at a time.\<close>

definition small_pieces :: "byte list reader_kernel" where
  "small_pieces =
     \<lparr>rk_stopped = (\<lambda>_. False), rk_select = (\<lambda>k. (1, k)),
      rk_recv = (\<lambda>n k. (Some (take (min n 3) k), drop (min n 3) k)), rk_strerror = (\<lambda>_. [])\<rparr>"

theorem receiver_delivers_stream_witness:
  "\<exists>chunks k'. concat chunks = [1, 2, 3, 4] \<and>
    recv_server small_pieces [\<lparr>co_incoming = Some (0 :: nat), co_disconnection = None\<rparr>] [1, 2, 3, 4] =
      Some (Inr (False, map (On_message 0) chunks), k')"
proof -
  let ?subs = "[\<lparr>co_incoming = Some (0 :: nat), co_disconnection = None\<rparr>]"
  have "closing_stream small_pieces (\<lambda>k. k) (\<lambda>_. 0)" by (auto simp: closing_stream_def small_pieces_def)
  moreover have "concat (map (publish_server_msg ?subs) chunks) = map (On_message 0) chunks" for chunks
    by (induction chunks) simp_all
  ultimately show ?thesis using receiver_delivers_stream [of small_pieces "\<lambda>k. k" "\<lambda>_. 0" "[1, 2, 3, 4]" ?subs] by auto
qed


definition willing :: "nat connector" where
  "willing =
     \<lparr>k_setup = (\<lambda>k. (None, k)), k_connect = (\<lambda>k. (Connected, Suc k)), k_select = (\<lambda>k. (1, k)),
      k_so_error = (\<lambda>k. (Some 0, k)), k_strerror = (\<lambda>_. [])\<rparr>"


end
