(* ===== verification/Registry.thy ===== *)
theory Registry
  imports Logging
begin

text \<open>
  Service registration and discovery: \<open>parse_path\<close> of \<open>include/base/util.h\<close>, the wrapper
  \<open>src/rpc/ZKClient.cpp\<close>, \<open>RPCServer::registerService\<close> and \<open>RPCClient::update_ip_info\<close>. The ZooKeeper
  C library is a parameter.
\<close>

section \<open>Paths\<close>

definition slash :: char where
  "slash = CHR ''/''"

text \<open>
  The matches of \<open>([^/]+)/?\<close> from left to right: the next longest run without a slash, and one slash
  after it.
\<close>

function parse_path :: "string \<Rightarrow> string list" where
  "parse_path s =
     (let t = dropWhile (\<lambda>c. c = slash) s in
      if t = [] then []
      else takeWhile (\<lambda>c. c \<noteq> slash) t # parse_path (drop 1 (dropWhile (\<lambda>c. c \<noteq> slash) t)))"
  by pat_completeness auto
termination
proof (relation "measure length")
  fix s t :: string assume t: "t = dropWhile (\<lambda>c. c = slash) s" "t \<noteq> []"
  then have "hd t \<noteq> slash" using hd_dropWhile by blast
  then have "length (dropWhile (\<lambda>c. c \<noteq> slash) t) < length t"
    using t(2) by (cases t) (auto simp: le_imp_less_Suc length_dropWhile_le)
  moreover have "length t \<le> length s" using t(1) by (simp add: length_dropWhile_le)
  ultimately show "(drop 1 (dropWhile (\<lambda>c. c \<noteq> slash) t), s) \<in> measure length" by simp
qed simp

declare parse_path.simps [simp del]

section \<open>The registry\<close>

definition ZOK :: int where
  "ZOK = 0"

definition ZNONODE :: int where
  "ZNONODE = -101"

definition ZBADARGUMENTS :: int where
  "ZBADARGUMENTS = -8"

text \<open>
  \<open>zoo_exists\<close>, \<open>zoo_create\<close> (\<open>True\<close>: ephemeral and sequential), \<open>zoo_get_children\<close>, and \<open>zoo_get\<close> with
  the bytes it puts in the caller's buffer.
\<close>

record 'z zookeeper =
  zoo_exists :: "string \<Rightarrow> 'z \<Rightarrow> int"
  zoo_create :: "string \<Rightarrow> string \<Rightarrow> bool \<Rightarrow> 'z \<Rightarrow> int \<times> 'z"
  zoo_get_children :: "string \<Rightarrow> 'z \<Rightarrow> string list"
  zoo_get :: "string \<Rightarrow> 'z \<Rightarrow> int \<times> string"

definition check_znode_exists :: "'z zookeeper \<Rightarrow> string \<Rightarrow> 'z \<Rightarrow> bool" where
  "check_znode_exists Z path z \<longleftrightarrow> \<not> (zoo_exists Z path z = ZNONODE)"

text \<open>\<open>None\<close> is \<open>exit(EXIT_FAILURE)\<close>.\<close>

definition zk_create :: "'z zookeeper \<Rightarrow> string \<Rightarrow> string \<Rightarrow> bool \<Rightarrow> 'z \<Rightarrow> 'z option" where
  "zk_create Z path data ephemeral z =
     (if \<not> check_znode_exists Z path z
      then (case zoo_create Z path data ephemeral z of
              (flag, z') \<Rightarrow> if flag = ZOK then Some z' else None)
      else Some z)"

definition get_children :: "'z zookeeper \<Rightarrow> string \<Rightarrow> 'z \<Rightarrow> string list" where
  "get_children Z path z = (if \<not> check_znode_exists Z path z then [] else zoo_get_children Z path z)"

definition NUL :: char where
  "NUL = CHR 0x00"

definition DATA_BUFFER :: nat where
  "DATA_BUFFER = 128"

text \<open>
  \<open>junk\<close> is what the array \<open>data_buffer\<close> holds before the call; \<open>std::string(data_buffer)\<close> reads up to the
  first zero byte, or past the array.
\<close>

definition get_data :: "'z zookeeper \<Rightarrow> string \<Rightarrow> string \<Rightarrow> 'z \<Rightarrow> string outcome" where
  "get_data Z junk path z =
     (case zoo_get Z path z of
        (flag, data) \<Rightarrow>
          if flag \<noteq> ZOK then Inr []
          else let buffer = data @ drop (length data) (take DATA_BUFFER junk)
               in if NUL \<in> set buffer then Inr (takeWhile (\<lambda>c. c \<noteq> NUL) buffer) else Inl Heap_overflow)"

section \<open>Registering a service\<close>

definition PROVIDER_NAME :: string where
  "PROVIDER_NAME = ''rpc-provider''"

text \<open>The loop over the components: the path built so far, or \<open>None\<close> after \<open>exit\<close>.\<close>

fun register_paths :: "'z zookeeper \<Rightarrow> string \<Rightarrow> string list \<Rightarrow> 'z \<Rightarrow> (string \<times> 'z) option" where
  "register_paths Z name [] z = Some (name, z)"
| "register_paths Z name (p # ps) z =
     (let name' = name @ p @ [slash] in
      case (if \<not> check_znode_exists Z name' z then zk_create Z name' [] False z else Some z) of
        None \<Rightarrow> None
      | Some z' \<Rightarrow> register_paths Z name' ps z')"

definition service_address :: "string \<Rightarrow> int \<Rightarrow> string" where
  "service_address ip port = ip @ '':'' @ (if port < 0 then ''-'' else []) @ decimal (nat \<bar>port\<bar>)"

text \<open>
  \<open>get_local_ip\<close>: the entries \<open>SIOCGIFCONF\<close> reports, as address family, name and address; \<open>ifreq\<close> moves on
  only past entries of family \<open>AF_INET\<close>.
\<close>

definition AF_INET :: nat where
  "AF_INET = 2"

fun local_ip_loop :: "nat \<Rightarrow> (nat \<times> string \<times> string) list \<Rightarrow> string" where
  "local_ip_loop 0 ifreq = []"
| "local_ip_loop (Suc i) [] = []"
| "local_ip_loop (Suc i) ((family, name, addr) # rest) =
     (if family = AF_INET
      then (if name = ''ens33'' \<or> name = ''eth0'' then addr else local_ip_loop i rest)
      else local_ip_loop i ((family, name, addr) # rest))"

definition get_local_ip :: "int \<Rightarrow> (nat \<times> string \<times> string) list \<Rightarrow> string" where
  "get_local_ip sock_fd ifconf = (if sock_fd < 0 then [] else local_ip_loop (length ifconf) ifconf)"

lemma local_ip_loop_inet:
  "\<forall>x \<in> set xs. fst x = AF_INET \<Longrightarrow>
    local_ip_loop (length xs) xs =
      (case filter (\<lambda>x. fst (snd x) = ''ens33'' \<or> fst (snd x) = ''eth0'') xs of [] \<Rightarrow> [] | x # _ \<Rightarrow> snd (snd x))"
  by (induction xs) auto

text \<open>\<open>ip\<close> is the answer of \<open>get_local_ip\<close>.\<close>

definition registerService :: "'z zookeeper \<Rightarrow> string \<Rightarrow> int \<Rightarrow> string \<Rightarrow> 'z \<Rightarrow> 'z option" where
  "registerService Z ip port service_name z =
     (case register_paths Z [slash] (parse_path service_name) z of
        None \<Rightarrow> None
      | Some (name, z') \<Rightarrow> zk_create Z (name @ PROVIDER_NAME) (service_address ip port) True z')"

section \<open>Discovering it\<close>

definition is_digit :: "char \<Rightarrow> bool" where
  "is_digit c \<longleftrightarrow> (of_char c :: nat) \<in> {48..57}"

definition is_space :: "char \<Rightarrow> bool" where
  "is_space c \<longleftrightarrow> (of_char c :: nat) \<in> {9, 10, 11, 12, 13, 32}"

definition digits_value :: "string \<Rightarrow> nat" where
  "digits_value s = foldl (\<lambda>n c. 10 * n + (of_char c - 48)) 0 s"

definition int_of_text :: "int \<Rightarrow> string \<Rightarrow> int outcome" where
  "int_of_text sign t =
     (let ds = takeWhile is_digit t; v = sign * int (digits_value ds) in
      if ds = [] then Inl Invalid_argument
      else if v < - (2 ^ 31) \<or> 2 ^ 31 \<le> v then Inl Out_of_range
      else Inr v)"

text \<open>\<open>std::stoi\<close>: white space, a sign, and as many digits as there are.\<close>

definition stoi :: "string \<Rightarrow> int outcome" where
  "stoi s =
     (case dropWhile is_space s of
        [] \<Rightarrow> Inl Invalid_argument
      | c # t \<Rightarrow>
          if c = CHR ''-'' then int_of_text (-1) t
          else if c = CHR ''+'' then int_of_text 1 t
          else int_of_text 1 (c # t))"

text \<open>The address of an entry: \<open>None\<close> if it holds no colon (\<open>ip_\<close> and \<open>port_\<close> stay as they are).\<close>

definition parse_address :: "string \<Rightarrow> (string \<times> int) option outcome" where
  "parse_address data =
     (if CHR '':'' \<notin> set data then Inr None
      else rbind (stoi (tl (dropWhile (\<lambda>c. c \<noteq> CHR '':'') data))) (\<lambda>port.
             Inr (Some (takeWhile (\<lambda>c. c \<noteq> CHR '':'') data, port))))"

text \<open>\<open>index\<close> is the random choice among the entries, \<open>old\<close> the values of \<open>ip_\<close> and \<open>port_\<close>.\<close>

definition update_ip_info ::
    "'z zookeeper \<Rightarrow> string \<Rightarrow> string \<Rightarrow> string list \<Rightarrow> nat \<Rightarrow> 'z \<Rightarrow> string \<times> int \<Rightarrow> (string \<times> int) outcome" where
  "update_ip_info Z junk service_name service_info index z old =
     (if service_info = [] then Inr old
      else rbind (get_data Z junk (service_name @ [slash] @ service_info ! index) z) (\<lambda>data.
           rbind (parse_address data) (\<lambda>a.
             Inr (case a of None \<Rightarrow> old | Some new \<Rightarrow> new))))"

definition service_entries :: "'z zookeeper \<Rightarrow> string \<Rightarrow> 'z \<Rightarrow> string list" where
  "service_entries Z service_name z =
     (if check_znode_exists Z service_name z then get_children Z service_name z else [])"

section \<open>Lemmas on paths and numerals\<close>

lemma parse_path_Nil [simp]: "parse_path [] = []"
  by (simp add: parse_path.simps)

lemma parse_path_slash [simp]: "parse_path (slash # s) = parse_path s"
  by (subst parse_path.simps [of "slash # s"], subst parse_path.simps [of s]) (simp only: dropWhile.simps if_True refl)

lemma filter_split: "filter P xs = takeWhile P xs @ filter P (dropWhile P xs)"
  by (induction xs) auto

lemma filter_drop_stop: "filter P (dropWhile P xs) = filter P (drop 1 (dropWhile P xs))"
  by (induction xs) auto

lemma filter_dropWhile_not: "filter P (dropWhile (\<lambda>x. \<not> P x) xs) = filter P xs"
  by (induction xs) auto

lemma parse_path_sound:
  "(\<forall>c \<in> set (parse_path s). c \<noteq> [] \<and> slash \<notin> set c) \<and>
    concat (parse_path s) = filter (\<lambda>c. c \<noteq> slash) s"
proof (induction s rule: parse_path.induct)
  case (1 s)
  let ?t = "dropWhile (\<lambda>c. c = slash) s" and ?u = "\<lambda>t. dropWhile (\<lambda>c. c \<noteq> slash) t"
  have s: "filter (\<lambda>c. c \<noteq> slash) s = filter (\<lambda>c. c \<noteq> slash) ?t"
    using filter_dropWhile_not [of "\<lambda>c. c \<noteq> slash" s] by simp
  show ?case
  proof (cases "?t = []")
    case True
    then show ?thesis using s by (simp add: parse_path.simps [of s])
  next
    case False
    then have hd: "hd ?t \<noteq> slash" using hd_dropWhile by blast
    have run: "takeWhile (\<lambda>c. c \<noteq> slash) ?t \<noteq> []" "slash \<notin> set (takeWhile (\<lambda>c. c \<noteq> slash) ?t)"
      using False hd by (cases ?t; auto dest: set_takeWhileD)+
    have "filter (\<lambda>c. c \<noteq> slash) ?t = takeWhile (\<lambda>c. c \<noteq> slash) ?t @ filter (\<lambda>c. c \<noteq> slash) (?u ?t)"
      by (rule filter_split)
    moreover have "filter (\<lambda>c. c \<noteq> slash) (?u ?t) = filter (\<lambda>c. c \<noteq> slash) (drop 1 (?u ?t))"
      by (rule filter_drop_stop)
    ultimately show ?thesis
      using 1 [OF refl False] run s False by (simp add: parse_path.simps [of s] Let_def)
  qed
qed

lemma parse_path_component:
  assumes "c \<noteq> []" and "slash \<notin> set c" and "s = [] \<or> hd s = slash"
  shows "parse_path (slash # c @ s) = c # parse_path s"
proof -
  have c: "takeWhile (\<lambda>c. c \<noteq> slash) (c @ s) = c" "dropWhile (\<lambda>c. c \<noteq> slash) (c @ s) = s"
    using assms(2,3) by (induction c; cases s; auto)+
  have d: "dropWhile (\<lambda>c. c = slash) (slash # c @ s) = c @ s" using assms(1,2) by (cases c) auto
  have "parse_path (drop 1 s) = parse_path s"
    using assms(3) by (cases s) auto
  then show ?thesis
    using assms(1) c d by (subst parse_path.simps) (simp add: Let_def)
qed

lemma of_char_digit: "(of_char (char_of (48 + n mod 10) :: char) :: nat) = 48 + n mod 10"
proof -
  have "48 + n mod 10 < (256 :: nat)" by (rule le_less_trans [of _ 57]) simp_all
  then show ?thesis by (simp only: of_char_of) simp
qed

lemma decimal_digits: "\<forall>c \<in> set (decimal n). is_digit c" and decimal_nonempty: "decimal n \<noteq> []"
proof (induction n rule: decimal.induct)
  case (1 n)
  {
    case 1
    then show ?case
      using "1.IH"(1) by (subst decimal.simps) (auto simp: is_digit_def of_char_digit)
  next
    case 2
    then show ?case by (subst decimal.simps) simp
  }
qed

lemma digits_value_decimal: "digits_value (decimal n) = n"
proof (induction n rule: decimal.induct)
  case (1 n)
  show ?case
  proof (cases "n < 10")
    case True
    then show ?thesis
      using of_char_digit [of n] by (subst decimal.simps) (simp add: digits_value_def)
  next
    case False
    then show ?thesis
      using 1 of_char_digit [of n] by (subst decimal.simps) (simp add: digits_value_def)
  qed
qed

section \<open>The path of a service\<close>

definition path_of :: "string list \<Rightarrow> string" where
  "path_of ps = concat (map ((#) slash) ps)"

definition proper :: "string list \<Rightarrow> bool" where
  "proper ps \<longleftrightarrow> ps \<noteq> [] \<and> (\<forall>p \<in> set ps. p \<noteq> [] \<and> slash \<notin> set p)"

lemma path_of_Cons [simp]: "path_of (p # ps) = slash # p @ path_of ps"
  by (simp add: path_of_def)

lemma path_of_Nil [simp]: "path_of [] = []"
  by (simp add: path_of_def)

lemma hd_path_of: "path_of ps = [] \<or> hd (path_of ps) = slash"
  by (cases ps) simp_all

lemma parse_path_of: "\<forall>p \<in> set ps. p \<noteq> [] \<and> slash \<notin> set p \<Longrightarrow> parse_path (path_of ps) = ps"
proof (induction ps)
  case (Cons p ps)
  then show ?case using parse_path_component [of p "path_of ps"] hd_path_of [of ps] by simp
qed simp

text \<open>A path in the sense of ZooKeeper: absolute, and without a slash at its end unless it is the root.\<close>

definition valid_path :: "string \<Rightarrow> bool" where
  "valid_path p \<longleftrightarrow> p \<noteq> [] \<and> hd p = slash \<and> (p = [slash] \<or> last p \<noteq> slash)"

lemma valid_path_of:
  assumes "proper ps"
  shows "valid_path (path_of ps)"
proof -
  have "path_of ps \<noteq> [] \<and> last (path_of ps) \<noteq> slash"
    using assms unfolding proper_def
  proof (induction ps)
    case (Cons p ps)
    then have "last p \<noteq> slash" using last_in_set [of p] by fastforce
    then show ?case using Cons by (cases "ps = []") auto
  qed simp
  then show ?thesis using assms by (cases ps) (auto simp: valid_path_def proper_def)
qed

end
