(* ===== verification/Discovery.thy ===== *)
theory Discovery
  imports Registry
begin

text \<open>
  What registration and discovery achieve together, over any registry that behaves as ZooKeeper
  documents: \<open>RPCServer::registerService\<close> on one side, the constructor of \<open>RPCClient\<close> with
  \<open>update_ip_info\<close> on the other.
\<close>

section \<open>What the registry promises\<close>

definition children :: "string \<Rightarrow> (string \<rightharpoonup> string) \<Rightarrow> string set" where
  "children p m = {name. name \<noteq> [] \<and> slash \<notin> set name \<and> p @ slash # name \<in> dom m}"

text \<open>
  \<open>nodes z\<close> are the nodes with their data. A path that is not valid is refused with
  \<open>ZBADARGUMENTS\<close>. \<open>zoo_create\<close> may fail, and then changes nothing; it fails unless the parent exists;
  when it succeeds for a sequential node, there is one node more, under the name with a suffix that
  made it new. \<open>zoo_get\<close> fills at most the buffer.
\<close>

definition exists_law :: "'z zookeeper \<Rightarrow> ('z \<Rightarrow> string \<rightharpoonup> string) \<Rightarrow> bool" where
  "exists_law Z nodes \<longleftrightarrow>
     (\<forall>p z. zoo_exists Z p z =
        (if \<not> valid_path p then ZBADARGUMENTS else if p \<in> dom (nodes z) then ZOK else ZNONODE))"

definition create_law :: "'z zookeeper \<Rightarrow> ('z \<Rightarrow> string \<rightharpoonup> string) \<Rightarrow> bool" where
  "create_law Z nodes \<longleftrightarrow>
     (\<forall>p name data z flag z'. valid_path p \<longrightarrow> p \<noteq> [slash] \<longrightarrow> name \<noteq> [] \<longrightarrow> slash \<notin> set name \<longrightarrow>
        zoo_create Z (p @ slash # name) data True z = (flag, z') \<longrightarrow>
        (if flag = ZOK
         then p \<in> dom (nodes z) \<and>
           (\<exists>sfx. slash \<notin> set sfx \<and> p @ slash # name @ sfx \<notin> dom (nodes z) \<and>
              nodes z' = (nodes z)(p @ slash # name @ sfx \<mapsto> data))
         else nodes z' = nodes z))"

definition get_laws :: "'z zookeeper \<Rightarrow> ('z \<Rightarrow> string \<rightharpoonup> string) \<Rightarrow> bool" where
  "get_laws Z nodes \<longleftrightarrow>
     (\<forall>p z. valid_path p \<longrightarrow> p \<noteq> [slash] \<longrightarrow> p \<in> dom (nodes z) \<longrightarrow>
        set (zoo_get_children Z p z) = children p (nodes z)) \<and>
     (\<forall>p z data. valid_path p \<longrightarrow> nodes z p = Some data \<longrightarrow> zoo_get Z p z = (ZOK, take DATA_BUFFER data))"

definition registry_laws :: "'z zookeeper \<Rightarrow> ('z \<Rightarrow> string \<rightharpoonup> string) \<Rightarrow> bool" where
  "registry_laws Z nodes \<longleftrightarrow> exists_law Z nodes \<and> create_law Z nodes \<and> get_laws Z nodes"

section \<open>Registering\<close>

lemma path_of_snoc: "path_of (ps @ [p]) = path_of ps @ slash # p"
  by (induction ps) simp_all

lemma register_paths_skips:
  assumes "exists_law Z nodes" and "name \<noteq> []"
  shows "register_paths Z name ps z = Some (name @ concat (map (\<lambda>p. p @ [slash]) ps), z)"
  using assms(2)
proof (induction ps arbitrary: name)
  case (Cons p ps)
  have "\<not> valid_path (name @ p @ [slash])" using Cons.prems by (auto simp: valid_path_def)
  then have "check_znode_exists Z (name @ p @ [slash]) z"
    using assms(1) by (simp add: exists_law_def check_znode_exists_def ZBADARGUMENTS_def ZNONODE_def)
  then show ?case using Cons.IH [of "name @ p @ [slash]"] by (simp add: Let_def)
qed simp

lemma components_path: "slash # concat (map (\<lambda>p. p @ [slash]) ps) = path_of ps @ [slash]"
  by (induction ps) simp_all

lemma provider_name: "PROVIDER_NAME \<noteq> []" "slash \<notin> set PROVIDER_NAME"
  by (simp_all add: PROVIDER_NAME_def slash_def)

lemma proper_snoc: "proper ps \<Longrightarrow> name \<noteq> [] \<Longrightarrow> slash \<notin> set name \<Longrightarrow> proper (ps @ [name])"
  by (auto simp: proper_def)

lemma path_not_root: "proper ps \<Longrightarrow> path_of ps \<noteq> [slash]"
  by (cases ps) (auto simp: proper_def)

lemma proper_parse: "proper ps \<Longrightarrow> parse_path (path_of ps) = ps"
  by (simp add: proper_def parse_path_of)

text \<open>The call comes down to one creation below the service's path.\<close>

lemma registerService_creates:
  assumes "exists_law Z nodes" and "proper ps" and "path_of (ps @ [PROVIDER_NAME]) \<notin> dom (nodes z)"
  shows "registerService Z ip port (path_of ps) z =
    (case zoo_create Z (path_of ps @ slash # PROVIDER_NAME) (service_address ip port) True z of
       (flag, z') \<Rightarrow> if flag = ZOK then Some z' else None)"
proof -
  let ?q = "path_of ps @ slash # PROVIDER_NAME"
  have "valid_path ?q"
    using valid_path_of [OF proper_snoc [OF assms(2) provider_name]] by (simp add: path_of_snoc)
  then have "\<not> check_znode_exists Z ?q z"
    using assms(1,3) by (simp add: exists_law_def check_znode_exists_def path_of_snoc)
  then show ?thesis
    using register_paths_skips [OF assms(1), of "[slash]" ps z] components_path [of ps]
    by (simp add: registerService_def proper_parse [OF assms(2)] zk_create_def)
qed

section \<open>Reading an address\<close>

definition good_address :: "string \<Rightarrow> int \<Rightarrow> bool" where
  "good_address ip port \<longleftrightarrow>
     CHR '':'' \<notin> set ip \<and> NUL \<notin> set ip \<and> - (2 ^ 31) \<le> port \<and> port < 2 ^ 31 \<and>
     length (service_address ip port) < DATA_BUFFER"

text \<open>What the stack holds does not look like more of the port.\<close>

definition clean_stack :: "string \<Rightarrow> bool" where
  "clean_stack junk \<longleftrightarrow> length junk = DATA_BUFFER \<and> last junk = NUL \<and> (\<forall>c \<in> set junk. \<not> is_digit c)"

lemma takeWhile_digits: "\<forall>c \<in> set g. \<not> is_digit c \<Longrightarrow> takeWhile is_digit (decimal n @ g) = decimal n"
  using decimal_digits [of n] by (cases g) (auto simp: takeWhile_append)

lemma int_of_decimal:
  assumes "\<forall>c \<in> set g. \<not> is_digit c" and "- (2 ^ 31) \<le> sign * int n" and "sign * int n < 2 ^ 31"
  shows "int_of_text sign (decimal n @ g) = Inr (sign * int n)"
  using takeWhile_digits [OF assms(1), of n] assms(2,3) decimal_nonempty [of n]
  by (simp add: int_of_text_def Let_def digits_value_decimal)

lemma stoi_decimal:
  assumes "\<forall>c \<in> set g. \<not> is_digit c" and "- (2 ^ 31) \<le> port" and "port < 2 ^ 31"
  shows "stoi ((if port < 0 then ''-'' else []) @ decimal (nat \<bar>port\<bar>) @ g) = Inr port"
proof -
  obtain c t where d: "decimal (nat \<bar>port\<bar>) = c # t" using decimal_nonempty by (meson neq_Nil_conv)
  then have c: "is_digit c" using decimal_digits [of "nat \<bar>port\<bar>"] by simp
  have nonspace: "\<not> is_space c" using c by (auto simp: is_digit_def is_space_def)
  have signs: "c \<noteq> CHR ''-''" "c \<noteq> CHR ''+''" "\<not> is_space (CHR ''-'')"
    using c by (auto simp: is_digit_def is_space_def)
  show ?thesis
  proof (cases "port < 0")
    case True
    then show ?thesis
      using int_of_decimal [OF assms(1), of "-1" "nat \<bar>port\<bar>"] assms(2,3) signs by (simp add: stoi_def)
  next
    case False
    then show ?thesis
      using int_of_decimal [OF assms(1), of 1 "nat \<bar>port\<bar>"] assms(2,3) signs nonspace d
      by (simp add: stoi_def)
  qed
qed

lemma parse_address_service:
  assumes "\<forall>c \<in> set g. \<not> is_digit c" and "good_address ip port"
  shows "parse_address (service_address ip port @ g) = Inr (Some (ip, port))"
proof -
  have ip: "CHR '':'' \<notin> set ip" "- (2 ^ 31) \<le> port" "port < 2 ^ 31"
    using assms(2) by (simp_all add: good_address_def)
  have "takeWhile (\<lambda>c. c \<noteq> CHR '':'') (ip @ CHR '':'' # t) = ip"
    and "dropWhile (\<lambda>c. c \<noteq> CHR '':'') (ip @ CHR '':'' # t) = CHR '':'' # t" for t
    using ip(1) by (induction ip) auto
  then show ?thesis
    using stoi_decimal [OF assms(1) ip(2,3)] by (simp add: parse_address_def service_address_def)
qed

lemma NUL_not_in_address:
  assumes "good_address ip port"
  shows "NUL \<notin> set (service_address ip port)"
proof -
  have "c \<noteq> NUL" if "c \<in> set (decimal n)" for c n
    using that decimal_digits [of n] by (auto simp: is_digit_def NUL_def)
  then show ?thesis using assms by (auto simp: service_address_def good_address_def NUL_def)
qed

lemma get_address:
  assumes "get_laws Z nodes" and "valid_path p" and "nodes z p = Some (service_address ip port)"
    and "good_address ip port" and "clean_stack junk"
  shows "rbind (get_data Z junk p z) parse_address = Inr (Some (ip, port))"
proof -
  let ?a = "service_address ip port"
  let ?rest = "drop (length ?a) junk"
  have len: "length ?a < DATA_BUFFER" using assms(4) by (simp add: good_address_def)
  have junk: "length junk = DATA_BUFFER" "last junk = NUL" "\<forall>c \<in> set junk. \<not> is_digit c"
    using assms(5) by (simp_all add: clean_stack_def)
  have "?rest \<noteq> []" "last ?rest = NUL" using len junk by simp_all
  then have "NUL \<in> set ?rest" by (metis last_in_set)
  moreover have "takeWhile (\<lambda>c. c \<noteq> NUL) (?a @ ?rest) = ?a @ takeWhile (\<lambda>c. c \<noteq> NUL) ?rest"
    using NUL_not_in_address [OF assms(4)] by (intro takeWhile_append2) auto
  moreover have "zoo_get Z p z = (ZOK, ?a)"
    using assms(1-3) len unfolding get_laws_def by auto
  ultimately have "get_data Z junk p z = Inr (?a @ takeWhile (\<lambda>c. c \<noteq> NUL) ?rest)"
    using junk(1) by (simp add: get_data_def)
  moreover have "\<forall>c \<in> set (takeWhile (\<lambda>c. c \<noteq> NUL) ?rest). \<not> is_digit c"
    using junk(3) by (meson in_set_dropD set_takeWhileD)
  ultimately show ?thesis using parse_address_service [OF _ assms(4)] by simp
qed

lemma update_finds:
  assumes "registry_laws Z nodes" and "proper ps" and "clean_stack junk"
    and "info ! i = name" "info \<noteq> []" and "name \<in> children (path_of ps) (nodes z)"
    and "nodes z (path_of ps @ slash # name) = Some (service_address ip port)" and "good_address ip port"
  shows "update_ip_info Z junk (path_of ps) info i z old = Inr (ip, port)"
proof -
  have "proper (ps @ [name])" using assms(2,6) by (auto simp: proper_def children_def)
  then have "valid_path (path_of ps @ slash # name)" using valid_path_of path_of_snoc by metis
  moreover have "get_laws Z nodes" using assms(1) by (simp add: registry_laws_def)
  ultimately have "rbind (get_data Z junk (path_of ps @ slash # name) z) parse_address = Inr (Some (ip, port))"
    using assms(3,7,8) by (intro get_address)
  then show ?thesis
    using assms(4,5) by (auto simp: update_ip_info_def rbind_def split: sum.splits)
qed

lemma registration_step:
  assumes "registry_laws Z nodes" and "proper ps" and "path_of (ps @ [PROVIDER_NAME]) \<notin> dom (nodes z)"
  shows "case registerService Z ip port (path_of ps) z of
      None \<Rightarrow> True
    | Some z' \<Rightarrow> path_of ps \<in> dom (nodes z) \<and>
        (\<exists>sfx. slash \<notin> set sfx \<and> path_of ps @ slash # PROVIDER_NAME @ sfx \<notin> dom (nodes z) \<and>
          nodes z' = (nodes z)(path_of ps @ slash # PROVIDER_NAME @ sfx \<mapsto> service_address ip port))"
proof -
  have laws: "exists_law Z nodes" "create_law Z nodes" using assms(1) by (simp_all add: registry_laws_def)
  obtain flag z' where c: "zoo_create Z (path_of ps @ slash # PROVIDER_NAME) (service_address ip port) True z = (flag, z')"
    by fastforce
  show ?thesis
    using registerService_creates [OF laws(1) assms(2,3), of ip port] c
      laws(2) [unfolded create_law_def, rule_format, OF valid_path_of [OF assms(2)] path_not_root [OF assms(2)]
        provider_name c]
    by (simp split: if_splits)
qed

section \<open>An instance of the registry\<close>

text \<open>The nodes as a list of paths with their data; the suffix makes a name longer than any other.\<close>

definition parent :: "string \<Rightarrow> string" where
  "parent q = rev (tl (dropWhile (\<lambda>c. c \<noteq> slash) (rev q)))"

definition fresh_suffix :: "(string \<times> string) list \<Rightarrow> string" where
  "fresh_suffix z = replicate (Suc (sum_list (map (length \<circ> fst) z))) CHR ''0''"

definition listed_children :: "string \<Rightarrow> string list \<Rightarrow> string list" where
  "listed_children p qs =
     map (drop (Suc (length p)))
       (filter (\<lambda>q. take (Suc (length p)) q = p @ [slash] \<and> drop (Suc (length p)) q \<noteq> [] \<and>
          slash \<notin> set (drop (Suc (length p)) q)) qs)"

definition list_registry :: "(string \<times> string) list zookeeper" where
  "list_registry =
     \<lparr>zoo_exists = (\<lambda>p z. if \<not> valid_path p then ZBADARGUMENTS else if p \<in> fst ` set z then ZOK else ZNONODE),
      zoo_create = (\<lambda>q data eph z.
        if parent q \<in> fst ` set z then (ZOK, (if eph then q @ fresh_suffix z else q, data) # z) else (ZNONODE, z)),
      zoo_get_children = (\<lambda>p z. listed_children p (map fst z)),
      zoo_get = (\<lambda>p z. case map_of z p of None \<Rightarrow> (ZNONODE, []) | Some d \<Rightarrow> (ZOK, take DATA_BUFFER d))\<rparr>"

lemma parent_child: "slash \<notin> set name \<Longrightarrow> parent (p @ slash # name) = p"
  by (simp add: parent_def dropWhile_append)

lemma fresh_suffix_new: "q @ fresh_suffix z \<notin> fst ` set z"
proof
  assume "q @ fresh_suffix z \<in> fst ` set z"
  then have "length (q @ fresh_suffix z) \<in> set (map (length \<circ> fst) z)" by force
  then have "length (q @ fresh_suffix z) \<le> sum_list (map (length \<circ> fst) z)" by (intro member_le_sum_list) simp_all
  then show False by (simp add: fresh_suffix_def)
qed

lemma listed_children_set:
  "set (listed_children p qs) = {name. name \<noteq> [] \<and> slash \<notin> set name \<and> p @ slash # name \<in> set qs}"
proof -
  have "take (Suc (length p)) q = p @ [slash] \<longleftrightarrow> q = p @ slash # drop (Suc (length p)) q" for q
    by (metis append_Cons append_Nil append_assoc append_take_drop_id append_eq_conv_conj length_append_singleton)
  then show ?thesis by (force simp: listed_children_def)
qed

lemma list_registry_laws: "registry_laws list_registry map_of"
proof -
  have d: "dom (map_of z) = fst ` set z" for z :: "(string \<times> string) list" by (rule dom_map_of_conv_image_fst)
  have 1: "exists_law list_registry map_of" by (auto simp: exists_law_def list_registry_def d)
  have 2: "create_law list_registry map_of"
    unfolding create_law_def
  proof (intro allI impI)
    fix p name data z flag and z' :: "(string \<times> string) list"
    assume n: "slash \<notin> set name" and c: "zoo_create list_registry (p @ slash # name) data True z = (flag, z')"
    have "p @ slash # name @ fresh_suffix z \<notin> fst ` set z"
      using fresh_suffix_new [of "p @ slash # name" z] by simp
    moreover have "slash \<notin> set (fresh_suffix z)" by (simp add: fresh_suffix_def slash_def)
    ultimately show "if flag = ZOK
      then p \<in> dom (map_of z) \<and> (\<exists>sfx. slash \<notin> set sfx \<and> p @ slash # name @ sfx \<notin> dom (map_of z) \<and>
        map_of z' = (map_of z)(p @ slash # name @ sfx \<mapsto> data))
      else map_of z' = map_of z"
      using c by (auto simp: list_registry_def parent_child [OF n] d ZOK_def ZNONODE_def fun_eq_iff split: if_splits)
  qed
  have 3: "get_laws list_registry map_of"
    by (simp add: get_laws_def list_registry_def listed_children_set children_def d)
  show ?thesis using 1 2 3 by (simp add: registry_laws_def)
qed

lemma clean_stack_zeros: "clean_stack (replicate DATA_BUFFER NUL)"
  by (simp add: clean_stack_def DATA_BUFFER_def is_digit_def NUL_def)

section \<open>Properties\<close>

text \<open>
  C22: registering. Whatever the registry answers, \<open>registerService\<close> either ends the process or adds
  exactly one node, below the service's path and holding the server's address. It never creates the
  path itself: every prefix is asked for with a slash at its end, which the registry refuses, and a
  refusal counts as an existing node. So the process ends unless someone else made the path before.
\<close>

theorem registration_adds_one_node:
  assumes "registry_laws Z nodes" and "proper ps" and "path_of (ps @ [PROVIDER_NAME]) \<notin> dom (nodes z)"
  shows "case registerService Z ip port (path_of ps) z of
      None \<Rightarrow> True
    | Some z' \<Rightarrow> path_of ps \<in> dom (nodes z) \<and>
        (\<exists>sfx. slash \<notin> set sfx \<and> path_of ps @ slash # PROVIDER_NAME @ sfx \<notin> dom (nodes z) \<and>
          nodes z' = (nodes z)(path_of ps @ slash # PROVIDER_NAME @ sfx \<mapsto> service_address ip port))"
  by (rule registration_step [OF assms])

text \<open>
  C21: discovery finds a live address. If a server has registered successfully and the nodes that were
  below the service's path before hold addresses too, then the client's list is not empty; whichever
  entry the random choice picks, the client ends with an address some server registered; and some
  choice gives the address just registered. This needs the stack buffer of \<open>get_data\<close> to hold nothing
  that looks like another digit, since \<open>zoo_get\<close> does not end the data with a zero byte.
\<close>

definition registered :: "string list \<Rightarrow> (string \<rightharpoonup> string) \<Rightarrow> string \<times> int \<Rightarrow> bool" where
  "registered ps m a \<longleftrightarrow>
     (\<exists>name \<in> children (path_of ps) m. m (path_of ps @ slash # name) = Some (service_address (fst a) (snd a)))"

definition all_addresses :: "string list \<Rightarrow> (string \<rightharpoonup> string) \<Rightarrow> bool" where
  "all_addresses ps m \<longleftrightarrow>
     (\<forall>name \<in> children (path_of ps) m. \<exists>ip port. good_address ip port \<and>
        m (path_of ps @ slash # name) = Some (service_address ip port))"

lemma children_upd:
  assumes "m' = m(p @ slash # new \<mapsto> data)" and "new \<noteq> []" and "slash \<notin> set new"
  shows "children p m' = insert new (children p m)"
  using assms by (auto simp: children_def)


definition demo_nodes :: "(string \<times> string) list" where
  "demo_nodes = [(''/add'', [])]"

lemma demo_proper: "proper [''add'']"
  by (simp add: proper_def slash_def)

lemma demo_path: "path_of [''add''] = ''/add''"
  by (simp add: slash_def)

lemma demo_new: "path_of ([''add''] @ [PROVIDER_NAME]) \<notin> dom (map_of demo_nodes)"
  by (simp add: demo_nodes_def PROVIDER_NAME_def)

lemma demo_good: "good_address ''10.0.0.1'' 80"
proof -
  have "decimal 80 = ''80''" by (simp add: decimal.simps [of 80] decimal.simps [of 8]) code_simp
  then show ?thesis by (simp add: good_address_def service_address_def NUL_def DATA_BUFFER_def)
qed

lemma demo_addresses: "all_addresses [''add''] (map_of demo_nodes)"
  by (simp add: all_addresses_def children_def demo_nodes_def slash_def)

lemma demo_registers:
  obtains z' where "registerService list_registry ''10.0.0.1'' 80 (path_of [''add'']) demo_nodes = Some z'"
proof -
  have p: "parent (path_of [''add''] @ slash # PROVIDER_NAME) = path_of [''add'']"
    by (rule parent_child [OF provider_name(2)])
  have "path_of [''add''] \<in> fst ` set demo_nodes" unfolding demo_path by (simp add: demo_nodes_def)
  then have "fst (zoo_create list_registry (path_of [''add''] @ slash # PROVIDER_NAME) d True demo_nodes) = ZOK" for d
    unfolding list_registry_def using p by simp
  moreover have "exists_law list_registry map_of" using list_registry_laws by (simp add: registry_laws_def)
  note registerService_creates [OF this demo_proper demo_new, of "''10.0.0.1''" 80]
  ultimately show thesis using that by (simp add: case_prod_beta)
qed

theorem registration_adds_one_node_witness:
  "\<exists>z' sfx. registerService list_registry ''10.0.0.1'' 80 ''/add'' demo_nodes = Some z' \<and>
    map_of z' (''/add'' @ slash # PROVIDER_NAME @ sfx) = Some (service_address ''10.0.0.1'' 80)"
proof -
  obtain z' where z': "registerService list_registry ''10.0.0.1'' 80 (path_of [''add'']) demo_nodes = Some z'"
    by (rule demo_registers)
  from registration_adds_one_node [OF list_registry_laws demo_proper demo_new, of "''10.0.0.1''" 80]
  obtain sfx where "map_of z' = (map_of demo_nodes)(''/add'' @ slash # PROVIDER_NAME @ sfx \<mapsto> service_address ''10.0.0.1'' 80)"
    unfolding z' option.case unfolding demo_path by blast
  then show ?thesis using z' unfolding demo_path by (metis fun_upd_same)
qed


end
