(* ===== verification/Startup.thy ===== *)
theory Startup
  imports ServerLoop ClientLoop Discovery
begin

text \<open>
  Bringing servers and clients up, and keeping a server going: descriptors
  (\<open>include/net/FileDescriptor.h\<close>), opening a non-blocking socket and resolving an address (\<open>src/rpc/RPCClient.cpp\<close>,
  \<open>src/net/TcpClient.cpp\<close>, \<open>src/net/TcpServer.cpp\<close>), the ZooKeeper session (\<open>src/rpc/ZKClient.cpp\<close>), the
  constructors of \<open>RPCServer\<close> and \<open>RPCClient\<close>, and the endless loops of \<open>TcpServer\<close>.
\<close>

section \<open>Descriptors\<close>

record file_descriptor =
  sock_fd :: int

definition new_file_descriptor :: file_descriptor where
  "new_file_descriptor = \<lparr>sock_fd = -1\<rparr>"

definition file_descriptor_of :: "int \<Rightarrow> file_descriptor" where
  "file_descriptor_of fd = \<lparr>sock_fd = fd\<rparr>"

definition fd_set :: "int \<Rightarrow> file_descriptor \<Rightarrow> file_descriptor" where
  "fd_set fd d = d\<lparr>sock_fd := fd\<rparr>"

definition fd_get :: "file_descriptor \<Rightarrow> int" where
  "fd_get d = sock_fd d"

definition fd_equal :: "file_descriptor \<Rightarrow> file_descriptor \<Rightarrow> bool" where
  "fd_equal d rhs \<longleftrightarrow> sock_fd d = sock_fd rhs"

definition fd_hash :: "(int \<Rightarrow> nat) \<Rightarrow> file_descriptor \<Rightarrow> nat" where
  "fd_hash int_hash d = int_hash (fd_get d)"

text \<open>What \<open>unordered_map\<close> asks of its keys, and why the tables of the model have integers for keys.\<close>

lemma fd_equal_hash: "fd_equal d d' \<Longrightarrow> fd_hash h d = fd_hash h d'"
  by (simp add: fd_equal_def fd_hash_def fd_get_def)

lemma fd_equal_iff: "fd_equal d d' \<longleftrightarrow> d = d'"
  by (cases d; cases d') (simp add: fd_equal_def)

lemma fd_get_set [simp]: "fd_get (fd_set fd d) = fd" "fd_get (file_descriptor_of fd) = fd"
  by (simp_all add: fd_get_def fd_set_def file_descriptor_of_def)

section \<open>Opening a socket\<close>

text \<open>
  The system calls: \<open>socket\<close>, \<open>fcntl\<close> for reading and setting the flags of a descriptor, \<open>inet_aton\<close>
  and \<open>gethostbyname\<close>, which gives a list of addresses that a null pointer ends; and the value of \<open>O_NONBLOCK\<close>.
\<close>

record 'k socket_api =
  so_socket :: "'k \<Rightarrow> int \<times> 'k"
  so_getfl :: "int \<Rightarrow> 'k \<Rightarrow> 32 word \<times> 'k"
  so_setfl :: "int \<Rightarrow> 32 word \<Rightarrow> 'k \<Rightarrow> int \<times> 'k"
  so_inet_aton :: "string \<Rightarrow> 32 word option"
  so_gethostbyname :: "string \<Rightarrow> 32 word list option"
  so_nonblock :: "32 word"
  so_strerror :: "'k \<Rightarrow> byte list"

record sockaddr_in =
  sin_port :: "16 word"
  sin_addr :: "32 word"

definition set_nonblock :: "'k socket_api \<Rightarrow> int \<Rightarrow> 'k \<Rightarrow> 32 word \<times> 'k" where
  "set_nonblock A fd k =
     (case so_getfl A fd k of
        (old_option, k) \<Rightarrow>
          (case so_setfl A fd (old_option OR so_nonblock A) k of (_, k) \<Rightarrow> (old_option, k)))"

text \<open>\<open>initialize_socket\<close> of both clients: the descriptor and the flags to go back to.\<close>

definition client_initialize_socket :: "'k socket_api \<Rightarrow> 'k \<Rightarrow> (int \<times> 32 word) outcome \<times> 'k" where
  "client_initialize_socket A k =
     (case so_socket A k of
        (fd, k) \<Rightarrow>
          if fd = -1 then (Inl Runtime_error, k)
          else
            (case so_getfl A fd k of
               (old_socket_flag, k) \<Rightarrow>
                 (case so_setfl A fd (old_socket_flag OR so_nonblock A) k of
                    (ret, k) \<Rightarrow> (if ret = -1 then Inl Runtime_error else Inr (fd, old_socket_flag), k))))"

text \<open>\<open>htons\<close>: the value whose bytes in memory are those of the argument, most significant first.\<close>

definition htons :: "16 word \<Rightarrow> 16 word" where
  "htons w = of_mem native_endian (mem_bytes Big w)"

definition set_address :: "'k socket_api \<Rightarrow> string \<Rightarrow> int \<Rightarrow> sockaddr_in outcome" where
  "set_address A address port =
     (case so_inet_aton A address of
        Some a \<Rightarrow> Inr \<lparr>sin_port = htons (word_of_int port), sin_addr = a\<rparr>
      | None \<Rightarrow>
          (case so_gethostbyname A address of
             None \<Rightarrow> Inl Runtime_error
           | Some [] \<Rightarrow> Inl Null_deref
           | Some (a # _) \<Rightarrow> Inr \<lparr>sin_port = htons (word_of_int port), sin_addr = a\<rparr>))"

text \<open>
  \<open>connect_server\<close> of \<open>RPCClient\<close> with the flags of its descriptor: the two calls above are its set-up,
  and when it succeeds it restores the flags. \<open>None\<close> for not returning, as in \<open>connect_loop\<close>.
\<close>

definition connect_from ::
    "'k socket_api \<Rightarrow> (sockaddr_in \<Rightarrow> 'k connector) \<Rightarrow> string \<Rightarrow> int \<Rightarrow> 'k rpc_client \<Rightarrow>
      (result_type \<times> 'k rpc_client) outcome option" where
  "connect_from A C ip port s =
     (case client_initialize_socket A (c_kernel (rc_client s)) of
        (Inl e, k) \<Rightarrow> Some (Inr (FAILURE (so_strerror A k), connection_failed s k))
      | (Inr (fd, fdopt), k) \<Rightarrow>
          (case set_address A ip port of
             Inl e \<Rightarrow>
               Some (if is_exception e
                     then Inr (FAILURE (str_bytes ''Failed to resolve hostname''), connection_failed s k) else Inl e)
           | Inr server \<Rightarrow>
               (case connect_socket (C server) (s\<lparr>rc_client := \<lparr>c_connected = True, c_kernel = k\<rparr>\<rparr>) of
                  None \<Rightarrow> None
                | Some (SUCCESS, s') \<Rightarrow>
                    Some (Inr (SUCCESS, s'\<lparr>rc_client := (rc_client s')\<lparr>c_kernel :=
                      snd (so_setfl A fd fdopt (c_kernel (rc_client s')))\<rparr>\<rparr>))
                | Some (FAILURE err, s') \<Rightarrow> Some (Inr (FAILURE err, s')))))"

text \<open>The same three functions of \<open>TcpClient\<close>.\<close>

definition tcp_initialize_socket :: "'k socket_api \<Rightarrow> 'k \<Rightarrow> (int \<times> 32 word) outcome \<times> 'k" where
  "tcp_initialize_socket A k = client_initialize_socket A k"

definition tcp_set_address :: "'k socket_api \<Rightarrow> string \<Rightarrow> int \<Rightarrow> sockaddr_in outcome" where
  "tcp_set_address A address port = set_address A address port"

definition tcp_connect_from ::
    "'k socket_api \<Rightarrow> (sockaddr_in \<Rightarrow> 'k connector) \<Rightarrow> string \<Rightarrow> int \<Rightarrow> 'h tcp_client \<Rightarrow> 'k \<Rightarrow>
      ((result_type \<times> 'h tcp_client) outcome \<times> 'k) option" where
  "tcp_connect_from A C ip port s k =
     (case tcp_initialize_socket A k of
        (Inl e, k) \<Rightarrow> Some (Inr (FAILURE (so_strerror A k), s), k)
      | (Inr (fd, old), k) \<Rightarrow>
          (case tcp_set_address A ip port of
             Inl e \<Rightarrow>
               Some (if is_exception e then Inr (FAILURE (str_bytes ''Failed to resolve hostname''), s) else Inl e, k)
           | Inr server \<Rightarrow>
               (case tcp_connect_socket (C server) s k of
                  Some (Inr (SUCCESS, s'), k) \<Rightarrow> Some (Inr (SUCCESS, s'), snd (so_setfl A fd old k))
                | r \<Rightarrow> r)))"

text \<open>
  How this fits \<open>connect_server\<close> and \<open>tcp_connect_server\<close>, which take the set-up as one step of the
  connector: up to the restored flags the results are the same.
\<close>

definition opened :: "'k socket_api \<Rightarrow> 'k \<Rightarrow> byte list option \<times> 'k" where
  "opened A k =
     (case client_initialize_socket A k of
        (Inl e, k) \<Rightarrow> (Some (so_strerror A k), k)
      | (Inr _, k) \<Rightarrow> (None, k))"

lemma connect_loop_setup: "connect_loop (K\<lparr>k_setup := f\<rparr>) k = connect_loop K k"
proof -
  have same: "connect_loop K' k = Some r" if "connect_loop K k = Some r" "k_connect K' = k_connect K" for K K' k r
  proof -
    have "k_connect K' = k_connect K \<longrightarrow> connect_loop K' k = Some r"
      by (rule connect_loop.raw_induct [OF _ that(1), where P = "\<lambda>K k r. k_connect K' = k_connect K \<longrightarrow> connect_loop K' k = Some r"])
        (intro impI, subst connect_loop.simps, auto split: prod.splits connect_result.splits)
    then show ?thesis using that(2) by simp
  qed
  show ?thesis
    using same [of K k _ "K\<lparr>k_setup := f\<rparr>"] same [of "K\<lparr>k_setup := f\<rparr>" k _ K]
    by (cases "connect_loop K k"; cases "connect_loop (K\<lparr>k_setup := f\<rparr>) k") auto
qed

lemma tcp_connect_socket_setup: "tcp_connect_socket (K\<lparr>k_setup := f\<rparr>) s k = tcp_connect_socket K s k"
  by (simp add: tcp_connect_socket_def connect_loop_setup wait_for_write_def
      split: option.splits prod.splits connect_result.splits)

lemma tcp_connect_from_server:
  assumes "tcp_set_address A ip port = Inr server"
  shows "map_option fst (tcp_connect_from A C ip port s k) =
    map_option fst (tcp_connect_server ((C server)\<lparr>k_setup := opened A\<rparr>) s k)"
  using assms
  by (auto simp: tcp_connect_from_def tcp_connect_server_def tcp_initialize_socket_def opened_def
      tcp_connect_socket_setup split: prod.splits sum.splits option.splits result_type.splits)

lemma connect_socket_setup: "connect_socket (K\<lparr>k_setup := f\<rparr>) s = connect_socket K s"
  by (simp add: connect_socket_def connect_loop_setup wait_for_write_def
      split: option.splits prod.splits connect_result.splits)

lemma connect_from_server:
  assumes "set_address A ip port = Inr server"
  shows "map_option (map_sum id fst) (connect_from A C ip port s) =
    map_option (Inr \<circ> fst) (connect_server ((C server)\<lparr>k_setup := opened A\<rparr>) s)"
  using assms
  by (auto simp: connect_from_def connect_server_def opened_def connect_socket_setup
      split: prod.splits sum.splits option.splits result_type.splits)

text \<open>What \<open>fcntl\<close> promises of the \<open>flags\<close> of the open descriptors, and \<open>socket\<close> of a new one.\<close>

definition flag_laws :: "'k socket_api \<Rightarrow> (int \<Rightarrow> 'k \<Rightarrow> 32 word) \<Rightarrow> bool" where
  "flag_laws A flags \<longleftrightarrow>
     (\<forall>fd k. so_getfl A fd k = (flags fd k, k)) \<and>
     (\<forall>fd v k ret k'. so_setfl A fd v k = (ret, k') \<longrightarrow>
        (ret = -1 \<longrightarrow> flags fd k' = flags fd k) \<and> (ret \<noteq> -1 \<longrightarrow> flags fd k' = v))"

lemma set_nonblock_flags:
  assumes "flag_laws A flags" and "set_nonblock A fd k = (old, k')" and "fst (so_setfl A fd (old OR so_nonblock A) k) \<noteq> -1"
  shows "old = flags fd k" "flags fd k' = flags fd k OR so_nonblock A"
  using assms by (auto simp: set_nonblock_def flag_laws_def split: prod.splits)

lemma initialize_socket_flags:
  assumes "flag_laws A flags" and "client_initialize_socket A k = (Inr (fd, old), k')"
  shows "flags fd k' = old OR so_nonblock A" "fd \<noteq> -1"
  using assms by (auto simp: client_initialize_socket_def flag_laws_def split: prod.splits if_splits)

lemma htons_bytes: "mem_bytes native_endian (htons w) = mem_bytes Big w"
  unfolding htons_def by (rule mem_bytes_of_mem) simp

text \<open>A successful connection leaves the descriptor with the flags it was made with.\<close>

lemma connect_restores_flags:
  assumes "flag_laws A flags" and "connect_from A C ip port s = Some (Inr (SUCCESS, s'))"
    and "\<And>fd v k. fst (so_setfl A fd v k) \<noteq> -1"
  shows "\<exists>fd old k. client_initialize_socket A (c_kernel (rc_client s)) = (Inr (fd, old), k) \<and>
    flags fd k = old OR so_nonblock A \<and> flags fd (c_kernel (rc_client s')) = old"
proof -
  obtain fd old k where i: "client_initialize_socket A (c_kernel (rc_client s)) = (Inr (fd, old), k)"
    using assms(2) by (auto simp: connect_from_def split: prod.splits sum.splits)
  obtain t where "s' = t\<lparr>rc_client := (rc_client t)\<lparr>c_kernel := snd (so_setfl A fd old (c_kernel (rc_client t)))\<rparr>\<rparr>"
    using assms(2) i
    by (auto simp: connect_from_def split: sum.splits option.splits prod.splits result_type.splits if_splits)
  moreover have "flags fd (snd (so_setfl A fd old k)) = old" for k
    using assms(1,3) unfolding flag_laws_def by (metis prod.collapse)
  ultimately show ?thesis using i initialize_socket_flags [OF assms(1) i] by auto
qed

section \<open>The ZooKeeper session\<close>

text \<open>
  The context of the session handle: none yet, the semaphore on the stack of \<open>start\<close> with its count, or
  that semaphore after \<open>start\<close> has returned. The library's thread calls \<open>global_watcher\<close> for each
  event; \<open>True\<close> is a session event that says connected.
\<close>

datatype zk_context = No_context | Live_sem nat | Dead_sem

definition global_watcher :: "bool \<Rightarrow> zk_context \<Rightarrow> zk_context outcome" where
  "global_watcher session_connected ctx =
     (if session_connected
      then (case ctx of
              No_context \<Rightarrow> Inl Null_deref
            | Live_sem n \<Rightarrow> Inr (Live_sem (Suc n))
            | Dead_sem \<Rightarrow> Inl Heap_overflow)
      else Inr ctx)"

fun watch_events :: "bool list \<Rightarrow> zk_context \<Rightarrow> zk_context outcome" where
  "watch_events [] ctx = Inr ctx"
| "watch_events (e # es) ctx = rbind (global_watcher e ctx) (watch_events es)"

text \<open>
  \<open>start\<close>: the events that come before \<open>zoo_set_context\<close>, and those that come while it waits. It ends the
  process if there is no handle, and waits until the semaphore has been posted.
\<close>

datatype zk_start_result = Exit_failure | Still_waiting | Started

definition zk_start :: "bool \<Rightarrow> bool list \<Rightarrow> bool list \<Rightarrow> zk_start_result outcome" where
  "zk_start init_ok early late =
     (if \<not> init_ok then Inr Exit_failure
      else rbind (watch_events early No_context) (\<lambda>_.
           rbind (watch_events late (Live_sem 0)) (\<lambda>ctx.
             Inr (case ctx of Live_sem (Suc _) \<Rightarrow> Started | _ \<Rightarrow> Still_waiting))))"

text \<open>The destructor closes the session if there is one.\<close>

definition zk_destroy :: "bool \<Rightarrow> bool" where
  "zk_destroy has_handle = has_handle"

lemma watch_No_context: "watch_events es No_context = (if True \<in> set es then Inl Null_deref else Inr No_context)"
  by (induction es) (auto simp: global_watcher_def)

lemma watch_Dead_sem: "watch_events es Dead_sem = (if True \<in> set es then Inl Heap_overflow else Inr Dead_sem)"
  by (induction es) (auto simp: global_watcher_def)

lemma watch_Live_sem: "watch_events es (Live_sem n) = Inr (Live_sem (n + length (filter id es)))"
  by (induction es arbitrary: n) (simp_all add: global_watcher_def)

lemma zk_start_eq:
  "zk_start True early late =
     (if True \<in> set early then Inl Null_deref
      else Inr (if True \<in> set late then Started else Still_waiting))"
proof -
  have "filter id late \<noteq> [] \<longleftrightarrow> True \<in> set late" by (auto simp: filter_empty_conv)
  then show ?thesis
    by (cases "filter id late") (auto simp: zk_start_def watch_No_context watch_Live_sem)
qed

section \<open>Constructing servers and clients\<close>

text \<open>
  The constructor of \<open>RPCServer\<close>, with the port and the number of clients read from the configuration:
  what \<open>start\<close> returns is not looked at. That of \<open>RPCClient\<close>: the address it will connect to, from the
  entries below its service's path.
\<close>

definition new_rpc_server ::
    "boot \<Rightarrow> bool \<Rightarrow> bool list \<Rightarrow> bool list \<Rightarrow> (server_state \<times> zk_start_result) outcome" where
  "new_rpc_server B init_ok early late =
     (case start B True new_server_state of
        (_, s) \<Rightarrow> rbind (zk_start init_ok early late) (\<lambda>r. Inr (s, r)))"

definition new_rpc_client ::
    "'z zookeeper \<Rightarrow> string \<Rightarrow> string \<Rightarrow> nat \<Rightarrow> 'z \<Rightarrow> string \<times> int \<Rightarrow> bool \<Rightarrow> bool list \<Rightarrow> bool list \<Rightarrow>
      (string \<times> int) option outcome" where
  "new_rpc_client Z junk service_name index z uninitialised init_ok early late =
     rbind (zk_start init_ok early late) (\<lambda>r.
       case r of
         Started \<Rightarrow>
           rbind (update_ip_info Z junk service_name (service_entries Z service_name z) index z uninitialised)
             (\<lambda>a. Inr (Some a))
       | _ \<Rightarrow> Inr None)"

section \<open>The loops of the server\<close>

definition MAX_EVENT_NUMBER :: nat where
  "MAX_EVENT_NUMBER = 1024"

text \<open>
  \<open>run\<close>, for the rounds listed: the events that \<open>epoll_wait\<close> reports, or \<open>None\<close> for -1. It never ends by
  itself. The result lists the descriptors tasks were submitted for.
\<close>

fun run_server :: "net_event list option list \<Rightarrow> 'h tcp_server \<Rightarrow> (int list \<times> 'h tcp_server) outcome" where
  "run_server [] s = Inr ([], s)"
| "run_server (None # rs) s = Inl Runtime_error"
| "run_server (Some es # rs) s =
     rbind (handle_et_event es s) (\<lambda>(ts, s).
     rbind (run_server rs s) (\<lambda>(us, s). Inr (ts @ us, s)))"

text \<open>
  The cleaner's thread: a round per entry, with the value of \<open>stop_remove_clients_task_\<close> at the top of
  the loop, which descriptors can be closed, and what others do to the table while it sleeps.
\<close>

fun remove_dead_clients ::
    "(bool \<times> (int \<Rightarrow> bool) \<times> ('h tcp_server \<Rightarrow> 'h tcp_server)) list \<Rightarrow> 'h tcp_server \<Rightarrow> 'h tcp_server outcome" where
  "remove_dead_clients [] s = Inr s"
| "remove_dead_clients ((stop, closes, meanwhile) # rs) s =
     (if stop then Inr s
      else rbind (remove_dead closes s) (\<lambda>s. remove_dead_clients rs (meanwhile s)))"

text \<open>\<open>~TcpServer\<close> closes and ignores the result.\<close>

definition destroy_tcp_server ::
    "(int \<Rightarrow> bool) \<Rightarrow> server_state \<Rightarrow> 'h tcp_server \<Rightarrow> (server_state \<times> 'h tcp_server) outcome" where
  "destroy_tcp_server closes s t = rbind (close_tcp_server closes s t) (\<lambda>(_, s, t). Inr (s, t))"

text \<open>Events that the kernel may report, at the state each is handled in.\<close>

fun sane_events :: "net_event list \<Rightarrow> 'h tcp_server \<Rightarrow> bool" where
  "sane_events [] s \<longleftrightarrow> True"
| "sane_events (e # es) s \<longleftrightarrow>
     sane_event s e \<and> (case handle_event e s of Inl _ \<Rightarrow> True | Inr (_, s') \<Rightarrow> sane_events es s')"

fun sane_rounds :: "net_event list option list \<Rightarrow> 'h tcp_server \<Rightarrow> bool" where
  "sane_rounds [] s \<longleftrightarrow> True"
| "sane_rounds (None # rs) s \<longleftrightarrow> True"
| "sane_rounds (Some es # rs) s \<longleftrightarrow>
     length es \<le> MAX_EVENT_NUMBER \<and> sane_events es s \<and>
     (case handle_et_event es s of Inl _ \<Rightarrow> True | Inr (_, s') \<Rightarrow> sane_rounds rs s')"

lemma handle_et_event_steps:
  "handle_et_event es s = Inr (ts, s') \<Longrightarrow> sane_events es s \<Longrightarrow> server_step\<^sup>*\<^sup>* s s'"
proof (induction es arbitrary: s ts)
  case (Cons e es)
  obtain t1 s1 t2 where e: "handle_event e s = Inr (t1, s1)" "handle_et_event es s1 = Inr (t2, s')"
    using Cons.prems(1) by (auto simp: rbind_def split: sum.splits prod.splits)
  have "server_step s s1" using event [OF _ e(1)] Cons.prems(2) by simp
  moreover have "server_step\<^sup>*\<^sup>* s1 s'" using Cons.IH [OF e(2)] Cons.prems(2) e(1) by simp
  ultimately show ?case by (rule converse_rtranclp_into_rtranclp)
qed simp

lemma run_server_steps:
  "run_server rs s = Inr (ts, s') \<Longrightarrow> sane_rounds rs s \<Longrightarrow> server_step\<^sup>*\<^sup>* s s'"
proof (induction rs s arbitrary: ts rule: run_server.induct)
  case (3 es rs s)
  obtain t1 s1 t2 where e: "handle_et_event es s = Inr (t1, s1)" "run_server rs s1 = Inr (t2, s')"
    using "3.prems"(1) by (auto simp: rbind_def split: sum.splits prod.splits)
  have "server_step\<^sup>*\<^sup>* s s1" using handle_et_event_steps [OF e(1)] "3.prems"(2) by simp
  moreover have "server_step\<^sup>*\<^sup>* s1 s'" using "3.IH" [OF e(1) refl e(2)] "3.prems"(2) e(1) by simp
  ultimately show ?case by (rule rtranclp_trans)
qed simp_all

text \<open>What the events of a round are for: connections to accept, and descriptors to submit tasks for.\<close>

definition accepted :: "int \<Rightarrow> net_event list \<Rightarrow> (int \<times> connection option) list" where
  "accepted sock es =
     map (\<lambda>e. (ne_desc e, Some \<lparr>cn_ip = ne_ip e, cn_connected = True\<rparr>)) (filter (\<lambda>e. ne_fd e = sock) es)"

definition readable :: "int \<Rightarrow> net_event list \<Rightarrow> int list" where
  "readable sock es = map ne_fd (filter (\<lambda>e. ne_fd e \<noteq> sock \<and> ne_readable e) es)"

definition served_by :: "net_event list \<Rightarrow> 'h tcp_server \<Rightarrow> 'h tcp_server" where
  "served_by es s =
     s\<lparr>sv_clients := sv_clients s @ accepted (sv_sock s) es,
       sv_write_mtx := fold (\<lambda>fd m. if fd \<in> set m then m else m @ [fd]) (readable (sv_sock s) es) (sv_write_mtx s)\<rparr>"

definition accept_fails :: "int \<Rightarrow> net_event list \<Rightarrow> bool" where
  "accept_fails sock es \<longleftrightarrow> (\<exists>e \<in> set es. ne_fd e = sock \<and> ne_desc e = -1)"

lemma served_by_Nil [simp]: "served_by [] s = s"
  by (simp add: served_by_def accepted_def readable_def)

lemma served_by_sock [simp]: "sv_sock (served_by es s) = sv_sock s"
  by (simp add: served_by_def)

lemma served_by_append: "served_by es' (served_by es s) = served_by (es @ es') s"
  by (simp add: served_by_def accepted_def readable_def)

lemma readable_append [simp]: "readable sock (es @ es') = readable sock es @ readable sock es'"
  by (simp add: readable_def)

lemma handle_event_eq:
  assumes "sane_event s e"
  shows "handle_event e s =
    (if accept_fails (sv_sock s) [e] then Inl Runtime_error else Inr (readable (sv_sock s) [e], served_by [e] s))"
  using assms
  by (cases "ne_fd e = sv_sock s")
    (auto simp: handle_event_def accept_client_def insert_client_def sane_event_def accept_fails_def
      readable_def served_by_def accepted_def table_fds_def index_client_def ensure_mtx_def)

lemma handle_et_event_eq:
  "sane_events es s \<Longrightarrow> handle_et_event es s =
    (if accept_fails (sv_sock s) es then Inl Runtime_error else Inr (readable (sv_sock s) es, served_by es s))"
proof (induction es arbitrary: s)
  case Nil
  then show ?case by (simp add: accept_fails_def readable_def)
next
  case (Cons e es)
  have "sane_event s e" using Cons.prems by simp
  note e = handle_event_eq [OF this]
  have split: "accept_fails k (e # es) \<longleftrightarrow> accept_fails k [e] \<or> accept_fails k es" for k
    by (auto simp: accept_fails_def)
  show ?case
  proof (cases "accept_fails (sv_sock s) [e]")
    case False
    then have "sane_events es (served_by [e] s)" using Cons.prems e by simp
    from Cons.IH [OF this] show ?thesis
      using False e split readable_append [of _ "[e]" es] served_by_append [of es "[e]" s] by simp
  qed (simp add: e split)
qed

lemma first_occurrences:
  "fold (\<lambda>x m. if x \<in> set m then m else m @ [x]) xs [] = rev (remdups (rev xs))"
proof -
  have "foldr (\<lambda>x m. if x \<in> set m then m else m @ [x]) ys [] = rev (remdups ys)" for ys
    by (induction ys) auto
  from this [of "rev xs"] show ?thesis by (simp add: foldr_conv_fold)
qed

lemma run_server_eq:
  "sane_rounds rs s \<Longrightarrow> run_server rs s =
    (if None \<in> set rs \<or> accept_fails (sv_sock s) (concat (map the rs)) then Inl Runtime_error
     else Inr (readable (sv_sock s) (concat (map the rs)), served_by (concat (map the rs)) s))"
proof (induction rs s rule: run_server.induct)
  case (1 s)
  then show ?case by (simp add: accept_fails_def readable_def)
next
  case (2 rs s)
  then show ?case by simp
next
  case (3 es rs s)
  have "sane_events es s" using "3.prems" by simp
  note es = handle_et_event_eq [OF this]
  have split: "accept_fails k (es @ fs) \<longleftrightarrow> accept_fails k es \<or> accept_fails k fs" for k fs
    by (auto simp: accept_fails_def)
  show ?case
  proof (cases "accept_fails (sv_sock s) es")
    case False
    then have "sane_rounds rs (served_by es s)" using "3.prems" es by simp
    then show ?thesis
      using False es split "3.IH" [of "(readable (sv_sock s) es, served_by es s)"] by (simp add: served_by_append)
  qed (simp add: es split)
qed



end
