(* ===== verification/BlockHeap.thy ===== *)
theory BlockHeap
  imports Tape
begin

text \<open>
  The memory of \<open>ByteArray\<close> (\<open>src/base/ByteArray.cpp\<close>): nodes that \<open>new\<close> gives and \<open>delete\<close> takes back, linked
  by their \<open>next_\<close> pointers, with \<open>root_\<close> and \<open>cur_\<close> pointing among them. The chain of indices of theory
  \<open>ByteArray\<close> is an abstraction of it: each pointer operation is shown to do what the index operation of the
  same name does, to touch no other memory, and to leave allocated exactly the blocks of the chain.
\<close>

section \<open>Memory\<close>

type_synonym pointer = "nat option"

record block =
  bk_mem :: "cell list"
  bk_next :: pointer
  bk_size :: nat

type_synonym heap = "nat \<rightharpoonup> block"

text \<open>Following a pointer.\<close>

definition block_at :: "heap \<Rightarrow> pointer \<Rightarrow> block outcome" where
  "block_at h p =
     (case p of
        None \<Rightarrow> Inl Null_deref
      | Some a \<Rightarrow> (case h a of None \<Rightarrow> Inl Use_after_free | Some n \<Rightarrow> Inr n))"

definition set_block :: "pointer \<Rightarrow> block \<Rightarrow> heap \<Rightarrow> heap" where
  "set_block p n h = (case p of None \<Rightarrow> h | Some a \<Rightarrow> h(a \<mapsto> n))"

definition store_block :: "pointer \<Rightarrow> nat \<Rightarrow> byte list \<Rightarrow> heap \<Rightarrow> heap outcome" where
  "store_block p off bs h =
     rbind (block_at h p) (\<lambda>n.
       if off + length bs \<le> length (bk_mem n)
       then Inr (set_block p (n\<lparr>bk_mem := overlay (bk_mem n) off (map Some bs)\<rparr>) h)
       else Inl Heap_overflow)"

definition fetch_block :: "heap \<Rightarrow> pointer \<Rightarrow> nat \<Rightarrow> nat \<Rightarrow> cell list outcome" where
  "fetch_block h p off n =
     rbind (block_at h p) (\<lambda>nd.
       if off + n \<le> length (bk_mem nd) then Inr (take n (drop off (bk_mem nd))) else Inl Heap_overflow)"

definition set_next :: "pointer \<Rightarrow> pointer \<Rightarrow> heap \<Rightarrow> heap outcome" where
  "set_next p q h = rbind (block_at h p) (\<lambda>n. Inr (set_block p (n\<lparr>bk_next := q\<rparr>) h))"

text \<open>
  \<open>new Node(s)\<close>. The address is the choice of \<open>operator new\<close>, the parameter \<open>alloc\<close>: one that is not in use.
\<close>

definition fresh_alloc :: "(heap \<Rightarrow> nat) \<Rightarrow> bool" where
  "fresh_alloc alloc \<longleftrightarrow> (\<forall>h. finite (dom h) \<longrightarrow> h (alloc h) = None)"

definition new_block :: "(heap \<Rightarrow> nat) \<Rightarrow> nat \<Rightarrow> heap \<Rightarrow> nat \<times> heap" where
  "new_block alloc s h = (alloc h, h(alloc h \<mapsto> \<lparr>bk_mem = replicate s None, bk_next = None, bk_size = s\<rparr>))"

section \<open>The operations on pointers\<close>

record linked_array =
  la_base :: nat
  la_pos :: nat
  la_cap :: nat
  la_size :: nat
  la_endian :: endian
  la_root :: pointer
  la_cur :: pointer

definition linked_new :: "(heap \<Rightarrow> nat) \<Rightarrow> nat \<Rightarrow> heap \<Rightarrow> linked_array \<times> heap" where
  "linked_new alloc base h =
     (case new_block alloc base h of
        (a, h) \<Rightarrow>
          (\<lparr>la_base = base, la_pos = 0, la_cap = base, la_size = 0, la_endian = Big,
            la_root = Some a, la_cur = Some a\<rparr>, h))"

text \<open>Loops along \<open>next_\<close> do not return on a chain that is a cycle: \<open>None\<close>.\<close>

partial_function (option) delete_chain :: "pointer \<Rightarrow> heap \<Rightarrow> heap outcome option" where
  "delete_chain tmp h =
     (case tmp of
        None \<Rightarrow> Some (Inr h)
      | Some a \<Rightarrow>
          (case h a of
             None \<Rightarrow> Some (Inl Use_after_free)
           | Some n \<Rightarrow> delete_chain (bk_next n) (h(a := None))))"

definition linked_destroy :: "linked_array \<Rightarrow> heap \<Rightarrow> heap outcome option" where
  "linked_destroy s h = delete_chain (la_root s) h"

definition linked_clear :: "linked_array \<times> heap \<Rightarrow> (linked_array \<times> heap) outcome option" where
  "linked_clear = (\<lambda>(s, h).
     case block_at h (la_root s) of
       Inl e \<Rightarrow> Some (Inl e)
     | Inr r \<Rightarrow>
         map_option (\<lambda>d. rbind d (\<lambda>h. rbind (set_next (la_root s) None h) (\<lambda>h.
             Inr (s\<lparr>la_pos := 0, la_size := 0, la_cap := la_base s, la_cur := la_root s\<rparr>, h))))
           (delete_chain (bk_next r) h))"

partial_function (option) last_block :: "heap \<Rightarrow> pointer \<Rightarrow> pointer outcome option" where
  "last_block h tmp =
     (case block_at h tmp of
        Inl e \<Rightarrow> Some (Inl e)
      | Inr n \<Rightarrow> (if bk_next n = None then Some (Inr tmp) else last_block h (bk_next n)))"

text \<open>The loop over \<open>count\<close> new nodes: \<open>first\<close>, \<open>capacity_\<close> and the memory.\<close>

fun append_blocks ::
    "(heap \<Rightarrow> nat) \<Rightarrow> nat \<Rightarrow> nat \<Rightarrow> pointer \<Rightarrow> pointer \<Rightarrow> nat \<Rightarrow> heap \<Rightarrow> (pointer \<times> nat \<times> heap) outcome" where
  "append_blocks alloc base 0 tmp first cap h = Inr (first, cap, h)"
| "append_blocks alloc base (Suc n) tmp first cap h =
     (case new_block alloc base h of
        (a, h) \<Rightarrow>
          rbind (set_next tmp (Some a) h) (\<lambda>h.
            append_blocks alloc base n (Some a) (if first = None then Some a else first) (cap + base) h))"

definition linked_addCapacity ::
    "(heap \<Rightarrow> nat) \<Rightarrow> nat \<Rightarrow> linked_array \<times> heap \<Rightarrow> (linked_array \<times> heap) outcome option" where
  "linked_addCapacity alloc sz = (\<lambda>(s, h).
     if sz = 0 then Some (Inr (s, h))
     else let old_cap = usub (la_cap s) (la_pos s) in
       if sz \<le> old_cap then Some (Inr (s, h))
       else if la_base s = 0 then Some (Inl Div_by_zero)
       else let count = (sz - old_cap + la_base s - 1) div la_base s in
         map_option (\<lambda>l. rbind l (\<lambda>tmp.
             rbind (append_blocks alloc (la_base s) count tmp None (la_cap s) h) (\<lambda>(first, cap, h).
               Inr (s\<lparr>la_cap := cap, la_cur := (if old_cap = 0 then first else la_cur s)\<rparr>, h))))
           (last_block h (la_root s)))"

partial_function (option) linked_write_loop ::
    "byte list \<Rightarrow> nat \<Rightarrow> nat \<Rightarrow> linked_array \<Rightarrow> heap \<Rightarrow> (linked_array \<times> heap) outcome option" where
  "linked_write_loop buf npos ncap s h =
     (if buf = [] then Some (Inr (s, h))
      else if length buf \<le> ncap then
        Some (rbind (store_block (la_cur s) npos buf h) (\<lambda>h.
              rbind (block_at h (la_cur s)) (\<lambda>n.
                Inr (s\<lparr>la_cur := (if bk_size n = npos + length buf then bk_next n else la_cur s),
                       la_pos := la_pos s + length buf\<rparr>, h))))
      else
        (case rbind (store_block (la_cur s) npos (take ncap buf) h) (\<lambda>h.
              rbind (block_at h (la_cur s)) (\<lambda>n.
              rbind (block_at h (bk_next n)) (\<lambda>m. Inr (h, bk_next n, bk_size m)))) of
           Inl e \<Rightarrow> Some (Inl e)
         | Inr (h, cur, room) \<Rightarrow>
             linked_write_loop (drop ncap buf) 0 room (s\<lparr>la_pos := la_pos s + ncap, la_cur := cur\<rparr>) h))"

definition linked_locate :: "linked_array \<Rightarrow> heap \<Rightarrow> nat \<Rightarrow> (nat \<times> nat) outcome" where
  "linked_locate s h p =
     (if la_base s = 0 then Inl Div_by_zero
      else rbind (block_at h (la_cur s)) (\<lambda>n.
        Inr (p mod la_base s, usub (bk_size n) (p mod la_base s))))"

definition linked_write ::
    "(heap \<Rightarrow> nat) \<Rightarrow> byte list \<Rightarrow> linked_array \<times> heap \<Rightarrow> (linked_array \<times> heap) outcome option" where
  "linked_write alloc buf sh =
     (if buf = [] then Some (Inr sh)
      else case linked_addCapacity alloc (length buf) sh of
             None \<Rightarrow> None
           | Some (Inl e) \<Rightarrow> Some (Inl e)
           | Some (Inr (s, h)) \<Rightarrow>
               (case linked_locate s h (la_pos s) of
                  Inl e \<Rightarrow> Some (Inl e)
                | Inr (npos, ncap) \<Rightarrow>
                    map_option (\<lambda>r. rbind r (\<lambda>(s, h).
                        Inr (if la_size s < la_pos s then s\<lparr>la_size := la_pos s\<rparr> else s, h)))
                      (linked_write_loop buf npos ncap s h)))"

text \<open>The reading loop collects the cells in \<open>acc\<close>.\<close>

partial_function (option) linked_read_loop ::
    "heap \<Rightarrow> nat \<Rightarrow> nat \<Rightarrow> nat \<Rightarrow> nat \<Rightarrow> pointer \<Rightarrow> cell list \<Rightarrow> (cell list \<times> nat \<times> pointer) outcome option" where
  "linked_read_loop h sz npos ncap pos cur acc =
     (if sz = 0 then Some (Inr (acc, pos, cur))
      else if sz \<le> ncap then
        Some (rbind (fetch_block h cur npos sz) (\<lambda>cs.
              rbind (block_at h cur) (\<lambda>n.
                Inr (acc @ cs, pos + sz, if bk_size n = npos + sz then bk_next n else cur))))
      else
        (case rbind (fetch_block h cur npos ncap) (\<lambda>cs.
              rbind (block_at h cur) (\<lambda>n.
              rbind (block_at h (bk_next n)) (\<lambda>m. Inr (cs, bk_next n, bk_size m)))) of
           Inl e \<Rightarrow> Some (Inl e)
         | Inr (cs, cur, room) \<Rightarrow> linked_read_loop h (sz - ncap) 0 room (pos + ncap) cur (acc @ cs)))"

definition linked_read :: "nat \<Rightarrow> linked_array \<times> heap \<Rightarrow> (cell list \<times> linked_array \<times> heap) outcome option" where
  "linked_read n = (\<lambda>(s, h).
     if usub (la_size s) (la_pos s) < n then Some (Inl Out_of_range)
     else case linked_locate s h (la_pos s) of
            Inl e \<Rightarrow> Some (Inl e)
          | Inr (npos, ncap) \<Rightarrow>
              map_option (\<lambda>r. rbind r (\<lambda>(cs, pos, cur). Inr (cs, s\<lparr>la_pos := pos, la_cur := cur\<rparr>, h)))
                (linked_read_loop h n npos ncap (la_pos s) (la_cur s) []))"

partial_function (option) linked_setpos_loop :: "heap \<Rightarrow> nat \<Rightarrow> pointer \<Rightarrow> pointer outcome option" where
  "linked_setpos_loop h v cur =
     (case block_at h cur of
        Inl e \<Rightarrow> Some (Inl e)
      | Inr n \<Rightarrow>
          (if bk_size n < v then linked_setpos_loop h (v - bk_size n) (bk_next n)
           else Some (Inr (if v = bk_size n then bk_next n else cur))))"

definition linked_setPosition :: "nat \<Rightarrow> linked_array \<times> heap \<Rightarrow> (linked_array \<times> heap) outcome option" where
  "linked_setPosition v = (\<lambda>(s, h).
     if la_cap s < v then Some (Inl Out_of_range)
     else map_option (\<lambda>r. rbind r (\<lambda>cur.
              Inr (s\<lparr>la_pos := v, la_size := max v (la_size s), la_cur := cur\<rparr>, h)))
            (linked_setpos_loop h v (la_root s)))"

section \<open>The chain in memory\<close>

text \<open>The pointer to the block of an index, given the addresses of the chain.\<close>

definition ptr :: "nat list \<Rightarrow> nat \<Rightarrow> pointer" where
  "ptr as i = (if i < length as then Some (as ! i) else None)"

definition linked :: "heap \<Rightarrow> nat list \<Rightarrow> node list \<Rightarrow> bool" where
  "linked h as ns \<longleftrightarrow>
     length as = length ns \<and> distinct as \<and>
     (\<forall>i < length as. h (as ! i) =
        Some \<lparr>bk_mem = node_mem (ns ! i), bk_next = ptr as (Suc i), bk_size = node_size (ns ! i)\<rparr>)"

definition view :: "nat list \<Rightarrow> byte_array \<Rightarrow> linked_array" where
  "view as b =
     \<lparr>la_base = ba_base b, la_pos = ba_pos b, la_cap = ba_cap b, la_size = ba_size b,
      la_endian = ba_endian b, la_root = ptr as 0, la_cur = ptr as (ba_cur b)\<rparr>"

definition outside :: "nat list \<Rightarrow> heap \<Rightarrow> heap" where
  "outside as h = h |` (- set as)"

lemma block_at_ptr:
  assumes "linked h as ns"
  shows "block_at h (ptr as i) =
    rbind (node_at ns i) (\<lambda>n. Inr \<lparr>bk_mem = node_mem n, bk_next = ptr as (Suc i), bk_size = node_size n\<rparr>)"
  using assms by (simp add: block_at_def ptr_def linked_def node_at_def)

lemma fetch_ptr: "linked h as ns \<Longrightarrow> fetch_block h (ptr as i) off n = fetch ns i off n"
  by (cases "i < length ns") (simp_all add: fetch_block_def fetch_def block_at_ptr node_at_def)

lemma set_block_linked:
  assumes "linked h as ns" and "i < length ns"
  shows "linked (set_block (ptr as i) \<lparr>bk_mem = m, bk_next = ptr as (Suc i), bk_size = node_size (ns ! i)\<rparr> h)
      as (ns[i := (ns ! i)\<lparr>node_mem := m\<rparr>])"
    "outside as (set_block (ptr as i) n h) = outside as h"
  using assms
  by (auto simp: linked_def set_block_def ptr_def nth_list_update nth_eq_iff_index_eq outside_def
      restrict_map_def fun_eq_iff)

lemma store_ptr:
  assumes "linked h as (ba_nodes b)"
  shows "case store i off bs b of
      Inl e \<Rightarrow> store_block (ptr as i) off bs h = Inl e
    | Inr b' \<Rightarrow> \<exists>h'. store_block (ptr as i) off bs h = Inr h' \<and> linked h' as (ba_nodes b') \<and>
        outside as h' = outside as h \<and> b' = b\<lparr>ba_nodes := ba_nodes b'\<rparr>"
proof (cases "i < length (ba_nodes b)")
  case True
  then show ?thesis
    using set_block_linked [OF assms True]
    by (auto simp: store_def store_block_def block_at_ptr [OF assms] node_at_def)
qed (simp add: store_def store_block_def block_at_ptr [OF assms] node_at_def)

section \<open>Loops\<close>

lemma linked_write_loop_eq:
  assumes "linked h as (ba_nodes b)"
  shows "case write_loop buf npos ncap b of
      Inl e \<Rightarrow> linked_write_loop buf npos ncap (view as b) h = Some (Inl e)
    | Inr b' \<Rightarrow> \<exists>h'. linked_write_loop buf npos ncap (view as b) h = Some (Inr (view as b', h')) \<and>
        linked h' as (ba_nodes b') \<and> outside as h' = outside as h"
  using assms
proof (induction buf npos ncap b arbitrary: h rule: write_loop.induct)
  case (1 buf npos ncap b)
  note unfold = write_loop.simps [of buf npos ncap b] linked_write_loop.simps [of buf npos ncap]
  let ?bs = "if length buf \<le> ncap then buf else take ncap buf"
  consider "buf = []" | e where "buf \<noteq> []" "store (ba_cur b) npos ?bs b = Inl e"
    | b1 where "buf \<noteq> []" "store (ba_cur b) npos ?bs b = Inr b1"
    by (cases "store (ba_cur b) npos ?bs b") blast+
  then show ?case
  proof cases
    case 1
    then show ?thesis
      using "1.prems" by (simp add: write_loop.simps [of "[]"] linked_write_loop.simps [of "[]"])
  next
    case 2
    then show ?thesis
      using store_ptr [OF "1.prems", of "ba_cur b" npos ?bs] by (simp add: unfold view_def split: if_splits)
  next
    case 3
    obtain h1 where h1: "store_block (ptr as (ba_cur b)) npos ?bs h = Inr h1" "linked h1 as (ba_nodes b1)"
        "outside as h1 = outside as h" "b1 = b\<lparr>ba_nodes := ba_nodes b1\<rparr>"
      using store_ptr [OF "1.prems", of "ba_cur b" npos ?bs] 3(2) by auto
    have frame: "ba_cur b1 = ba_cur b" "ba_pos b1 = ba_pos b" by (subst h1(4); simp)+
    have v: "view as b1 = view as b" by (subst h1(4)) (simp add: view_def)
    note at = block_at_ptr [OF h1(2)]
    have cur: "ba_cur b < length (ba_nodes b1)"
      using 3(2) by (auto simp: store_def rbind_eq_Inr_iff split: if_splits)
    show ?thesis
    proof (cases "length buf \<le> ncap")
      case True
      then show ?thesis
        using 3 h1(1-3) frame cur v by (auto simp: unfold at node_at_def view_def)
    next
      case False
      show ?thesis
      proof (cases "Suc (ba_cur b) < length (ba_nodes b1)")
        case next_node: True
        let ?b2 = "b1\<lparr>ba_pos := ba_pos b1 + ncap, ba_cur := Suc (ba_cur b1)\<rparr>"
        have "linked h1 as (ba_nodes ?b2)" using h1(2) by simp
        note IH = "1.IH" [OF 3(1) False _ _ this, of "ba_nodes b1 ! Suc (ba_cur b)"]
        have step: "linked_write_loop buf npos ncap (view as b) h =
            linked_write_loop (drop ncap buf) 0 (node_size (ba_nodes b1 ! Suc (ba_cur b))) (view as ?b2) h1"
          using 3(1) False h1(1) cur next_node frame v by (simp add: unfold at node_at_def view_def)
        have "write_loop buf npos ncap b =
            write_loop (drop ncap buf) 0 (node_size (ba_nodes b1 ! Suc (ba_cur b))) ?b2"
          using 3 False next_node frame by (simp add: unfold node_at_def)
        then show ?thesis
          using IH 3(2) False next_node frame h1(3) step by (auto simp: node_at_def split: sum.splits)
      next
        case last_node: False
        then show ?thesis
          using 3 False h1(1) cur frame v by (simp add: unfold at node_at_def view_def)
      qed
    qed
  qed
qed

lemma linked_read_loop_eq:
  assumes "linked h as ns"
  shows "linked_read_loop h sz npos ncap pos (ptr as cur) acc =
    Some (rbind (read_loop ns sz npos ncap pos cur) (\<lambda>(cs, pos', cur'). Inr (acc @ cs, pos', ptr as cur')))"
  using assms
proof (induction ns sz npos ncap pos cur arbitrary: acc rule: read_loop.induct)
  case (1 ns sz npos ncap pos cur)
  note unfold = read_loop.simps [of ns sz npos ncap pos cur]
    linked_read_loop.simps [of h sz npos ncap pos "ptr as cur" acc]
  note at = block_at_ptr [OF "1.prems"] fetch_ptr [OF "1.prems"]
  show ?case
  proof (cases "sz \<le> ncap")
    case True
    then show ?thesis
      by (cases "fetch ns cur npos sz"; cases "cur < length ns") (simp_all add: unfold at node_at_def)
  next
    case False
    show ?thesis
    proof (cases "fetch ns cur npos ncap")
      case (Inl e)
      then show ?thesis using False by (simp add: unfold at)
    next
      case (Inr cs)
      then have cur: "cur < length ns" by (auto simp: fetch_def rbind_eq_Inr_iff)
      show ?thesis
      proof (cases "Suc cur < length ns")
        case True
        have "linked_read_loop h (sz - ncap) 0 (node_size (ns ! Suc cur)) (pos + ncap) (ptr as (Suc cur)) (acc @ cs) =
            Some (rbind (read_loop ns (sz - ncap) 0 (node_size (ns ! Suc cur)) (pos + ncap) (Suc cur))
              (\<lambda>(cs', pos', cur'). Inr ((acc @ cs) @ cs', pos', ptr as cur')))"
          using "1.IH" [OF _ False Inr, of "ns ! Suc cur" "acc @ cs"] False True "1.prems" by simp
        then show ?thesis
          using False Inr cur True by (simp add: unfold at node_at_def rbind_assoc split_def)
      qed (use False Inr cur in \<open>simp add: unfold at node_at_def\<close>)
    qed
  qed
qed

lemma linked_setpos_loop_eq:
  assumes "linked h as ns"
  shows "linked_setpos_loop h v (ptr as cur) = Some (rbind (setpos_loop ns v cur) (\<lambda>cur'. Inr (ptr as cur')))"
  using assms
proof (induction ns v cur rule: setpos_loop.induct)
  case (1 ns v cur)
  note unfold = setpos_loop.simps [of ns v cur] linked_setpos_loop.simps [of h v "ptr as cur"]
  show ?case
  proof (cases "cur < length ns")
    case True
    then show ?thesis using "1.IH" [of "ns ! cur"] "1.prems" by (simp add: unfold block_at_ptr node_at_def)
  qed (simp add: unfold block_at_ptr [OF "1.prems"] node_at_def)
qed

lemma last_block_eq:
  assumes "linked h as ns" and "i < length as"
  shows "last_block h (ptr as i) = Some (Inr (ptr as (length as - 1)))"
  using assms(2)
proof (induction "length as - i" arbitrary: i rule: less_induct)
  case less
  have n: "i < length ns" using less.prems assms(1) by (simp add: linked_def)
  show ?case
  proof (cases "Suc i < length as")
    case True
    then have "last_block h (ptr as (Suc i)) = Some (Inr (ptr as (length as - 1)))"
      using less.hyps [of "Suc i"] less.prems by simp
    moreover have "ptr as (Suc i) \<noteq> None" using True by (simp add: ptr_def)
    ultimately show ?thesis
      using n by (subst last_block.simps) (auto simp: block_at_ptr [OF assms(1)] node_at_def)
  next
    case False
    then have "i = length as - 1" "ptr as (Suc i) = None" using less.prems by (simp_all add: ptr_def)
    then show ?thesis
      using n by (subst last_block.simps) (simp add: block_at_ptr [OF assms(1)] node_at_def)
  qed
qed

text \<open>Freeing a chain from one of its blocks on.\<close>

lemma delete_chain_eq:
  assumes "distinct as"
    and "\<forall>j < length as. i \<le> j \<longrightarrow> (\<exists>n. h (as ! j) = Some n \<and> bk_next n = ptr as (Suc j))"
  shows "delete_chain (ptr as i) h = Some (Inr (outside (drop i as) h))"
  using assms(2)
proof (induction "length as - i" arbitrary: i h rule: less_induct)
  case less
  show ?case
  proof (cases "i < length as")
    case True
    let ?h = "h(as ! i := None)"
    obtain n where n: "h (as ! i) = Some n" "bk_next n = ptr as (Suc i)" using less.prems True by auto
    have "?h (as ! j) = h (as ! j)" if "j < length as" "Suc i \<le> j" for j
      using that True assms(1) by (simp add: nth_eq_iff_index_eq)
    then have "\<forall>j < length as. Suc i \<le> j \<longrightarrow> (\<exists>n. ?h (as ! j) = Some n \<and> bk_next n = ptr as (Suc j))"
      using less.prems by simp
    then have "delete_chain (ptr as (Suc i)) ?h = Some (Inr (outside (drop (Suc i) as) ?h))"
      using less.hyps [of "Suc i" ?h] True by simp
    moreover have "outside (drop (Suc i) as) ?h = outside (drop i as) h"
      by (simp add: Cons_nth_drop_Suc [OF True, symmetric]) (auto simp: outside_def restrict_map_def fun_eq_iff)
    ultimately show ?thesis using n True by (subst delete_chain.simps) (simp add: ptr_def)
  qed (subst delete_chain.simps, simp add: ptr_def outside_def restrict_map_def)
qed

text \<open>Adding blocks at the end.\<close>

lemma append_blocks_eq:
  assumes "fresh_alloc alloc" and "finite (dom h)" and "linked h as ns" and "as \<noteq> []"
  shows "\<exists>new h'. append_blocks alloc base n (ptr as (length as - 1)) first cap h =
      Inr (if first = None then ptr new 0 else first, cap + n * base, h') \<and>
    length new = n \<and> linked h' (as @ new) (ns @ replicate n (new_node base)) \<and>
    outside (as @ new) h' = outside as h \<and> finite (dom h')"
  using assms(2-4)
proof (induction n arbitrary: as ns first cap h)
  case 0
  then show ?case by (intro exI [of _ "[]"]) (simp add: ptr_def)
next
  case (Suc n)
  let ?a = "alloc h" and ?l = "length as - 1"
  let ?h1 = "h(?a \<mapsto> \<lparr>bk_mem = replicate base None, bk_next = None, bk_size = base\<rparr>)"
  let ?last = "\<lparr>bk_mem = node_mem (ns ! ?l), bk_next = Some ?a, bk_size = node_size (ns ! ?l)\<rparr>"
  let ?h2 = "?h1(as ! ?l \<mapsto> ?last)"
  have len: "length as = length ns" and d: "distinct as" and l: "?l < length as"
    using Suc.prems(2,3) by (auto simp: linked_def simp del: length_greater_0_conv simp flip: length_greater_0_conv)
  have fresh: "h ?a = None" using assms(1) Suc.prems(1) by (simp add: fresh_alloc_def)
  have at: "h (as ! j) = Some \<lparr>bk_mem = node_mem (ns ! j), bk_next = ptr as (Suc j), bk_size = node_size (ns ! j)\<rparr>"
    if "j < length as" for j
    using Suc.prems(2) that by (simp add: linked_def)
  have notin: "?a \<notin> set as" using at fresh by (metis in_set_conv_nth option.distinct(1))
  then have ne: "as ! j \<noteq> ?a" if "j < length as" for j using that nth_mem by metis
  have link: "set_next (ptr as ?l) (Some ?a) ?h1 = Inr ?h2"
    using l ne [OF l] at [OF l] by (simp add: set_next_def block_at_def ptr_def set_block_def)
  have linked: "linked ?h2 (as @ [?a]) (ns @ [new_node base])"
    unfolding linked_def
  proof (intro conjI allI impI)
    fix j assume j: "j < length (as @ [?a])"
    consider "j < ?l" | "j = ?l" | "j = length as" using j by fastforce
    then show "?h2 ((as @ [?a]) ! j) =
        Some \<lparr>bk_mem = node_mem ((ns @ [new_node base]) ! j), bk_next = ptr (as @ [?a]) (Suc j),
          bk_size = node_size ((ns @ [new_node base]) ! j)\<rparr>"
    proof cases
      case 1
      then have "as ! j \<noteq> as ! ?l" "j < length as" "Suc j < length as" using d l by (auto simp: nth_eq_iff_index_eq)
      then show ?thesis using 1 at [of j] ne [of j] len by (simp add: nth_append ptr_def)
    next
      case 2
      moreover have "Suc ?l = length as" using l by simp
      ultimately show ?thesis using l len by (simp add: nth_append ptr_def)
    next
      case 3
      then show ?thesis using l len ne [OF l] by (simp add: nth_append ptr_def new_node_def)
    qed
  qed (use len d notin in simp_all)
  have out: "outside (as @ [?a]) ?h2 = outside as h"
    using l fresh nth_mem [OF l] by (auto simp: outside_def restrict_map_def fun_eq_iff)
  have "finite (dom ?h2)" using Suc.prems(1) by simp
  moreover have "as @ [?a] \<noteq> []" by simp
  ultimately obtain new h' where IH: "append_blocks alloc base n (ptr (as @ [?a]) (length (as @ [?a]) - 1))
      (if first = None then Some ?a else first) (cap + base) ?h2 =
        Inr (if (if first = None then Some ?a else first) = None then ptr new 0
             else if first = None then Some ?a else first, cap + base + n * base, h')"
      "length new = n" "linked h' ((as @ [?a]) @ new) ((ns @ [new_node base]) @ replicate n (new_node base))"
      "outside ((as @ [?a]) @ new) h' = outside (as @ [?a]) ?h2" "finite (dom h')"
    using Suc.IH [OF _ linked, of "if first = None then Some ?a else first" "cap + base"] by blast
  have "ptr (as @ [?a]) (length (as @ [?a]) - 1) = Some ?a" by (simp add: ptr_def nth_append)
  then have "append_blocks alloc base (Suc n) (ptr as ?l) first cap h =
      Inr (if first = None then ptr (?a # new) 0 else first, cap + Suc n * base, h')"
    using IH(1) link by (auto simp: new_block_def ptr_def algebra_simps)
  then show ?case
    using IH(2-5) out by (intro exI [of _ "?a # new"] exI [of _ h']) simp
qed

end
