(* ===== verification/BlockMemory.thy ===== *)
theory BlockMemory
  imports BlockHeap
begin

text \<open>
  The operations of \<open>ByteArray\<close> (\<open>src/base/ByteArray.cpp\<close>) on memory do what its operations on the chain of
  indices do, and the life of a buffer from its constructor to its destructor leaves no trace in memory.
\<close>

section \<open>Operations\<close>

text \<open>
  A buffer in memory: its members and the memory \<open>h\<close>, in which there is nothing but its blocks beside what was
  there before, \<open>f\<close>.
\<close>

definition represents :: "heap \<Rightarrow> linked_array \<times> heap \<Rightarrow> byte_array \<Rightarrow> bool" where
  "represents f sh b \<longleftrightarrow>
     (\<exists>as. fst sh = view as b \<and> linked (snd sh) as (ba_nodes b) \<and> outside as (snd sh) = f \<and> finite (dom (snd sh)))"

lemma representsE:
  assumes "represents f sh b"
  obtains as h where "sh = (view as b, h)" "linked h as (ba_nodes b)" "outside as h = f" "finite (dom h)"
  using assms by (cases sh) (auto simp: represents_def)

lemma finite_outside: "finite (dom (outside as h)) \<longleftrightarrow> finite (dom h)"
proof -
  have "dom h \<subseteq> dom (outside as h) \<union> set as" by (auto simp: outside_def restrict_map_def)
  moreover have "dom (outside as h) \<subseteq> dom h" by (auto simp: outside_def restrict_map_def split: if_splits)
  ultimately show ?thesis by (meson List.finite_set finite_Un finite_subset)
qed

lemma representsI:
  "linked h as (ba_nodes b) \<Longrightarrow> outside as h = f \<Longrightarrow> finite (dom f) \<Longrightarrow> represents f (view as b, h) b"
  using finite_outside [of as h] by (auto simp: represents_def)

text \<open>The pointer operation returns what the index operation does.\<close>

definition agrees :: "('a \<Rightarrow> 'b \<Rightarrow> bool) \<Rightarrow> 'a outcome option \<Rightarrow> 'b outcome \<Rightarrow> bool" where
  "agrees R r r' \<longleftrightarrow> (case r' of Inl e \<Rightarrow> r = Some (Inl e) | Inr y \<Rightarrow> \<exists>x. r = Some (Inr x) \<and> R x y)"

lemma new_represents:
  assumes "fresh_alloc alloc" and "finite (dom f)"
  shows "represents f (linked_new alloc base f) (new_byte_array base)"
proof -
  have "f (alloc f) = None" using assms by (simp add: fresh_alloc_def)
  then show ?thesis
    using assms(2)
    by (auto simp: represents_def linked_new_def new_block_def new_byte_array_def view_def linked_def ptr_def
        new_node_def outside_def restrict_map_def fun_eq_iff intro!: exI [of _ "[alloc f]"])
qed

lemma destroy_represents: "represents f (s, h) b \<Longrightarrow> linked_destroy s h = Some (Inr f)"
  using delete_chain_eq [of _ 0 h]
  by (auto simp: represents_def linked_destroy_def view_def linked_def)

lemma clear_represents:
  assumes "represents f sh b" and "ba_inv b"
  shows "agrees (represents f) (linked_clear sh) (Inr (clear b))"
proof -
  obtain as h where r: "sh = (view as b, h)" "linked h as (ba_nodes b)" "outside as h = f" "finite (dom h)"
    by (rule representsE [OF assms(1)])
  obtain n ns where ns: "ba_nodes b = n # ns" using assms(2) by (cases "ba_nodes b") (auto simp: ba_inv_def)
  obtain a as' where as: "as = a # as'" using r(2) ns by (cases as) (auto simp: linked_def)
  let ?h = "outside as' h"
  have d: "distinct as" "a \<notin> set as'" using r(2) as by (auto simp: linked_def)
  have root: "h a = Some \<lparr>bk_mem = node_mem n, bk_next = ptr as 1, bk_size = node_size n\<rparr>"
    using r(2) ns as by (auto simp: linked_def dest: spec [of _ 0])
  have "\<forall>j < length as. 1 \<le> j \<longrightarrow> (\<exists>n. h (as ! j) = Some n \<and> bk_next n = ptr as (Suc j))"
    using r(2) by (simp add: linked_def)
  from delete_chain_eq [OF d(1) this] have "delete_chain (ptr as 1) h = Some (Inr ?h)" by (simp add: as)
  moreover have "?h a = h a" using d(2) by (simp add: outside_def)
  ultimately have "linked_clear sh = Some (Inr (view [a] (clear b),
      ?h(a \<mapsto> \<lparr>bk_mem = node_mem n, bk_next = None, bk_size = node_size n\<rparr>)))"
    using root ns by (simp add: linked_clear_def r(1) view_def as ptr_def block_at_def set_next_def
        set_block_def clear_def)
  moreover have "outside [a] (?h(a \<mapsto> x)) = f" for x
    unfolding r(3) [symmetric] as by (auto simp: outside_def restrict_map_def fun_eq_iff)
  moreover have "finite (dom f)" using r(3,4) finite_outside by blast
  ultimately show ?thesis
    using ns by (auto simp: agrees_def linked_def ptr_def clear_def intro!: representsI)
qed

lemma addCapacity_represents:
  assumes "represents f sh b" and "ba_inv b" and "fresh_alloc alloc"
  shows "agrees (represents f) (linked_addCapacity alloc sz sh) (addCapacity sz b)"
proof -
  obtain as h where r: "sh = (view as b, h)" "linked h as (ba_nodes b)" "outside as h = f" "finite (dom h)"
    by (rule representsE [OF assms(1)])
  have len: "length as = length (ba_nodes b)" using r(2) by (simp add: linked_def)
  then have ne: "as \<noteq> []" using assms(2) by (auto simp: ba_inv_def)
  have base: "ba_base b \<noteq> 0" using ba_inv_base [OF assms(2)] by simp
  have cap: "ba_pos b \<le> ba_cap b" using ba_inv_sizes [OF assms(2)] by linarith
  let ?old = "getCapacity b"
  let ?n = "(sz - ?old + ba_base b - 1) div ba_base b"
  show ?thesis
  proof (cases "sz \<le> ?old")
    case True
    then show ?thesis
      using assms(1) r(1) by (auto simp: agrees_def linked_addCapacity_def addCapacity_def getCapacity_def view_def)
  next
    case False
    then have pos: "0 < ?n" using base by (simp add: div_greater_zero_iff)
    obtain new h' where a: "append_blocks alloc (ba_base b) ?n (ptr as (length as - 1)) None (ba_cap b) h =
        Inr (ptr new 0, ba_cap b + ?n * ba_base b, h')" "length new = ?n"
        "linked h' (as @ new) (ba_nodes b @ replicate ?n (new_node (ba_base b)))"
        "outside (as @ new) h' = outside as h" "finite (dom h')"
      using append_blocks_eq [OF assms(3) r(4,2) ne, of "ba_base b" ?n None "ba_cap b"] by auto
    have last: "last_block h (ptr as 0) = Some (Inr (ptr as (length as - 1)))"
      by (rule last_block_eq [OF r(2)]) (use ne in simp)
    let ?b = "b\<lparr>ba_nodes := ba_nodes b @ replicate ?n (new_node (ba_base b)), ba_cap := ba_cap b + ?n * ba_base b,
      ba_cur := (if ?old = 0 then length (ba_nodes b) else ba_cur b)\<rparr>"
    have cur: "ptr (as @ new) (ba_cur b) = ptr as (ba_cur b)" if "?old \<noteq> 0"
      using ba_inv_cur [OF assms(2)] that cap len by (simp add: getCapacity_def ptr_def nth_append)
    have ends: "ptr (as @ new) 0 = ptr as 0" "ptr (as @ new) (length (ba_nodes b)) = ptr new 0"
      using ne len a(2) pos by (auto simp: ptr_def nth_append)
    have "linked_addCapacity alloc sz sh = Some (Inr (view (as @ new) ?b, h'))"
      using False base a(1) last cur ends
      by (simp add: linked_addCapacity_def r(1) view_def getCapacity_def Let_def)
    moreover have "addCapacity sz b = Inr ?b"
      using False base by (auto simp: addCapacity_def grow_eq Let_def)
    moreover have "represents f (view (as @ new) ?b, h') ?b"
      using a r(3,4) by (auto intro!: representsI simp: finite_outside [of as h, symmetric])
    ultimately show ?thesis by (auto simp: agrees_def)
  qed
qed

lemma locate_ptr:
  assumes "linked h as (ba_nodes b)"
  shows "linked_locate (view as b) h p = locate b p"
  by (simp add: linked_locate_def locate_def view_def block_at_ptr [OF assms] rbind_assoc)

lemma write_represents:
  assumes "represents f sh b" and "ba_inv b" and "fresh_alloc alloc"
  shows "agrees (represents f) (linked_write alloc buf sh) (ba_write buf b)"
proof (cases "buf = []")
  case True
  then show ?thesis using assms(1) by (simp add: agrees_def linked_write_def ba_write_def)
next
  case False
  obtain b1 where b1: "addCapacity (length buf) b = Inr b1"
    using addCapacity_ok [OF assms(2), of "length buf"] by metis
  then obtain sh1 where sh1: "linked_addCapacity alloc (length buf) sh = Some (Inr sh1)" "represents f sh1 b1"
    using addCapacity_represents [OF assms, of "length buf"] by (auto simp: agrees_def)
  obtain as h where r: "sh1 = (view as b1, h)" "linked h as (ba_nodes b1)" "outside as h = f" "finite (dom h)"
    by (rule representsE [OF sh1(2)])
  have fin: "finite (dom f)" using r(3,4) finite_outside by blast
  have pos: "la_pos (view as b1) = ba_pos b1" by (simp add: view_def)
  show ?thesis
  proof (cases "locate b1 (ba_pos b1)")
    case (Inl e)
    then show ?thesis
      using False b1 sh1(1) r(1) by (simp add: agrees_def linked_write_def ba_write_def locate_ptr [OF r(2)] pos)
  next
    case (Inr np)
    obtain npos ncap where np: "np = (npos, ncap)" by fastforce
    note unfold = linked_write_def ba_write_def False b1 sh1(1) r(1) locate_ptr [OF r(2)] pos Inr np
    note loop = linked_write_loop_eq [OF r(2), of buf npos ncap]
    show ?thesis
    proof (cases "write_loop buf npos ncap b1")
      case (Inl e)
      then show ?thesis using loop by (simp add: agrees_def unfold)
    next
      case (Inr b2)
      then obtain h2 where h2: "linked_write_loop buf npos ncap (view as b1) h = Some (Inr (view as b2, h2))"
          "linked h2 as (ba_nodes b2)" "outside as h2 = outside as h"
        using loop by auto
      let ?b3 = "if ba_size b2 < ba_pos b2 then b2\<lparr>ba_size := ba_pos b2\<rparr> else b2"
      have "linked_write alloc buf sh = Some (Inr (view as ?b3, h2))"
        using h2(1) by (simp add: unfold) (simp add: view_def)
      moreover have "represents f (view as ?b3, h2) ?b3"
        by (rule representsI) (use h2(2,3) r(3) fin in auto)
      ultimately show ?thesis using Inr by (auto simp: agrees_def unfold)
    qed
  qed
qed

definition same_outputs ::
    "heap \<Rightarrow> 'a \<times> linked_array \<times> heap \<Rightarrow> 'a \<times> byte_array \<Rightarrow> bool" where
  "same_outputs f x y \<longleftrightarrow> fst x = fst y \<and> represents f (snd x) (snd y)"

lemma read_represents:
  assumes "represents f sh b"
  shows "agrees (same_outputs f) (linked_read n sh) (raw_read n b)"
proof -
  obtain as h where r: "sh = (view as b, h)" "linked h as (ba_nodes b)" "outside as h = f" "finite (dom h)"
    by (rule representsE [OF assms])
  have fin: "finite (dom f)" using r(3,4) finite_outside by blast
  have v: "la_pos (view as b) = ba_pos b" "la_cur (view as b) = ptr as (ba_cur b)"
      "la_size (view as b) = ba_size b"
    by (simp_all add: view_def)
  note unfold = linked_read_def raw_read_def getReadSize_def r(1) locate_ptr [OF r(2)] v linked_read_loop_eq [OF r(2)]
  have moved: "(view as b)\<lparr>la_pos := p, la_cur := ptr as c\<rparr> = view as (b\<lparr>ba_pos := p, ba_cur := c\<rparr>)" for p c
    by (simp add: view_def)
  have "represents f (view as (b\<lparr>ba_pos := p, ba_cur := c\<rparr>), h) (b\<lparr>ba_pos := p, ba_cur := c\<rparr>)" for p c
    by (rule representsI) (use r(2,3) fin in auto)
  then show ?thesis
    by (auto simp: agrees_def same_outputs_def unfold moved rbind_def split: sum.splits)
qed

lemma setPosition_represents:
  assumes "represents f sh b"
  shows "agrees (represents f) (linked_setPosition v sh) (setPosition v b)"
proof -
  obtain as h where r: "sh = (view as b, h)" "linked h as (ba_nodes b)" "outside as h = f" "finite (dom h)"
    by (rule representsE [OF assms])
  have fin: "finite (dom f)" using r(3,4) finite_outside by blast
  have v: "la_root (view as b) = ptr as 0" "la_cap (view as b) = ba_cap b" "la_size (view as b) = ba_size b"
    by (simp_all add: view_def)
  have moved: "(view as b)\<lparr>la_pos := p, la_size := n, la_cur := ptr as c\<rparr> =
      view as (b\<lparr>ba_pos := p, ba_size := n, ba_cur := c\<rparr>)" for p n c
    by (simp add: view_def)
  have "represents f (view as (b\<lparr>ba_pos := p, ba_size := n, ba_cur := c\<rparr>), h)
      (b\<lparr>ba_pos := p, ba_size := n, ba_cur := c\<rparr>)" for p n c
    by (rule representsI) (use r(2,3) fin in auto)
  then show ?thesis
    by (auto simp: agrees_def linked_setPosition_def setPosition_def r(1) v linked_setpos_loop_eq [OF r(2)] moved
        rbind_def split: sum.splits)
qed

section \<open>The life of a buffer\<close>

text \<open>A sequence of calls. One that throws has no effect; undefined behaviour ends the run.\<close>

datatype buffer_call = Call_write "byte list" | Call_read nat | Call_seek nat | Call_clear | Call_room nat

fun array_call :: "buffer_call \<Rightarrow> byte_array \<Rightarrow> (cell list \<times> byte_array) outcome" where
  "array_call (Call_write bs) b = rbind (ba_write bs b) (\<lambda>b. Inr ([], b))"
| "array_call (Call_read n) b = raw_read n b"
| "array_call (Call_seek v) b = rbind (setPosition v b) (\<lambda>b. Inr ([], b))"
| "array_call Call_clear b = Inr ([], clear b)"
| "array_call (Call_room n) b = rbind (addCapacity n b) (\<lambda>b. Inr ([], b))"

fun linked_call ::
    "(heap \<Rightarrow> nat) \<Rightarrow> buffer_call \<Rightarrow> linked_array \<times> heap \<Rightarrow> (cell list \<times> linked_array \<times> heap) outcome option" where
  "linked_call alloc (Call_write bs) sh = map_option (\<lambda>r. rbind r (\<lambda>sh. Inr ([], sh))) (linked_write alloc bs sh)"
| "linked_call alloc (Call_read n) sh = linked_read n sh"
| "linked_call alloc (Call_seek v) sh = map_option (\<lambda>r. rbind r (\<lambda>sh. Inr ([], sh))) (linked_setPosition v sh)"
| "linked_call alloc Call_clear sh = map_option (\<lambda>r. rbind r (\<lambda>sh. Inr ([], sh))) (linked_clear sh)"
| "linked_call alloc (Call_room n) sh =
     map_option (\<lambda>r. rbind r (\<lambda>sh. Inr ([], sh))) (linked_addCapacity alloc n sh)"

fun array_calls :: "buffer_call list \<Rightarrow> byte_array \<Rightarrow> (cell list list \<times> byte_array) outcome" where
  "array_calls [] b = Inr ([], b)"
| "array_calls (c # cs) b =
     (case array_call c b of
        Inr (out, b) \<Rightarrow> rbind (array_calls cs b) (\<lambda>(outs, b). Inr (out # outs, b))
      | Inl e \<Rightarrow> if is_exception e then rbind (array_calls cs b) (\<lambda>(outs, b). Inr ([] # outs, b)) else Inl e)"

fun linked_calls ::
    "(heap \<Rightarrow> nat) \<Rightarrow> buffer_call list \<Rightarrow> linked_array \<times> heap \<Rightarrow>
      (cell list list \<times> linked_array \<times> heap) outcome option" where
  "linked_calls alloc [] sh = Some (Inr ([], sh))"
| "linked_calls alloc (c # cs) sh =
     (case linked_call alloc c sh of
        None \<Rightarrow> None
      | Some (Inr (out, sh)) \<Rightarrow>
          map_option (\<lambda>r. rbind r (\<lambda>(outs, sh). Inr (out # outs, sh))) (linked_calls alloc cs sh)
      | Some (Inl e) \<Rightarrow>
          if is_exception e
          then map_option (\<lambda>r. rbind r (\<lambda>(outs, sh). Inr ([] # outs, sh))) (linked_calls alloc cs sh)
          else Some (Inl e))"

lemma agrees_map:
  assumes "agrees (represents f) r r'"
  shows "agrees (same_outputs f) (map_option (\<lambda>r. rbind r (\<lambda>sh. Inr (out, sh))) r) (rbind r' (\<lambda>b. Inr (out, b)))"
  using assms by (cases r') (auto simp: agrees_def same_outputs_def)

lemma call_agrees:
  assumes "represents f sh b" and "ba_inv b" and "fresh_alloc alloc"
  shows "agrees (same_outputs f) (linked_call alloc c sh) (array_call c b)"
proof (cases c)
  case (Call_read n)
  then show ?thesis using read_represents [OF assms(1), of n] by (simp add: Call_read)
next
  case Call_clear
  then show ?thesis using agrees_map [OF clear_represents [OF assms(1,2)], of "[]"] by simp
next
  case (Call_write bs)
  then show ?thesis using agrees_map [OF write_represents [OF assms], of "[]" bs] by simp
next
  case (Call_seek v)
  then show ?thesis using agrees_map [OF setPosition_represents [OF assms(1)], of "[]" v] by simp
next
  case (Call_room n)
  then show ?thesis using agrees_map [OF addCapacity_represents [OF assms], of "[]" n] by simp
qed

text \<open>Every call keeps the invariant, and the only undefined behaviour is reading nothing at the end.\<close>

lemma call_inv:
  assumes "ba_inv b"
  shows "case array_call c b of Inr (out, b') \<Rightarrow> ba_inv b' | Inl e \<Rightarrow> is_exception e \<or> e = Null_deref"
proof (cases c)
  case (Call_write bs)
  then show ?thesis using ba_write_refines [OF assms, of bs] by auto
next
  case (Call_read n)
  show ?thesis
  proof (cases "n \<le> getReadSize b")
    case True
    show ?thesis
    proof (cases "0 < n \<or> ba_pos b < ba_cap b")
      case True
      with \<open>n \<le> getReadSize b\<close> show ?thesis using raw_read_refines [OF assms, of n] by (auto simp: Call_read)
    next
      case False
      then have "ba_pos b = ba_cap b" using ba_inv_sizes [OF assms] by linarith
      then have "ba_cur b = length (ba_nodes b)" using assms ba_inv_base [OF assms] by (auto simp: ba_inv_def)
      then show ?thesis
        using True ba_inv_base [OF assms] by (simp add: Call_read raw_read_def locate_def node_at_def)
    qed
  qed (simp add: Call_read raw_read_short)
next
  case (Call_seek v)
  show ?thesis
  proof (cases "setPosition v b")
    case (Inl e)
    then have "ba_cap b < v" using setPosition_eq [OF assms] by (metis Inl_Inr_False not_le)
    then show ?thesis by (simp add: Call_seek setPosition_def)
  qed (use setPosition_inv [OF assms] Call_seek in auto)
next
  case Call_clear
  then show ?thesis using clear_ok [OF assms] by simp
next
  case (Call_room n)
  show ?thesis by (rule addCapacity_ok [OF assms, of n]) (simp add: Call_room)
qed

lemma agrees_output:
  assumes "agrees (same_outputs f) r r'"
  shows "agrees (same_outputs f) (map_option (\<lambda>r. rbind r (\<lambda>(outs, sh). Inr (out # outs, sh))) r)
    (rbind r' (\<lambda>(outs, b). Inr (out # outs, b)))"
  using assms by (cases r') (auto simp: agrees_def same_outputs_def)

lemma calls_agree:
  assumes "represents f sh b" and "ba_inv b" and "fresh_alloc alloc"
  shows "agrees (same_outputs f) (linked_calls alloc cs sh) (array_calls cs b) \<and>
    (\<forall>e. array_calls cs b = Inl e \<longrightarrow> e = Null_deref)"
  using assms(1,2)
proof (induction cs arbitrary: sh b)
  case Nil
  then show ?case by (simp add: agrees_def same_outputs_def)
next
  case (Cons c cs)
  note one = call_agrees [OF Cons.prems assms(3), of c] call_inv [OF Cons.prems(2), of c]
  show ?case
  proof (cases "array_call c b")
    case (Inl e)
    then have "linked_call alloc c sh = Some (Inl e)" using one(1) by (simp add: agrees_def)
    moreover have "is_exception e \<or> e = Null_deref" using one(2) Inl by simp
    ultimately show ?thesis
      using Inl Cons.IH [OF Cons.prems] agrees_output [OF Cons.IH [OF Cons.prems, THEN conjunct1], of "[]"]
      by (cases "is_exception e") (simp_all add: rbind_eq_Inl_iff agrees_def [of _ _ "Inl _"])
  next
    case (Inr r)
    then obtain out b1 sh1 where b1: "r = (out, b1)" "linked_call alloc c sh = Some (Inr (out, sh1))"
        "represents f sh1 b1" "ba_inv b1"
      using one by (cases r) (auto simp: agrees_def same_outputs_def)
    then show ?thesis
      using Inr Cons.IH [OF b1(3,4)] agrees_output [OF Cons.IH [OF b1(3,4), THEN conjunct1], of out]
      by (simp add: rbind_eq_Inl_iff)
  qed
qed

section \<open>Properties\<close>

text \<open>
  C8: the memory of a buffer. Whatever addresses \<open>new\<close> gives, and whatever is written, read, sought, cleared and
  reserved, in any order, the pointer program returns and gives the results of the chain of indices; it frees
  no block twice, follows no pointer into a freed one, and when the buffer is destroyed the memory is exactly
  what it was before: no block is leaked, and nothing else was changed. The one exception is the null pointer
  that reading nothing at the end of a full chain follows.
\<close>

theorem buffer_memory_safe:
  assumes "fresh_alloc alloc" and "finite (dom h0)" and "0 < base"
  shows "case array_calls cs (new_byte_array base) of
      Inl e \<Rightarrow> e = Null_deref \<and> linked_calls alloc cs (linked_new alloc base h0) = Some (Inl Null_deref)
    | Inr (outs, b) \<Rightarrow> \<exists>s h. linked_calls alloc cs (linked_new alloc base h0) = Some (Inr (outs, s, h)) \<and>
        la_pos s = ba_pos b \<and> la_size s = ba_size b \<and> la_cap s = ba_cap b \<and>
        card (dom h - dom h0) = length (ba_nodes b) \<and> linked_destroy s h = Some (Inr h0)"
proof -
  have new: "represents h0 (linked_new alloc base h0) (new_byte_array base)" "ba_inv (new_byte_array base)"
    using new_represents [OF assms(1,2)] new_byte_array_ok [OF assms(3)] by simp_all
  note all = calls_agree [OF new assms(1), of cs]
  show ?thesis
  proof (cases "array_calls cs (new_byte_array base)")
    case (Inl e)
    then show ?thesis using all by (simp add: agrees_def)
  next
    case (Inr r)
    then obtain outs b s h where r: "r = (outs, b)" "represents h0 (s, h) b"
        "linked_calls alloc cs (linked_new alloc base h0) = Some (Inr (outs, s, h))"
      using all by (cases r) (auto simp: agrees_def same_outputs_def)
    obtain as where as: "s = view as b" "linked h as (ba_nodes b)" "outside as h = h0"
      using r(2) by (auto simp: represents_def)
    have "set as \<subseteq> dom h" using as(2) by (auto simp: linked_def in_set_conv_nth)
    then have "dom h - dom h0 = set as"
      unfolding as(3) [symmetric] by (auto simp: outside_def restrict_map_def split: if_splits)
    then have "card (dom h - dom h0) = length (ba_nodes b)"
      using as(2) by (simp add: linked_def distinct_card)
    then show ?thesis
      using Inr r destroy_represents [OF r(2)] by (auto simp: as(1) view_def)
  qed
qed

text \<open>An allocator that takes the next address above those in use.\<close>

definition bump :: "heap \<Rightarrow> nat" where
  "bump h = (if finite (dom h) then Suc (Max (insert 0 (dom h))) else 0)"

lemma bump_fresh: "fresh_alloc bump"
proof -
  have "h (bump h) = None" if "finite (dom h)" for h
  proof (rule ccontr)
    assume "h (bump h) \<noteq> None"
    then have "bump h \<in> insert 0 (dom h)" by auto
    then have "bump h \<le> Max (insert 0 (dom h))" using that by (intro Max_ge) auto
    then show False using that by (simp add: bump_def)
  qed
  then show ?thesis by (simp add: fresh_alloc_def)
qed

theorem buffer_memory_safe_witness:
  "\<exists>s h. linked_calls bump [Call_write [1, 2, 3], Call_seek 9, Call_clear] (linked_new bump 2 Map.empty) =
      Some (Inr ([[], [], []], s, h)) \<and> card (dom h) = 1 \<and> linked_destroy s h = Some (Inr Map.empty)"
proof -
  have "case array_calls [Call_write [1, 2, 3], Call_seek 9, Call_clear] (new_byte_array 2) of
      Inr (outs, b) \<Rightarrow> outs = [[], [], []] \<and> length (ba_nodes b) = 1 | _ \<Rightarrow> False"
    by code_simp
  then show ?thesis
    using buffer_memory_safe [OF bump_fresh, of Map.empty 2 "[Call_write [1, 2, 3], Call_seek 9, Call_clear]"]
    by (auto split: sum.splits)
qed

end
