(* ===== verification/TaskQueue.thy ===== *)
theory TaskQueue
  imports Prelude "HOL-Library.Multiset"
begin

text \<open>
  \<open>ThreadSafeQueue\<close> and \<open>ThreadPool\<close> (\<open>include/base/ThreadSafeQueue.hpp\<close>, \<open>include/base/ThreadPool.hpp\<close>):
  the queue's operations, each of which runs under its mutex and so is one step, and the pool as a
  transition system of its workers, the submitting threads and the destructor.
\<close>

section \<open>The queue\<close>

record 't tsqueue =
  q_data :: "'t list"
  q_stop :: bool

definition new_queue :: "'t tsqueue" where
  "new_queue = \<lparr>q_data = [], q_stop = False\<rparr>"

text \<open>The copy constructor takes over the data only.\<close>

definition copy_queue :: "'t tsqueue \<Rightarrow> 't tsqueue" where
  "copy_queue others = new_queue\<lparr>q_data := q_data others\<rparr>"

definition push :: "'t \<Rightarrow> 't tsqueue \<Rightarrow> 't tsqueue" where
  "push x q = q\<lparr>q_data := q_data q @ [x]\<rparr>"

text \<open>\<open>None\<close> while the condition variable waits; the inner \<open>None\<close> is the return value \<open>false\<close>.\<close>

definition waitAndPop :: "'t tsqueue \<Rightarrow> ('t option \<times> 't tsqueue) option" where
  "waitAndPop q =
     (if \<not> (q_data q \<noteq> [] \<or> q_stop q) then None
      else case q_data q of
             [] \<Rightarrow> Some (None, q)
           | x # xs \<Rightarrow> Some (Some x, q\<lparr>q_data := xs\<rparr>))"

definition queue_empty :: "'t tsqueue \<Rightarrow> bool" where
  "queue_empty q \<longleftrightarrow> q_data q = []"

definition stop_queue :: "'t tsqueue \<Rightarrow> 't tsqueue" where
  "stop_queue q = q\<lparr>q_stop := True\<rparr>"

section \<open>What the pool relies on\<close>

text \<open>
  A queue that can be stopped: first in, first out, and refusing to wait once stopped. \<open>taken\<close> and
  \<open>given\<close> are the histories of what was popped and pushed.
\<close>

locale stoppable_queue =
  fixes items :: "'q \<Rightarrow> 't list"
    and stopped :: "'q \<Rightarrow> bool"
    and put :: "'t \<Rightarrow> 'q \<Rightarrow> 'q"
    and get :: "'q \<Rightarrow> ('t option \<times> 'q) option"
    and halt :: "'q \<Rightarrow> 'q"
  assumes put_items: "items (put x q) = items q @ [x]" "stopped (put x q) = stopped q"
    and halt_items: "items (halt q) = items q" "stopped (halt q)"
    and get_item: "get q = Some (Some x, q') \<Longrightarrow> items q = x # items q' \<and> stopped q' = stopped q"
    and get_none: "get q = Some (None, q') \<Longrightarrow> items q = [] \<and> stopped q \<and> q' = q"
    and get_waits: "get q = None \<longleftrightarrow> items q = [] \<and> \<not> stopped q"
begin

definition ledger :: "'t list \<Rightarrow> 't list \<Rightarrow> 'q \<Rightarrow> bool" where
  "ledger given taken q \<longleftrightarrow> taken @ items q = given"

lemma ledger_put: "ledger given taken q \<Longrightarrow> ledger (given @ [x]) taken (put x q)"
  by (auto simp: ledger_def put_items)

lemma ledger_halt: "ledger given taken q \<Longrightarrow> ledger given taken (halt q)"
  by (simp add: ledger_def halt_items)

lemma ledger_get: "ledger given taken q \<Longrightarrow> get q = Some (Some x, q') \<Longrightarrow> ledger given (taken @ [x]) q'"
  by (auto simp: ledger_def dest: get_item)

lemma ledger_done: "ledger given taken q \<Longrightarrow> get q = Some (None, q') \<Longrightarrow> taken = given"
  by (auto simp: ledger_def dest: get_none)

lemma get_proceeds:
  assumes "stopped q"
  obtains (item) x q' where "get q = Some (Some x, q')" | (finished) "get q = Some (None, q)"
proof -
  have "get q \<noteq> None" using get_waits assms by simp
  then obtain r q' where "get q = Some (r, q')" by auto
  then show thesis using item finished get_none by (cases r) auto
qed

end

interpretation tsq: stoppable_queue q_data q_stop push waitAndPop stop_queue
  by unfold_locales
     (auto simp: push_def stop_queue_def waitAndPop_def split: list.splits if_splits)

section \<open>The pool\<close>

datatype 't worker = Idle | Running 't | Exited

record 't pool =
  p_tasks :: "'t tsqueue"
  p_workers :: "'t worker list"

definition new_pool :: "nat \<Rightarrow> 't pool" where
  "new_pool n = \<lparr>p_tasks = new_queue, p_workers = replicate n Idle\<rparr>"

text \<open>
  \<open>Submit\<close> is \<open>submit\<close>; \<open>Take i t\<close> a worker's return from \<open>waitAndPop\<close> with a task, \<open>Finish i t\<close> the end
  of its call, \<open>Quit i\<close> its return after \<open>waitAndPop\<close> gave \<open>false\<close>; \<open>Stop\<close> is the first statement of the
  destructor, after which it joins the workers.
\<close>

datatype 't event = Submit 't | Take nat 't | Finish nat 't | Quit nat | Stop

inductive pool_step :: "'t pool \<Rightarrow> 't event \<Rightarrow> 't pool \<Rightarrow> bool" where
  submit: "pool_step p (Submit t) (p\<lparr>p_tasks := push t (p_tasks p)\<rparr>)"
| take: "i < length (p_workers p) \<Longrightarrow> p_workers p ! i = Idle \<Longrightarrow>
    waitAndPop (p_tasks p) = Some (Some t, q) \<Longrightarrow>
    pool_step p (Take i t) (p\<lparr>p_tasks := q, p_workers := (p_workers p)[i := Running t]\<rparr>)"
| finish: "i < length (p_workers p) \<Longrightarrow> p_workers p ! i = Running t \<Longrightarrow>
    pool_step p (Finish i t) (p\<lparr>p_workers := (p_workers p)[i := Idle]\<rparr>)"
| quit: "i < length (p_workers p) \<Longrightarrow> p_workers p ! i = Idle \<Longrightarrow>
    waitAndPop (p_tasks p) = Some (None, q) \<Longrightarrow>
    pool_step p (Quit i) (p\<lparr>p_tasks := q, p_workers := (p_workers p)[i := Exited]\<rparr>)"
| stop: "pool_step p Stop (p\<lparr>p_tasks := stop_queue (p_tasks p)\<rparr>)"

inductive_cases pool_stepE:
  "pool_step p (Submit t) p'" "pool_step p (Take i t) p'" "pool_step p (Finish i t) p'"
  "pool_step p (Quit i) p'" "pool_step p Stop p'"

text \<open>A run is the list of its events.\<close>

inductive pool_run :: "'t pool \<Rightarrow> 't event list \<Rightarrow> 't pool \<Rightarrow> bool" where
  refl: "pool_run p [] p"
| step: "pool_run p es q \<Longrightarrow> pool_step q e r \<Longrightarrow> pool_run p (es @ [e]) r"

fun submitted :: "'t event list \<Rightarrow> 't list" where
  "submitted [] = []"
| "submitted (Submit t # es) = t # submitted es"
| "submitted (_ # es) = submitted es"

fun started :: "'t event list \<Rightarrow> 't list" where
  "started [] = []"
| "started (Take i t # es) = t # started es"
| "started (_ # es) = started es"

fun finished :: "'t event list \<Rightarrow> 't list" where
  "finished [] = []"
| "finished (Finish i t # es) = t # finished es"
| "finished (_ # es) = finished es"

lemma submitted_append [simp]: "submitted (es @ fs) = submitted es @ submitted fs"
  by (induction es rule: submitted.induct) simp_all

lemma started_append [simp]: "started (es @ fs) = started es @ started fs"
  by (induction es rule: started.induct) simp_all

lemma finished_append [simp]: "finished (es @ fs) = finished es @ finished fs"
  by (induction es rule: finished.induct) simp_all

section \<open>Invariants of the pool\<close>

fun running_of :: "'t worker \<Rightarrow> 't multiset" where
  "running_of (Running t) = {#t#}"
| "running_of _ = {#}"

definition running :: "'t worker list \<Rightarrow> 't multiset" where
  "running ws = sum_list (map running_of ws)"

lemma running_update:
  "i < length ws \<Longrightarrow> running (ws[i := w]) + running_of (ws ! i) = running ws + running_of w"
  unfolding running_def
proof (induction ws arbitrary: i)
  case (Cons v ws)
  then show ?case by (cases i) (simp_all add: add.assoc add.left_commute add.commute)
qed simp

lemma running_replicate: "running_of w = {#} \<Longrightarrow> running (replicate n w) = {#}"
  by (induction n) (simp_all add: running_def)

text \<open>Every task submitted waits, in order of submission, or was started once; those are running or done.\<close>

definition pool_inv :: "'t event list \<Rightarrow> 't pool \<Rightarrow> bool" where
  "pool_inv es p \<longleftrightarrow>
     tsq.ledger (submitted es) (started es) (p_tasks p) \<and>
     mset (started es) = mset (finished es) + running (p_workers p)"

lemma pool_inv_step:
  assumes "pool_inv es p" and "pool_step p e p'"
  shows "pool_inv (es @ [e]) p'"
  using assms(2,1)
proof cases
  case (submit t)
  then show ?thesis using assms(1) tsq.ledger_put by (auto simp: pool_inv_def)
next
  case (take i t q)
  then show ?thesis
    using assms(1) tsq.ledger_get [of _ _ "p_tasks p" t q] running_update [of i "p_workers p" "Running t"]
    by (auto simp: pool_inv_def)
next
  case (finish i t)
  then show ?thesis
    using assms(1) running_update [of i "p_workers p" Idle] by (auto simp: pool_inv_def)
next
  case (quit i q)
  then have "q = p_tasks p" using tsq.get_none by blast
  then show ?thesis
    using assms(1) quit running_update [of i "p_workers p" Exited] by (auto simp: pool_inv_def)
next
  case stop
  then show ?thesis using assms(1) tsq.ledger_halt by (auto simp: pool_inv_def)
qed

lemma pool_inv_run: "pool_run p es q \<Longrightarrow> pool_inv [] p \<Longrightarrow> pool_inv es q"
  by (induction rule: pool_run.induct) (auto intro: pool_inv_step)

lemma pool_inv_new: "pool_inv [] (new_pool n)"
  by (simp add: pool_inv_def new_pool_def new_queue_def tsq.ledger_def running_replicate)

text \<open>A worker leaves only when the pool was stopped and nothing was left to do.\<close>

definition orderly :: "'t event list \<Rightarrow> bool" where
  "orderly es \<longleftrightarrow> (\<forall>as bs. es = as @ Stop # bs \<longrightarrow> submitted bs = [])"

lemma orderly_prefix: "orderly (es @ [e]) \<Longrightarrow> orderly es"
  unfolding orderly_def
proof (intro allI impI)
  fix as bs assume o: "\<forall>as bs. es @ [e] = as @ Stop # bs \<longrightarrow> submitted bs = []" and "es = as @ Stop # bs"
  then have "es @ [e] = as @ Stop # (bs @ [e])" by simp
  then have "submitted (bs @ [e]) = []" using o by blast
  then show "submitted bs = []" by simp
qed

lemma orderly_submit:
  assumes "orderly (es @ [Submit t])"
  shows "Stop \<notin> set es"
proof
  assume "Stop \<in> set es"
  then obtain as bs where "es @ [Submit t] = as @ Stop # (bs @ [Submit t])" by (auto dest: split_list)
  then have "submitted (bs @ [Submit t]) = []" using assms unfolding orderly_def by blast
  then show False by simp
qed

lemma stopped_run: "pool_run (new_pool n) es p \<Longrightarrow> q_stop (p_tasks p) \<longleftrightarrow> Stop \<in> set es"
proof (induction "new_pool n :: 'a pool" es p rule: pool_run.induct)
  case (step es q e r)
  from step.hyps(3) step.hyps(2) show ?case
    by cases (auto simp: push_def stop_queue_def waitAndPop_def split: if_splits list.splits)
qed (simp add: new_pool_def new_queue_def)

lemma exited_run:
  assumes "pool_run (new_pool n) es p" and "orderly es" and "Exited \<in> set (p_workers p)"
  shows "q_data (p_tasks p) = [] \<and> q_stop (p_tasks p)"
  using assms
proof (induction "new_pool n :: 'a pool" es p rule: pool_run.induct)
  case refl
  then show ?case by (simp add: new_pool_def)
next
  case (step es q e r)
  note before = step.hyps(2) [OF orderly_prefix [OF step.prems(1)]] and here = step.prems(2)
  have stopped: "q_stop (p_tasks q) \<longleftrightarrow> Stop \<in> set es" by (rule stopped_run [OF step.hyps(1)])
  from step.hyps(3) show ?case
  proof cases
    case (submit t)
    then have "orderly (es @ [Submit t])" using step.prems(1) by simp
    then have "Stop \<notin> set es" by (rule orderly_submit)
    then show ?thesis using submit before here stopped by auto
  next
    case (take i t q')
    then have "Exited \<in> set (p_workers q)"
      using here by (auto dest!: set_update_subset_insert [THEN subsetD])
    then show ?thesis using before take tsq.get_item [of "p_tasks q" t q'] by auto
  next
    case (finish i t)
    then show ?thesis using before here by (auto dest!: set_update_subset_insert [THEN subsetD])
  next
    case (quit i q')
    then show ?thesis using tsq.get_none [of "p_tasks q" q'] by auto
  next
    case stop
    then show ?thesis using before here by (simp add: stop_queue_def)
  qed
qed

lemma pool_run_workers: "pool_run p es q \<Longrightarrow> length (p_workers q) = length (p_workers p)"
  by (induction rule: pool_run.induct) (auto elim: pool_step.cases)

section \<open>The destructor's joins\<close>

definition all_exited :: "'t pool \<Rightarrow> bool" where
  "all_exited p \<longleftrightarrow> (\<forall>w \<in> set (p_workers p). w = Exited)"

fun internal :: "'t event \<Rightarrow> bool" where
  "internal (Take i t) = True"
| "internal (Finish i t) = True"
| "internal (Quit i) = True"
| "internal _ = False"

fun worker_work :: "'t worker \<Rightarrow> nat" where
  "worker_work Idle = 1"
| "worker_work (Running t) = 2"
| "worker_work Exited = 0"

definition pool_work :: "'t pool \<Rightarrow> nat" where
  "pool_work p = 2 * length (q_data (p_tasks p)) + sum_list (map worker_work (p_workers p))"

lemma work_update:
  "i < length ws \<Longrightarrow> sum_list (map worker_work (ws[i := w])) + worker_work (ws ! i) =
    sum_list (map worker_work ws) + worker_work w"
proof (induction ws arbitrary: i)
  case (Cons v ws)
  then show ?case by (cases i) simp_all
qed simp

lemma internal_decreases:
  assumes "internal e" and "pool_step p e p'"
  shows "pool_work p' < pool_work p"
  using assms(2,1)
proof cases
  case (take i t q)
  then show ?thesis
    using work_update [of i "p_workers p" "Running t"] tsq.get_item [of "p_tasks p" t q]
    by (simp add: pool_work_def)
next
  case (finish i t)
  then show ?thesis using work_update [of i "p_workers p" Idle] by (simp add: pool_work_def)
next
  case (quit i q)
  then show ?thesis
    using work_update [of i "p_workers p" Exited] tsq.get_none [of "p_tasks p" q]
    by (simp add: pool_work_def)
qed simp_all

lemma stopped_progress:
  assumes "q_stop (p_tasks p)" and "\<not> all_exited p"
  obtains e p' where "internal e" "pool_step p e p'"
proof -
  obtain i where i: "i < length (p_workers p)" "p_workers p ! i \<noteq> Exited"
    using assms(2) by (auto simp: all_exited_def in_set_conv_nth)
  show thesis
  proof (cases "p_workers p ! i")
    case Idle
    from tsq.get_proceeds [OF assms(1)] show thesis
    proof cases
      case (1 x q')
      show thesis by (rule that [OF _ take [OF i(1) Idle 1]]) simp
    next
      case 2
      show thesis by (rule that [OF _ quit [OF i(1) Idle 2]]) simp
    qed
  next
    case (Running t)
    show thesis by (rule that [OF _ finish [OF i(1) Running]]) simp
  qed (use i in simp)
qed

section \<open>Properties\<close>

text \<open>
  C23: nothing is lost, duplicated or reordered. In every reachable state of a pool the tasks started
  so far, in the order the workers took them, followed by those still queued, are the tasks
  submitted, in their order; and each task started is running in exactly one worker or done.
\<close>

theorem pool_runs_each_task_once:
  assumes "pool_run (new_pool n) es p"
  shows "started es @ q_data (p_tasks p) = submitted es \<and>
    mset (started es) = mset (finished es) + running (p_workers p)"
  using pool_inv_run [OF assms pool_inv_new] by (simp add: pool_inv_def tsq.ledger_def)

definition one_task :: "nat event list" where
  "one_task = [Submit 7, Stop, Take 0 7, Finish 0 7, Quit 0]"

lemma one_task_run:
  "pool_run (new_pool 1) one_task \<lparr>p_tasks = \<lparr>q_data = [], q_stop = True\<rparr>, p_workers = [Exited]\<rparr>"
proof -
  let ?p = "\<lambda>d s w. \<lparr>p_tasks = \<lparr>q_data = d, q_stop = s\<rparr>, p_workers = [w]\<rparr> :: nat pool"
  have 1: "pool_step (?p [] False Idle) (Submit 7) (?p [7] False Idle)"
    using pool_step.submit [of "?p [] False Idle" 7] by (simp add: push_def)
  have 2: "pool_step (?p [7] False Idle) Stop (?p [7] True Idle)"
    using pool_step.stop [of "?p [7] False Idle"] by (simp add: stop_queue_def)
  have 3: "pool_step (?p [7] True Idle) (Take 0 7) (?p [] True (Running 7))"
    using pool_step.take [of 0 "?p [7] True Idle" 7] by (simp add: waitAndPop_def)
  have 4: "pool_step (?p [] True (Running 7)) (Finish 0 7) (?p [] True Idle)"
    using pool_step.finish [of 0 "?p [] True (Running 7)" 7] by simp
  have 5: "pool_step (?p [] True Idle) (Quit 0) (?p [] True Exited)"
    using pool_step.quit [of 0 "?p [] True Idle"] by (simp add: waitAndPop_def)
  have "new_pool 1 = ?p [] False Idle" by (simp add: new_pool_def new_queue_def)
  then show ?thesis
    using pool_run.step [OF pool_run.step [OF pool_run.step [OF pool_run.step [OF pool_run.step
      [OF pool_run.refl 1] 2] 3] 4] 5]
    by (simp add: one_task_def)
qed

theorem pool_runs_each_task_once_witness:
  "started one_task @ [] = submitted one_task"
  using pool_runs_each_task_once [OF one_task_run] by simp

text \<open>
  C24: the destructor waits for the work. If nothing is submitted once the pool is being destroyed, then
  when all its workers (at least one) have been joined, every task submitted is done.
\<close>

theorem pool_destructor_drains:
  assumes "pool_run (new_pool n) es p" and "0 < n" and "orderly es" and "all_exited p"
  shows "started es = submitted es \<and> mset (finished es) = mset (submitted es)"
proof -
  have len: "length (p_workers p) = n" using pool_run_workers [OF assms(1)] by (simp add: new_pool_def)
  then have "p_workers p \<noteq> []" using assms(2) by auto
  then have "Exited \<in> set (p_workers p)"
    using assms(4) unfolding all_exited_def by (cases "p_workers p") auto
  then have "q_data (p_tasks p) = []" using exited_run [OF assms(1,3)] by blast
  moreover have "p_workers p = replicate n Exited"
    using assms(4) len by (intro replicate_eqI) (auto simp: all_exited_def)
  then have "running (p_workers p) = {#}" by (simp add: running_replicate)
  ultimately show ?thesis
    using pool_inv_run [OF assms(1) pool_inv_new] by (simp add: pool_inv_def tsq.ledger_def) metis
qed

theorem pool_destructor_drains_witness: "mset (finished one_task) = mset (submitted one_task)"
proof -
  have "orderly one_task"
    by (auto simp: orderly_def one_task_def Cons_eq_append_conv)
  then show ?thesis using pool_destructor_drains [OF one_task_run] by (simp add: all_exited_def)
qed



end
