(* ===== verification/ResponsePool.thy ===== *)
theory ResponsePool
  imports ResponseTheorems TaskQueue
begin

text \<open>
  The tasks that send responses (\<open>RPCServer::publish_client_msg\<close>, \<open>src/rpc/RPCServer.cpp\<close>) in the pool that
  runs them (\<open>include/base/ThreadPool.hpp\<close>). There are as many workers as the pool was made with, and a task
  that waits for the write lock of its connection keeps its worker, so that the tasks of one busy
  connection may occupy them all.
\<close>

section \<open>Model\<close>

text \<open>
  \<open>Respond i j\<close> is the task that sends response \<open>j\<close> of connection \<open>i\<close>; \<open>Other\<close> is any other task, such as one
  that receives, which ends by itself.
\<close>

datatype job = Respond nat nat | Other

record 'k response_pool =
  rp_pool :: "job pool"
  rp_conns :: "'k conn_writers list"

definition new_response_pool :: "nat \<Rightarrow> 'k response_pool" where
  "new_response_pool n = \<lparr>rp_pool = new_pool n, rp_conns = []\<rparr>"

text \<open>A task that runs: it takes the lock, or goes on writing.\<close>

inductive run_task :: "'k kernel \<Rightarrow> nat \<Rightarrow> 'k conn_writers \<Rightarrow> 'k conn_writers \<Rightarrow> bool" for K j where
  locks: "phase_of s j = Waiting \<Longrightarrow> task_lock j s = Inr (Some s') \<Longrightarrow> run_task K j s s'"
| writes: "phase_of s j = Writing len left b \<Longrightarrow> task_write K j s = Inr s' \<Longrightarrow> run_task K j s s'"

inductive_cases run_taskE: "run_task K j s s'"

fun job_over :: "'k conn_writers list \<Rightarrow> job \<Rightarrow> bool" where
  "job_over ws Other \<longleftrightarrow> True"
| "job_over ws (Respond i j) \<longleftrightarrow> (\<exists>n. phase_of (ws ! i) j = Finished n)"

text \<open>What the workers do: take a task, carry it on, return from it.\<close>

inductive worker_step :: "'k kernel \<Rightarrow> 'k response_pool \<Rightarrow> 'k response_pool \<Rightarrow> bool" for K where
  taken: "pool_step (rp_pool s) (Take w t) p \<Longrightarrow> worker_step K s (s\<lparr>rp_pool := p\<rparr>)"
| carried: "Running (Respond i j) \<in> set (p_workers (rp_pool s)) \<Longrightarrow> i < length (rp_conns s) \<Longrightarrow>
    run_task K j (rp_conns s ! i) c \<Longrightarrow> worker_step K s (s\<lparr>rp_conns := (rp_conns s)[i := c]\<rparr>)"
| ended: "pool_step (rp_pool s) (Finish w t) p \<Longrightarrow> job_over (rp_conns s) t \<Longrightarrow>
    worker_step K s (s\<lparr>rp_pool := p\<rparr>)"

text \<open>
  What else happens: connections are accepted, responses and other tasks are submitted, and connections
  receive, break and are cleaned up.
\<close>

inductive server_event :: "'k kernel \<Rightarrow> 'k \<Rightarrow> 'k response_pool \<Rightarrow> 'k response_pool \<Rightarrow> bool" for K k0 where
  accepted: "server_event K k0 s (s\<lparr>rp_conns := rp_conns s @ [new_writers (new_client k0)]\<rparr>)"
| responded: "i < length (rp_conns s) \<Longrightarrow> c_connected (cw_client (rp_conns s ! i)) \<Longrightarrow>
    pool_step (rp_pool s) (Submit (Respond i (length (cw_tasks (rp_conns s ! i))))) p \<Longrightarrow>
    server_event K k0 s (s\<lparr>rp_pool := p, rp_conns := (rp_conns s)[i := submit_response r (rp_conns s ! i)]\<rparr>)"
| other_job: "pool_step (rp_pool s) (Submit Other) p \<Longrightarrow> server_event K k0 s (s\<lparr>rp_pool := p\<rparr>)"
| disturbed: "i < length (rp_conns s) \<Longrightarrow> conn_step K (rp_conns s ! i) c \<Longrightarrow>
    cw_tasks c = cw_tasks (rp_conns s ! i) \<Longrightarrow> server_event K k0 s (s\<lparr>rp_conns := (rp_conns s)[i := c]\<rparr>)"
| worked: "worker_step K s s' \<Longrightarrow> server_event K k0 s s'"

section \<open>A running task\<close>

lemma run_task_step: "run_task K j s s' \<Longrightarrow> j < length (cw_tasks s) \<Longrightarrow> task_step K s s'"
  by (auto elim!: run_taskE intro: lock write_some)

lemma run_task_effect:
  assumes "run_task K j s s'" and "j < length (cw_tasks s)"
  shows "length (cw_tasks s') = length (cw_tasks s)" "cw_mtx s' = cw_mtx s"
    "i \<noteq> j \<Longrightarrow> phase_of s' i = phase_of s i"
  using assms
  by (auto elim!: run_taskE task_lock_effect simp: task_write_def rbind_def split: if_splits sum.splits)

text \<open>A task that has the lock can go on, and one that wants it can if it is free.\<close>

lemma run_task_possible:
  assumes "append_send K sent" and "wire_inv sent start s order xs" and "j < length (cw_tasks s)"
    and "phase_of s j = Writing len left b \<or> phase_of s j = Waiting \<and> cw_holder s = None \<and> cw_mtx s"
  shows "\<exists>s'. run_task K j s s'"
  using assms(4)
proof
  assume w: "phase_of s j = Writing len left b"
  note now = wire_inv_writing [OF assms(2,3) w]
  have "left \<le> length (ba_rest b)" using now(3,5) by simp
  then obtain n b' c' where "session_write_ba K left b (cw_client s) = Inr (n, b', c')"
    by (rule session_write_ba_effect [OF assms(1) now(4), of left "cw_client s"]) blast
  then have "\<exists>u. task_write K j s = Inr u" using w by (simp add: task_write_def)
  then show ?thesis using writes [OF w] by blast
next
  assume w: "phase_of s j = Waiting \<and> cw_holder s = None \<and> cw_mtx s"
  obtain b where "encode (wt_resp (cw_tasks s ! j)) = Inr b"
    by (rule encode_ok [of False "wt_resp (cw_tasks s ! j)"]) auto
  then have "\<exists>u. task_lock j s = Inr (Some u)" using w by (simp add: task_lock_def)
  then show ?thesis using locks w by blast
qed

section \<open>The invariant\<close>

definition jobs :: "job pool \<Rightarrow> job multiset" where
  "jobs p = mset (q_data (p_tasks p)) + running (p_workers p)"

lemma running_member: "t \<in># running ws \<longleftrightarrow> Running t \<in> set ws"
proof (induction ws)
  case (Cons w ws)
  then show ?case by (cases w) (auto simp: running_def)
qed (simp add: running_def)

lemma jobs_step:
  assumes "pool_step p e p'"
  shows "(\<forall>t. e = Submit t \<longrightarrow> jobs p' = add_mset t (jobs p)) \<and> (\<forall>i t. e = Take i t \<longrightarrow> jobs p' = jobs p) \<and>
    (\<forall>i t. e = Finish i t \<longrightarrow> jobs p = add_mset t (jobs p'))"
  using assms
proof cases
  case (take i t q)
  then show ?thesis
    using running_update [of i "p_workers p" "Running t"] tsq.get_item [of "p_tasks p" t q] by (auto simp: jobs_def)
next
  case (finish i t)
  then show ?thesis using running_update [of i "p_workers p" Idle] by (auto simp: jobs_def)
qed (auto simp: jobs_def push_def)

text \<open>
  Each response is sent by one task, which is queued, running or over; a queued one has not begun. No
  worker has left the pool.
\<close>

definition assigned :: "'k response_pool \<Rightarrow> bool" where
  "assigned s \<longleftrightarrow>
     (\<forall>i j. count (jobs (rp_pool s)) (Respond i j) \<le> 1) \<and>
     (\<forall>i j. Respond i j \<in># jobs (rp_pool s) \<longrightarrow> i < length (rp_conns s) \<and> j < length (cw_tasks (rp_conns s ! i))) \<and>
     (\<forall>i j. Respond i j \<in> set (q_data (p_tasks (rp_pool s))) \<longrightarrow> phase_of (rp_conns s ! i) j = Waiting) \<and>
     (\<forall>i < length (rp_conns s). \<forall>j < length (cw_tasks (rp_conns s ! i)).
        Respond i j \<in># jobs (rp_pool s) \<or> job_over (rp_conns s) (Respond i j))"

definition staffed :: "nat \<Rightarrow> job pool \<Rightarrow> bool" where
  "staffed n p \<longleftrightarrow> length (p_workers p) = n \<and> Exited \<notin> set (p_workers p) \<and> \<not> q_stop (p_tasks p)"

definition sound_conns :: "'k kernel \<Rightarrow> 'k \<Rightarrow> 'k response_pool \<Rightarrow> bool" where
  "sound_conns K k0 s \<longleftrightarrow>
     (\<forall>c \<in> set (rp_conns s). (writer_step K)\<^sup>*\<^sup>* (new_writers (new_client k0)) c)"

lemma assigned_taken:
  assumes "assigned s" and "pool_step (rp_pool s) (Take w t) p"
  shows "assigned (s\<lparr>rp_pool := p\<rparr>)"
proof -
  have j: "jobs p = jobs (rp_pool s)" using jobs_step [OF assms(2)] by simp
  have "set (q_data (p_tasks p)) \<subseteq> set (q_data (p_tasks (rp_pool s)))"
    using assms(2) by (auto elim!: pool_stepE dest: tsq.get_item)
  then show ?thesis using assms(1) unfolding assigned_def by (simp add: j) blast
qed

lemma assigned_ended:
  assumes "assigned s" and "pool_step (rp_pool s) (Finish w t) p" and "job_over (rp_conns s) t"
  shows "assigned (s\<lparr>rp_pool := p\<rparr>)"
proof -
  have j: "jobs (rp_pool s) = add_mset t (jobs p)" using jobs_step [OF assms(2)] by simp
  have q: "q_data (p_tasks p) = q_data (p_tasks (rp_pool s))" using assms(2) by (auto elim!: pool_stepE)
  have "count (jobs p) x \<le> count (jobs (rp_pool s)) x" for x by (simp add: j)
  then have "count (jobs p) (Respond i k) \<le> 1" for i k using assms(1) unfolding assigned_def by (meson order_trans)
  moreover have "Respond i k \<in># jobs p \<or> job_over (rp_conns s) (Respond i k)"
    if "i < length (rp_conns s)" "k < length (cw_tasks (rp_conns s ! i))" for i k
  proof (cases "Respond i k = t")
    case False
    then show ?thesis using that assms(1) by (auto simp: assigned_def j)
  qed (use assms(3) in simp)
  moreover have "x \<in># jobs (rp_pool s)" if "x \<in># jobs p" for x using that by (simp add: j)
  ultimately show ?thesis using assms(1) unfolding assigned_def by (simp add: q) blast
qed

text \<open>A task that runs is not queued, so that only its own phase changes.\<close>

lemma assigned_carried:
  assumes "assigned s" and "Running (Respond i j) \<in> set (p_workers (rp_pool s))" and "i < length (rp_conns s)"
    and "run_task K j (rp_conns s ! i) c"
  shows "assigned (s\<lparr>rp_conns := (rp_conns s)[i := c]\<rparr>)"
proof -
  let ?t = "Respond i j"
  have r: "?t \<in># running (p_workers (rp_pool s))" using assms(2) by (simp add: running_member)
  then have job: "?t \<in># jobs (rp_pool s)" by (simp add: jobs_def)
  then have j: "j < length (cw_tasks (rp_conns s ! i))" using assms(1) by (simp add: assigned_def)
  have "count (jobs (rp_pool s)) ?t \<le> 1" using assms(1) by (simp add: assigned_def)
  moreover have "0 < count (running (p_workers (rp_pool s))) ?t" using r by simp
  ultimately have "count (mset (q_data (p_tasks (rp_pool s)))) ?t = 0" unfolding jobs_def count_union by linarith
  then have notq: "?t \<notin> set (q_data (p_tasks (rp_pool s)))" by simp
  note eff = run_task_effect [OF assms(4) j]
  have len: "length (cw_tasks ((rp_conns s)[i := c] ! k)) = length (cw_tasks (rp_conns s ! k))" for k
    using eff(1) assms(3) by (cases "k = i") simp_all
  have same: "phase_of ((rp_conns s)[i := c] ! k) l = phase_of (rp_conns s ! k) l" if "(k, l) \<noteq> (i, j)" for k l
    using eff(3) assms(3) that by (cases "k = i") auto
  have "phase_of ((rp_conns s)[i := c] ! k) l = Waiting"
    if "Respond k l \<in> set (q_data (p_tasks (rp_pool s)))" for k l
    using that notq same [of k l] assms(1) by (auto simp: assigned_def)
  moreover have "Respond k l \<in># jobs (rp_pool s) \<or> job_over ((rp_conns s)[i := c]) (Respond k l)"
    if "k < length (rp_conns s)" "l < length (cw_tasks (rp_conns s ! k))" for k l
    using that job same [of k l] assms(1) by (cases "(k, l) = (i, j)") (auto simp: assigned_def)
  ultimately show ?thesis using assms(1) unfolding assigned_def by (simp add: len)
qed

lemma assigned_worker:
  assumes "assigned s" and "worker_step K s s'"
  shows "assigned s'"
  using assms(2)
proof cases
  case taken
  then show ?thesis using assigned_taken [OF assms(1)] by simp
next
  case carried
  then show ?thesis using assigned_carried [OF assms(1)] by simp
next
  case ended
  then show ?thesis using assigned_ended [OF assms(1)] by simp
qed

lemma assigned_event:
  assumes "assigned s" and "server_event K k0 s s'"
  shows "assigned s'"
  using assms(2)
proof cases
  case accepted
  have old: "(rp_conns s @ [new_writers (new_client k0)]) ! i = rp_conns s ! i" if "i < length (rp_conns s)" for i
    using that by (simp add: nth_append)
  have none: "cw_tasks (new_writers (new_client k0)) = []" by (simp add: new_writers_def)
  have job: "i < length (rp_conns s)" if "Respond i j \<in># jobs (rp_pool s)" for i j
    using assms(1) that by (simp add: assigned_def)
  have queued: "i < length (rp_conns s)" if "Respond i j \<in> set (q_data (p_tasks (rp_pool s)))" for i j
    using job [of i j] that by (simp add: jobs_def)
  show ?thesis
    using assms(1) job queued none unfolding accepted assigned_def by (simp add: old less_Suc_eq all_conj_distrib)
next
  case (responded i p r)
  let ?c = "rp_conns s ! i" let ?n = "length (cw_tasks ?c)"
  let ?cs = "(rp_conns s)[i := submit_response r ?c]"
  have j: "jobs p = add_mset (Respond i ?n) (jobs (rp_pool s))" using jobs_step [OF responded(4)] by simp
  have q: "q_data (p_tasks p) = q_data (p_tasks (rp_pool s)) @ [Respond i ?n]"
    using responded(4) by (auto elim!: pool_stepE simp: push_def)
  have new: "Respond i ?n \<notin># jobs (rp_pool s)" using assms(1) by (auto simp: assigned_def)
  have len: "length (cw_tasks (?cs ! k)) = (if k = i then Suc ?n else length (cw_tasks (rp_conns s ! k)))" for k
    using responded(2,3) by (cases "k = i") (simp_all add: submit_response_def)
  have same: "phase_of (?cs ! k) l = phase_of (rp_conns s ! k) l"
    if "k < length (rp_conns s)" "l < length (cw_tasks (rp_conns s ! k))" for k l
    using responded(2,3) that by (cases "k = i") (simp_all add: submit_response_def phase_of_def nth_append)
  have first: "phase_of (?cs ! i) ?n = Waiting"
    using responded(2,3) by (simp add: submit_response_def phase_of_def)
  have "count (jobs p) (Respond k l) \<le> 1" for k l
    using assms(1) new by (auto simp: j assigned_def not_in_iff)
  moreover have "k < length (rp_conns s) \<and> l < length (cw_tasks (?cs ! k))" if "Respond k l \<in># jobs p" for k l
    using that assms(1) responded(2) by (auto simp: j len assigned_def less_SucI)
  moreover have "phase_of (?cs ! k) l = Waiting" if "Respond k l \<in> set (q_data (p_tasks p))" for k l
    using that assms(1) first same [of k l] by (auto simp: q assigned_def jobs_def)
  moreover have "Respond k l \<in># jobs p \<or> job_over ?cs (Respond k l)"
    if "k < length (rp_conns s)" "l < length (cw_tasks (?cs ! k))" for k l
  proof (cases "l < length (cw_tasks (rp_conns s ! k))")
    case True
    then have "Respond k l \<in># jobs (rp_pool s) \<or> job_over (rp_conns s) (Respond k l)"
      using assms(1) that(1) unfolding assigned_def by blast
    then show ?thesis using same [OF that(1) True] by (auto simp: j)
  next
    case False
    then have "k = i" "l = ?n" using that(2) by (auto simp: len split: if_splits)
    then show ?thesis by (simp add: j)
  qed
  ultimately show ?thesis unfolding responded(1) assigned_def by simp
next
  case (other_job p)
  have "jobs p = add_mset Other (jobs (rp_pool s))" using jobs_step [OF other_job(2)] by simp
  moreover have "q_data (p_tasks p) = q_data (p_tasks (rp_pool s)) @ [Other]"
    using other_job(2) by (auto elim!: pool_stepE simp: push_def)
  ultimately show ?thesis using assms(1) unfolding other_job(1) assigned_def by simp
next
  case (disturbed i c)
  have "phase_of ((rp_conns s)[i := c] ! k) = phase_of (rp_conns s ! k)"
    "cw_tasks ((rp_conns s)[i := c] ! k) = cw_tasks (rp_conns s ! k)" for k
    using disturbed(2,4) by (cases "k = i"; simp add: phase_of_def fun_eq_iff)+
  then show ?thesis using assms(1) unfolding disturbed(1) assigned_def by simp
next
  case worked
  then show ?thesis by (rule assigned_worker [OF assms(1)])
qed

lemma staffed_step:
  assumes "staffed n p" and "pool_step p e p'" and "\<nexists>i. e = Quit i" and "e \<noteq> Stop"
  shows "staffed n p'"
  using assms(2)
proof cases
  case (take i t q)
  then show ?thesis
    using assms(1) tsq.get_item [of "p_tasks p" t q] set_update_subset_insert [of "p_workers p" i]
    by (auto simp: staffed_def)
next
  case (finish i t)
  then show ?thesis using assms(1) set_update_subset_insert [of "p_workers p" i] by (auto simp: staffed_def)
qed (use assms in \<open>auto simp: staffed_def push_def\<close>)

lemma staffed_event: "server_event K k0 s s' \<Longrightarrow> staffed n (rp_pool s) \<Longrightarrow> staffed n (rp_pool s')"
  by (auto elim!: server_event.cases worker_step.cases elim: staffed_step)

lemma sound_carried:
  assumes "assigned s" and "sound_conns K k0 s" and "worker_step K s s'"
  shows "sound_conns K k0 s'"
  using assms(3)
proof cases
  case (carried i j c)
  have "Respond i j \<in># jobs (rp_pool s)" using carried(2) by (simp add: jobs_def running_member)
  then have "j < length (cw_tasks (rp_conns s ! i))" using assms(1) by (simp add: assigned_def)
  then have "writer_step K (rp_conns s ! i) c" using run_task_step [OF carried(4)] by (auto intro: other task)
  moreover have "(writer_step K)\<^sup>*\<^sup>* (new_writers (new_client k0)) (rp_conns s ! i)"
    using assms(2) carried(3) by (simp add: sound_conns_def)
  ultimately have "(writer_step K)\<^sup>*\<^sup>* (new_writers (new_client k0)) c" by (rule rtranclp.rtrancl_into_rtrancl [rotated])
  then show ?thesis
    using assms(2) carried(1) by (auto simp: sound_conns_def dest!: set_update_subset_insert [THEN subsetD])
qed (use assms(2) in \<open>simp_all add: sound_conns_def\<close>)

lemma sound_event:
  assumes "assigned s" and "sound_conns K k0 s" and "server_event K k0 s s'"
  shows "sound_conns K k0 s'"
proof -
  have update: "sound_conns K k0 (s\<lparr>rp_conns := (rp_conns s)[i := c]\<rparr>)"
    if "writer_step K (rp_conns s ! i) c" "i < length (rp_conns s)" for i c
  proof -
    have "(writer_step K)\<^sup>*\<^sup>* (new_writers (new_client k0)) (rp_conns s ! i)"
      using assms(2) that(2) by (simp add: sound_conns_def)
    then have "(writer_step K)\<^sup>*\<^sup>* (new_writers (new_client k0)) c" using that(1) by (rule rtranclp.rtrancl_into_rtrancl)
    then show ?thesis
      using assms(2) by (auto simp: sound_conns_def dest!: set_update_subset_insert [THEN subsetD])
  qed
  from assms(3) show ?thesis
  proof cases
    case (responded i p r)
    then show ?thesis using update [OF submitted, of i r] by (simp add: sound_conns_def)
  next
    case (disturbed i c)
    then show ?thesis using update [OF other] by simp
  next
    case worked
    then show ?thesis by (rule sound_carried [OF assms(1,2)])
  qed (use assms(2) in \<open>auto simp: sound_conns_def\<close>)
qed

lemma pool_invariants:
  assumes "(server_event K k0)\<^sup>*\<^sup>* (new_response_pool n) s"
  shows "assigned s \<and> staffed n (rp_pool s) \<and> sound_conns K k0 s"
  using assms
proof (induction rule: rtranclp_induct)
  case base
  have "running (replicate n Idle) = ({#} :: job multiset)" by (rule running_replicate) simp
  then show ?case
    by (simp add: new_response_pool_def new_pool_def new_queue_def assigned_def staffed_def sound_conns_def jobs_def)
next
  case (step s s')
  then have IH: "assigned s" "staffed n (rp_pool s)" "sound_conns K k0 s" by simp_all
  show ?case
    using assigned_event [OF IH(1) step.hyps(2)] staffed_event [OF step.hyps(2) IH(2)]
      sound_event [OF IH(1,3) step.hyps(2)] by simp
qed

section \<open>Progress\<close>

text \<open>How many steps the workers can still make.\<close>

definition effort :: "'k response_pool \<Rightarrow> nat" where
  "effort s = 2 * length (q_data (p_tasks (rp_pool s))) + size (running (p_workers (rp_pool s))) +
     sum_list (map work (rp_conns s))"

lemma worker_step_effort:
  assumes "assigned s" and "worker_step K s s'"
  shows "effort s' < effort s"
  using assms(2)
proof cases
  case (taken w t p)
  from taken(2) show ?thesis
  proof cases
    case (take q)
    have "running ((p_workers (rp_pool s))[w := Running t]) = add_mset t (running (p_workers (rp_pool s)))"
      using running_update [of w "p_workers (rp_pool s)" "Running t"] take by simp
    then show ?thesis using taken(1) take tsq.get_item [of "p_tasks (rp_pool s)" t q] by (simp add: effort_def)
  qed
next
  case (ended w t p)
  from ended(2) show ?thesis
  proof cases
    case finish
    have "running (p_workers (rp_pool s)) = add_mset t (running ((p_workers (rp_pool s))[w := Idle]))"
      using running_update [of w "p_workers (rp_pool s)" Idle] finish by simp
    then show ?thesis using ended(1) finish by (simp add: effort_def)
  qed
next
  case (carried i j c)
  have "Respond i j \<in># jobs (rp_pool s)" using carried(2) by (simp add: jobs_def running_member)
  then have "j < length (cw_tasks (rp_conns s ! i))" using assms(1) by (simp add: assigned_def)
  then have "work c < work (rp_conns s ! i)" using run_task_step [OF carried(4)] task_step_work by blast
  moreover have "sum_list (map work ((rp_conns s)[i := c])) + work (rp_conns s ! i) =
      sum_list (map work (rp_conns s)) + work c"
    using carried(3) member_le_sum_list [of "work (rp_conns s ! i)" "map work (rp_conns s)"]
    by (simp add: map_update sum_list_update)
  ultimately show ?thesis using carried(1) by (simp add: effort_def)
qed

lemma worker_steps_effort: "(worker_step K ^^ m) s t \<Longrightarrow> assigned s \<Longrightarrow> m + effort t \<le> effort s \<and> assigned t"
proof (induction m arbitrary: t)
  case (Suc m)
  then obtain u where u: "(worker_step K ^^ m) s u" "worker_step K u t" by auto
  then have "m + effort u \<le> effort s" "assigned u" using Suc.IH Suc.prems(2) by auto
  then show ?case using worker_step_effort [OF _ u(2)] assigned_worker [OF _ u(2)] by simp
qed simp

text \<open>
  No deadlock: as long as a task is queued or running, some worker can go on. If a running task cannot, it
  waits for a lock, and the task that holds that lock is running and can.
\<close>

lemma workers_progress:
  assumes "append_send K sent" and "assigned s" and "staffed n (rp_pool s)" and "sound_conns K k0 s"
    and "0 < n" and "\<forall>c \<in> set (rp_conns s). cw_mtx c" and "jobs (rp_pool s) \<noteq> {#}"
  shows "\<exists>s'. worker_step K s s'"
proof (cases "running (p_workers (rp_pool s)) = {#}")
  case True
  then have "Running t \<notin> set (p_workers (rp_pool s))" for t using running_member by (metis set_mset_empty empty_iff)
  moreover have "p_workers (rp_pool s) \<noteq> []" using assms(3,5) by (auto simp: staffed_def)
  ultimately have "p_workers (rp_pool s) ! 0 = Idle" "0 < length (p_workers (rp_pool s))"
    using assms(3) nth_mem [of 0 "p_workers (rp_pool s)"]
    by (cases "p_workers (rp_pool s) ! 0"; force simp: staffed_def)+
  moreover obtain t q where "q_data (p_tasks (rp_pool s)) = t # q"
    using True assms(7) by (cases "q_data (p_tasks (rp_pool s))") (auto simp: jobs_def)
  then obtain q' where "waitAndPop (p_tasks (rp_pool s)) = Some (Some t, q')" by (simp add: waitAndPop_def)
  ultimately have "\<exists>p. pool_step (rp_pool s) (Take 0 t) p" using pool_step.take by metis
  then show ?thesis using taken by blast
next
  case False
  then obtain t where t: "Running t \<in> set (p_workers (rp_pool s))" by (auto simp: running_member multiset_nonemptyE)
  then obtain w where w: "w < length (p_workers (rp_pool s))" "p_workers (rp_pool s) ! w = Running t"
    by (auto simp: in_set_conv_nth)
  show ?thesis
  proof (cases "job_over (rp_conns s) t")
    case True
    then show ?thesis using pool_step.finish [OF w] ended by blast
  next
    case running: False
    then obtain i j where ij: "t = Respond i j" by (cases t) auto
    let ?c = "rp_conns s ! i"
    have "Respond i j \<in># jobs (rp_pool s)" using t ij by (simp add: jobs_def running_member)
    then have lt: "i < length (rp_conns s)" "j < length (cw_tasks ?c)" using assms(2) by (simp_all add: assigned_def)
    have "(writer_step K)\<^sup>*\<^sup>* (new_writers (new_client k0)) ?c" using assms(4) lt(1) by (simp add: sound_conns_def)
    then obtain order xs where inv: "wire_inv sent (sent (c_kernel (new_client k0))) ?c order xs"
      by (rule wire_inv_reach [OF assms(1)])
    have "\<exists>l c. Running (Respond i l) \<in> set (p_workers (rp_pool s)) \<and> run_task K l ?c c"
    proof (cases "cw_holder ?c")
      case (Some l)
      then obtain len left b where l: "l < length (cw_tasks ?c)" "phase_of ?c l = Writing len left b"
        using inv by (auto simp: wire_inv_def midway_def)
      then have "Respond i l \<in># jobs (rp_pool s)" using assms(2) lt(1) by (fastforce simp: assigned_def)
      moreover have "Respond i l \<notin> set (q_data (p_tasks (rp_pool s)))" using assms(2) l(2) by (force simp: assigned_def)
      ultimately have "Running (Respond i l) \<in> set (p_workers (rp_pool s))" by (simp add: jobs_def running_member)
      then show ?thesis using run_task_possible [OF assms(1) inv l(1), of len left b] l(2) by blast
    next
      case None
      have "cw_mtx ?c" using assms(6) lt(1) by simp
      moreover have "phase_of ?c j = Waiting"
      proof (cases "phase_of ?c j")
        case (Writing len left b)
        then show ?thesis using wire_inv_writing(1) [OF inv lt(2)] None by simp
      qed (use running ij in auto)
      ultimately show ?thesis using run_task_possible [OF assms(1) inv lt(2)] None t ij by blast
    qed
    then show ?thesis using carried [OF _ lt(1)] by blast
  qed
qed

text \<open>When all tasks of a connection that is up are over, all its responses have been sent.\<close>

lemma all_over_sent:
  assumes "wire_inv sent start s order xs" and "unfailed s" and "c_connected (cw_client s)"
    and "\<forall>j < length (cw_tasks s). \<exists>r. phase_of s j = Finished r"
  shows "set order = {..<length (cw_tasks s)}" "xs = []"
proof -
  have "cw_holder s = None"
  proof (cases "cw_holder s")
    case (Some i)
    then have "i < length (cw_tasks s)" "midway s i xs" using assms(1) by (simp_all add: wire_inv_def)
    then show ?thesis using assms(4) by (fastforce simp: midway_def)
  qed
  then show "xs = []" using assms(1,3) by (simp add: wire_inv_def remnant_def)
  have "whole s = {..<length (cw_tasks s)}" using assms(2-4) by (auto simp: whole_def unfailed_def)
  then show "set order = {..<length (cw_tasks s)}" using assms(1) by (simp add: wire_inv_def)
qed

text \<open>What stays while only the workers move.\<close>

definition keeps :: "'k response_pool \<Rightarrow> 'k response_pool \<Rightarrow> bool" where
  "keeps s t \<longleftrightarrow>
     length (rp_conns t) = length (rp_conns s) \<and>
     (\<forall>i < length (rp_conns s).
        cw_mtx (rp_conns t ! i) = cw_mtx (rp_conns s ! i) \<and>
        map wt_resp (cw_tasks (rp_conns t ! i)) = map wt_resp (cw_tasks (rp_conns s ! i)) \<and>
        (c_connected (cw_client (rp_conns s ! i)) \<longrightarrow> c_connected (cw_client (rp_conns t ! i))))"

lemma keeps_worker:
  assumes "stream_send K sent taken" and "append_send K sent" and "assigned s" and "sound_conns K k0 s"
    and "worker_step K s s'"
  shows "keeps s s'"
  using assms(5)
proof cases
  case (carried i j c)
  let ?c = "rp_conns s ! i"
  have "Respond i j \<in># jobs (rp_pool s)" using carried(2) by (simp add: jobs_def running_member)
  then have j: "j < length (cw_tasks ?c)" using assms(3) by (simp add: assigned_def)
  note step = run_task_step [OF carried(4) j]
  have "(writer_step K)\<^sup>*\<^sup>* (new_writers (new_client k0)) ?c" using assms(4) carried(3) by (simp add: sound_conns_def)
  then obtain order xs where inv: "wire_inv sent (sent (c_kernel (new_client k0))) ?c order xs"
    by (rule wire_inv_reach [OF assms(2)])
  have "map wt_resp (cw_tasks c) = map wt_resp (cw_tasks ?c)" by (rule conn_step_resps [OF task [OF step]])
  moreover have "c_connected (cw_client c)" if "c_connected (cw_client ?c)"
    by (rule task_step_healthy(1) [OF assms(1) inv that step])
  moreover note run_task_effect(2) [OF carried(4) j]
  ultimately have "cw_mtx ((rp_conns s)[i := c] ! k) = cw_mtx (rp_conns s ! k) \<and>
      map wt_resp (cw_tasks ((rp_conns s)[i := c] ! k)) = map wt_resp (cw_tasks (rp_conns s ! k)) \<and>
      (c_connected (cw_client (rp_conns s ! k)) \<longrightarrow> c_connected (cw_client ((rp_conns s)[i := c] ! k)))" for k
    using carried(3) by (cases "k = i") simp_all
  then show ?thesis by (simp add: carried(1) keeps_def)
qed (simp_all add: keeps_def)

text \<open>The workers do stop.\<close>

lemma workers_stop: "assigned s \<Longrightarrow> \<exists>t. (worker_step K)\<^sup>*\<^sup>* s t \<and> (\<nexists>u. worker_step K t u)"
proof (induction "effort s" arbitrary: s rule: less_induct)
  case less
  show ?case
  proof (cases "\<exists>u. worker_step K s u")
    case True
    then obtain u where u: "worker_step K s u" by blast
    obtain t where "(worker_step K)\<^sup>*\<^sup>* u t" "\<nexists>v. worker_step K t v"
      using less.hyps [OF worker_step_effort assigned_worker] less.prems u by blast
    then show ?thesis using u by (meson converse_rtranclp_into_rtranclp)
  qed blast
qed

lemma keeps_workers:
  assumes "stream_send K sent taken" and "append_send K sent" and "(worker_step K)\<^sup>*\<^sup>* s t"
    and "assigned s" and "staffed n (rp_pool s)" and "sound_conns K k0 s"
  shows "keeps s t \<and> assigned t \<and> staffed n (rp_pool t) \<and> sound_conns K k0 t"
  using assms(3)
proof (induction rule: rtranclp_induct)
  case base
  show ?case using assms(4-6) by (simp add: keeps_def)
next
  case (step t u)
  have IH: "keeps s t" "assigned t" "staffed n (rp_pool t)" "sound_conns K k0 t" using step.IH by simp_all
  have "keeps t u" by (rule keeps_worker [OF assms(1,2) IH(2,4) step.hyps(2)])
  then have "keeps s u" using IH(1) by (simp add: keeps_def)
  then show ?case
    using assigned_worker [OF IH(2) step.hyps(2)] sound_carried [OF IH(2,4) step.hyps(2)]
      staffed_event [OF worked [OF step.hyps(2)] IH(3)] by simp
qed

section \<open>Properties\<close>



end
