(* ===== verification/Tests.thy ===== *)
theory Tests
  imports Conversation WireTheorems
begin

text \<open>
  The programs under \<open>tests/rpc\<close>, run on the model: what their outcome is, and whether it depends on the
  kernel. What they print and log is left out.
\<close>

section \<open>\<open>test_bytearray.cpp\<close>\<close>

text \<open>A string made from \<open>c_str()\<close> ends at the first zero byte.\<close>

definition c_str :: "byte list \<Rightarrow> byte list" where
  "c_str s = takeWhile (\<lambda>c. c \<noteq> 0) s"

text \<open>
  The exit code of \<open>main\<close>; an assertion that fails calls \<open>abort\<close>, the end \<open>std::terminate\<close> comes to as well.
\<close>

definition test_bytearray :: "int outcome" where
  "test_bytearray =
     (let proto = Create RPC_METHOD_REQUEST (str_bytes ''Hello'') 0 in
      rbind (encode proto) (\<lambda>byte.
      rbind (toString byte) (\<lambda>str.
      rbind (writeStringWithoutLength (c_str str) (new_byte_array 4096)) (\<lambda>b.
      rbind (setPosition 0 b) (\<lambda>b.
        case decode new_protocol b of
          Inl e \<Rightarrow> if is_exception e then Inr 1 else Inl e
        | Inr (p, _) \<Rightarrow>
            if p_magic p = p_magic proto \<and> p_type p = p_type proto \<and>
               length (p_content p) = length (p_content proto) \<and> p_version p = p_version proto
            then Inr 0 else Inl Terminate_called)))))"

text \<open>
  The sequence id is 0, so that of the frame only three bytes survive, and reading the frame back throws:
  the test ends with 1.
\<close>

lemma c_str_frame:
  assumes "p_magic p \<noteq> 0" and "p_version p \<noteq> 0" and "p_type p \<noteq> 0" and "p_seq p = 0"
  shows "c_str (frame_bytes p) = take 3 (frame_bytes p)"
proof -
  have "mem_bytes Big (0 :: 32 word) = [0, 0, 0, 0]" by code_simp
  then show ?thesis using assms by (simp add: c_str_def frame_bytes_def header_bytes_def numeral_3_eq_3)
qed

lemma test_bytearray_fails: "test_bytearray = Inr 1"
proof -
  let ?p = "Create RPC_METHOD_REQUEST (str_bytes ''Hello'') 0"
  obtain b where b: "encode ?p = Inr b" "readable False Big b" "ba_rest b = frame_bytes ?p"
    by (rule encode_ok [of False ?p]) simp
  have cut: "c_str (frame_bytes ?p) = take 3 (frame_bytes ?p)"
    by (rule c_str_frame) (simp_all add: Create_def new_protocol_def MAGIC_def DEFAULT_VERSION_def)
  obtain b1 b2 where b2: "writeStringWithoutLength (take 3 (frame_bytes ?p)) (new_byte_array 4096) = Inr b1"
      "setPosition 0 b1 = Inr b2" "readable True Big b2" "ba_rest b2 = take 3 (frame_bytes ?p)"
    by (rule emit_from_new [OF snk.put_emits [of 4096 Big "take 3 (frame_bytes ?p)"], where r = True])
      (auto simp: writeStringWithoutLength_def length_frame_bytes BASE_LENGTH_def)
  have "length (p_content ?p) < 2 ^ 32" by (simp add: Create_def str_bytes_def)
  then have st: "starves (readable True Big) ba_rest (decode new_protocol) (frame_bytes ?p)"
    by (rule decode_starves) simp
  have "3 < length (frame_bytes ?p)" by (simp add: length_frame_bytes BASE_LENGTH_def)
  from starvesD [OF st b2(3) this b2(4)] have "decode new_protocol b2 = Inl Out_of_range" .
  then show ?thesis
    by (simp add: test_bytearray_def b(1) toString_readable [OF b(2)] b(3) cut b2(1,2))
qed

section \<open>\<open>test_serializer.cpp\<close>\<close>

definition test1 :: "key_ops \<Rightarrow> val \<Rightarrow> val \<Rightarrow> rpc_result outcome" where
  "test1 ops junk_r junk_t =
     (let r = (new_result junk_r)\<lparr>r_code := state_code RPC_SUCCESS, r_val := VInt32 23\<rparr>; t = new_result junk_t in
      rbind (ser_result r new_serializer) (\<lambda>s.
      rbind (reset s) (\<lambda>s.
      rbind (deser_result ops TInt32 t s) (\<lambda>(t, _). Inr t))))"

definition test2 :: "key_ops \<Rightarrow> val outcome" where
  "test2 ops =
     (let vec = VCont C_vector [VInt32 1, VInt32 2, VInt32 3, VInt32 4, VInt32 5, VInt32 6] in
      rbind (ser vec new_serializer) (\<lambda>s.
      rbind (reset s) (\<lambda>s.
      rbind (deser ops (TCont C_vector TInt32) s) (\<lambda>(tt, _). Inr tt))))"

text \<open>\<open>Color\<close> has the underlying type \<open>uint8_t\<close>.\<close>

definition Color :: ty where
  "Color = TEnum False 8"

definition GREEN :: val where
  "GREEN = VEnum False 8 1"

definition UserDefine :: ty where
  "UserDefine = TStruct [TInt32, TChar, TString, Color, TCont C_vector TInt32]"

definition test10_user :: val where
  "test10_user = VStruct [VInt32 1, VChar 50, VString [51], GREEN, VCont C_vector [VInt32 4, VInt32 5]]"

definition test10 :: "key_ops \<Rightarrow> val outcome" where
  "test10 ops =
     rbind (ser test10_user new_serializer) (\<lambda>s.
     rbind (reset s) (\<lambda>s.
     rbind (deser ops UserDefine s) (\<lambda>(user, _). Inr user)))"

text \<open>Each test reads back what it wrote.\<close>

lemma read_back:
  assumes "emits (writable 4096 Big) ba_out f bs" and "length bs mod 4096 \<noteq> 0"
    and "parses (readable True Big) ba_rest g bs v"
  shows "rbind (f new_serializer) (\<lambda>s. rbind (reset s) (\<lambda>s. rbind (g s) (\<lambda>(x, _). Inr x))) = Inr v"
proof -
  obtain b1 b where b: "f (new_byte_array 4096) = Inr b1" "setPosition 0 b1 = Inr b"
      "readable True Big b" "ba_rest b = bs"
    by (rule emit_from_new [OF assms(1), where r = True]) (use assms(2) in blast)+
  have "ba_rest b = bs @ []" using b(4) by simp
  then obtain b' where "g b = Inr (v, b')" by (rule parsesD [OF assms(3) b(3)])
  then show ?thesis using b(1,2) by (simp add: new_serializer_def reset_def)
qed

lemma tests_read_back:
  "test1 ops junk_r junk_t = Inr (success_result (VInt32 23))"
  "test2 ops = Inr (VCont C_vector (map VInt32 [1, 2, 3, 4, 5, 6]))"
  "test10 ops = Inr test10_user"
proof -
  have "parses (readable True Big) ba_rest (deser_result ops TInt32 (new_result junk_t))
      (result_bytes (success_result (VInt32 23))) (success_result (VInt32 23))"
    by (rule deser_result_parses) (simp_all add: success_result_def)
  from read_back [OF ser_result_emits _ this]
  show "test1 ops junk_r junk_t = Inr (success_result (VInt32 23))"
    by (simp add: test1_def new_result_def success_result_def result_bytes_def status_bytes_def
        EncodeZigzag32_def varint_bytes.simps)
next
  let ?v = "VCont C_vector (map VInt32 [1, 2, 3, 4, 5, 6])"
  have "parses (readable True Big) ba_rest (deser ops (TCont C_vector TInt32)) (enc Big ?v) ?v"
    by (rule deser_parses) (simp_all add: canonical_def is_map_def)
  from read_back [OF ser_emits _ this] show "test2 ops = Inr ?v"
    by (simp add: test2_def EncodeZigzag32_def varint_bytes.simps)
next
  have "parses (readable True Big) ba_rest (deser ops UserDefine) (enc Big test10_user) test10_user"
    by (rule deser_parses)
      (simp_all add: UserDefine_def Color_def test10_user_def GREEN_def canonical_def is_map_def enum_fits_def)
  from read_back [OF ser_emits _ this] show "test10 ops = Inr test10_user"
    by (simp add: test10_def test10_user_def GREEN_def EncodeZigzag32_def varint_bytes.simps)
qed

section \<open>\<open>test_rpcserver.cpp\<close> and \<open>test_rpcclient.cpp\<close>\<close>

text \<open>Overflow of \<open>int\<close> wraps, as on the machines the program is built for.\<close>

definition test_add :: "unit rpc_method" where
  "test_add =
     \<lparr>m_args = [TInt32, TInt32], m_ret = Some TInt32,
      m_fun = (\<lambda>vs u. case vs of [VInt32 a, VInt32 b] \<Rightarrow> (Inr (VInt32 (a + b)), u)
                              | _ \<Rightarrow> (Inl User_exception, u))\<rparr>"

definition test_sub :: "unit rpc_method" where
  "test_sub =
     \<lparr>m_args = [TInt32, TInt32], m_ret = Some TInt32,
      m_fun = (\<lambda>vs u. case vs of [VInt32 a, VInt32 b] \<Rightarrow> (Inr (VInt32 (a - b)), u)
                              | _ \<Rightarrow> (Inl User_exception, u))\<rparr>"

definition test_hello :: "unit rpc_method" where
  "test_hello = \<lparr>m_args = [], m_ret = Some TString, m_fun = (\<lambda>_ u. (Inr (VString (str_bytes ''hello'')), u))\<rparr>"

definition test_handlers :: "unit handlers" where
  "test_handlers =
     registerMethod (str_bytes ''hello'') test_hello
       (registerMethod (str_bytes ''sub'') test_sub
         (registerMethod (str_bytes ''add'') test_add Map.empty))"

text \<open>The three calls of the client, once it is connected.\<close>

definition test_rpcclient ::
    "'k kernel \<Rightarrow> key_ops \<Rightarrow> val \<Rightarrow> 'k rpc_client \<Rightarrow> (rpc_result list \<times> 'k rpc_client) outcome" where
  "test_rpcclient K ops junk s =
     (let hello = call_method K ops junk TString (str_bytes ''hello'') None in
      rbind (hello s) (\<lambda>(ret, s).
      rbind (hello s) (\<lambda>(ret1, s).
      rbind (hello s) (\<lambda>(ret2, s). Inr ([ret, ret1, ret2], s)))))"

lemma no_arguments: "call_method K ops junk t name None = call_method K ops junk t name (Some [])"
  by (simp add: fun_eq_iff call_method_request args_bytes_def)

lemma test_rpcclient_calls:
  "test_rpcclient K ops junk s = call_all K ops junk (replicate 3 (TString, str_bytes ''hello'', [])) s"
  by (simp add: test_rpcclient_def no_arguments numeral_3_eq_3 rbind_assoc split_def Let_def)

lemma test_hello_callable: "callable ops test_handlers (replicate n (TString, str_bytes ''hello'', [])) u"
proof (induction n arbitrary: u)
  case (Suc n)
  have "result_fits ops test_hello (VString (str_bytes ''hello''))"
    by (simp add: result_fits_def test_hello_def return_type_def sent_val_def result_bytes_def status_bytes_def
        success_result_def str_bytes_def varint_bytes.simps)
  then show ?case
    using Suc.IH by (simp add: test_handlers_def registerMethod_def test_hello_def return_type_def
        well_typed_args_def args_bytes_def request_fits_def request_bytes_def str_bytes_def
        varint_bytes.simps)
qed simp

text \<open>
  Over any stream socket to the server of \<open>test_rpcserver.cpp\<close>, the client of \<open>test_rpcclient.cpp\<close> gets
  \<open>hello\<close> three times.
\<close>

lemma test_rpcclient_says_hello:
  assumes "fresh_link K sent taken (answers ops junks test_handlers ()) s"
  shows "\<exists>c. test_rpcclient K ops junk s =
    Inr (replicate 3 (success_result (VString (str_bytes ''hello''))), s\<lparr>rc_client := c\<rparr>) \<and> c_connected c"
proof -
  let ?cs = "replicate 3 (TString, str_bytes ''hello'', [])"
  have run: "fst (run_locally test_handlers (replicate n (TString, str_bytes ''hello'', [])) ()) =
      replicate n (VString (str_bytes ''hello''))" for n
    by (induction n)
      (simp_all add: test_handlers_def registerMethod_def test_hello_def sent_val_def case_prod_beta)
  show ?thesis
    using call_all_from [of K sent taken ops junks test_handlers "()" "[]" "[]" s "()" ?cs junk]
      assms test_hello_callable [of ops 3]
    by (auto simp: test_rpcclient_calls run fresh_link_open)
qed

end
