(* ===== verification/Spec2Isabelle.thy ===== *)
theory Spec2Isabelle
  imports ConcurrentCalls FileTheorems WireTheorems TypeSafety Reflection Logger Startup
    BlockMemory ResponsePool Tests
begin

text \<open>
  This development models TrivialRPC, a C++ library for remote procedure calls over TCP, and proves
  what makes it correct. Paths are relative to \<open>src/\<close>.

  \<^bold>\<open>The program.\<close> A client serialises the name and the arguments of a call (\<open>include/rpc/Serializer.h\<close>)
  into a buffer (\<open>src/base/ByteArray.cpp\<close>), wraps them in a frame (\<open>include/rpc/Protocol.h\<close>) and sends it
  over a non-blocking socket (\<open>src/rpc/RPCSession.cpp\<close>, \<open>src/net/Client.cpp\<close>). The server accepts
  connections in an event loop (\<open>src/net/TcpServer.cpp\<close>), drains a readable socket in a task of a thread
  pool (\<open>include/base/ThreadPool.hpp\<close>), decodes the frame, calls the registered function through a typed
  proxy (\<open>include/rpc/RPCServer.h\<close>) and sends back a frame with the result (\<open>include/rpc/RPCCommon.h\<close>).
  Servers register with ZooKeeper and clients look them up there (\<open>src/rpc/ZKClient.cpp\<close>). All parts log
  through an asynchronous writer (\<open>src/base/AsyncLogger.cpp\<close>).

  \<^bold>\<open>Conventions.\<close> A C++ function that can throw or run into undefined behaviour returns an \<open>outcome\<close>
  (theory \<open>Prelude\<close>): \<open>Inr\<close> a result or \<open>Inl\<close> an \<open>error\<close>, of which \<open>is_exception\<close> singles out those a
  C++ program can catch. State is passed explicitly. Integers that can wrap are words; sizes are
  natural numbers, with \<open>usub\<close> for the subtractions of \<open>size_t\<close> that may wrap. Memory that was never
  written is a cell \<open>None\<close>. Whatever the program calls but does not contain is a parameter: the kernel
  (\<open>kernel\<close>, \<open>connector\<close>, \<open>sender\<close>, \<open>reader_kernel\<close>, \<open>boot\<close>), ZooKeeper (\<open>zookeeper\<close>), the registered
  functions (\<open>rpc_method\<close>), the order and equality of container keys (\<open>key_ops\<close>). What the proofs need of
  a parameter is a named hypothesis, with an instance in the witness of each property.

  \<^bold>\<open>The buffer.\<close> \<open>Endian\<close> models \<open>byte_swap\<close> and \<open>endian_cast\<close> of \<open>include/base/util.h\<close>. \<open>ByteArray\<close>
  models the chain of blocks, with \<open>cur_\<close> as an index into the list of blocks (its length when the
  pointer is null); \<open>ByteArraySpec\<close> states the chain invariant \<open>ba_inv\<close>, and \<open>Tape\<close> proves that each
  operation of the chain is the operation of a tape of cells with a position. \<open>Scatter\<close> models the
  kernel's use of the \<open>iovec\<close>s. \<open>BlockHeap\<close> has the same operations on nodes in memory, as the code has them:
  \<open>new\<close> takes an address from an allocator that is a parameter, \<open>next_\<close>, \<open>root_\<close> and \<open>cur_\<close> are pointers,
  \<open>clear\<close> and the destructor \<open>delete\<close>, and a pointer to a freed node is the error \<open>Use_after_free\<close>.
  \<open>BlockMemory\<close> proves that they refine the operations of the chain and leave no block behind. \<open>BufferTheorems\<close>
  and \<open>FileTheorems\<close> hold the other properties.

  \<^bold>\<open>Codecs.\<close> \<open>Stream\<close> defines when a reader \<open>parses\<close> a byte string, a writer \<open>emits\<close> one, and when a
  reader starves on a prefix, over the interfaces \<open>byte_source\<close> and \<open>byte_sink\<close>; \<open>Codec\<close> models the typed
  operations of \<open>ByteArray\<close> on them and interprets both interfaces by the buffer. \<open>Varint\<close> models the
  zigzag and variable-length codings. \<open>Serializer\<close> models both directions of the serializer, one
  constructor of \<open>ty\<close> for each type its overloads distinguish; \<open>SerializerSpec\<close> proves that they emit and
  parse one wire format; \<open>TypeSafety\<close> what reading guarantees on arbitrary bytes; \<open>Reflection\<close> how
  \<open>include/base/Reflection.hpp\<close> finds and visits the members of an aggregate. \<open>Protocol\<close> and \<open>RPCCommon\<close>
  model frames and results. \<open>WireTheorems\<close> holds the properties.

  \<^bold>\<open>Calls.\<close> \<open>Session\<close> models the transfers of whole frames over a kernel that splits them at will, and
  \<open>SessionSpec\<close> proves them correct over a stream socket and safe over any; \<open>Receive\<close> models the draining
  of a socket; \<open>RPCServer\<close> the dispatch of a call; \<open>RPCClient\<close> connecting and calling; \<open>Network\<close> joins both
  ends, and \<open>Conversation\<close> any sequence of calls over one connection. The properties of the parts are in
  \<open>CallTheorems\<close>, those of whole calls and of programs of calls below.

  \<^bold>\<open>Concurrent calls.\<close> \<open>ResponseWriters\<close> cuts the task that sends a response (\<open>submit_response\<close>) into its
  steps: taking the write lock of its connection, one \<open>send\<close> after the other, releasing the lock; the
  tasks of a connection, the kernel, lost connections and the cleaner interleave at will. Its invariant
  gives the properties of \<open>ResponseTheorems\<close>: responses are never mixed on the wire, every one is sent,
  and a task that runs alone is the session's \<open>sendProtocol\<close>. \<open>RPCSystem\<close> puts packets, the dispatch of
  calls and these tasks together for all connections of a server; \<open>ConcurrentCalls\<close> shows that the calls
  of many clients then have the effect of local calls made one after the other. \<open>ResponsePool\<close> runs the tasks
  in the thread pool: a task that waits for a write lock keeps its worker, and still no number of workers
  deadlocks and every response is sent.

  \<^bold>\<open>Servers, clients and threads.\<close> \<open>TaskQueue\<close> models \<open>ThreadSafeQueue\<close> and \<open>ThreadPool\<close>: each operation
  runs under the mutex and is one step of a transition system of submitters, workers and the
  destructor; the interface \<open>stoppable_queue\<close> states what the pool relies on. \<open>TcpServer\<close> models the table
  of connections, broadcasts, the cleaner and the one-shot events; \<open>ServerLoop\<close> starting, the handling of
  events and the invariant of the table over time. \<open>TcpClient\<close> models the send buffer, \<open>ClientLoop\<close>
  connecting, the receiving thread and closing. \<open>Registry\<close> and \<open>Discovery\<close> model registration and lookup
  with ZooKeeper. \<open>Startup\<close> models what comes before and around these: \<open>FileDescriptor\<close>, the opening of
  non-blocking sockets and the resolution of addresses, the ZooKeeper session, the constructors, and the
  endless loops \<open>run\<close> and \<open>remove_dead_clients\<close> of the server.

  \<^bold>\<open>Logging.\<close> \<open>Logging\<close> models the log buffers, the formatting stream and the writer thread; \<open>Logger\<close> the
  clock that all log lines share, the line a log statement makes, and the whole system from statement
  to file.

  \<^bold>\<open>Tests.\<close> \<open>Tests\<close> runs the programs of \<open>tests/rpc\<close> on the model: what the serializer test reads back, the
  three calls of the client test against the functions of the server test, and the exit code of the buffer
  test.

  \<^bold>\<open>Bounds and loops.\<close> Loops over blocks, bytes left and table entries are recursive functions with a
  measure. Loops whose end depends on the kernel (\<open>connect_loop\<close>, \<open>receive_loop\<close>, \<open>send_loop\<close>,
  \<open>recv_loop\<close>), the loops along \<open>next_\<close> pointers, which a cycle would keep going, and the counting of members are partial functions with \<open>None\<close> for not returning; the
  properties prove that they return. The endless loops of the server are run for the rounds of a list.
  Where a property assumes that a length is not a multiple of 4096, or of a result that reading it does
  not end with an empty read there (\<open>result_fits\<close>), that is the one case in which \<open>ByteArray::read\<close> of
  nothing at the end of a full chain dereferences a null pointer
  (\<open>BufferTheorems.buffer_empty_read_at_end\<close>). Lengths below \<open>2 ^ 31\<close> are those an \<open>int\<close> parameter keeps.

  \<^bold>\<open>Not modelled.\<close> The weak memory model: data that the code accesses without a lock is taken to change
  atomically. What the other parts log, which has no effect on their results. The configuration file (a
  library), the system calls and the resolver beyond their answers, the printing functions for
  debugging, and the futures returned by \<open>submit\<close>, which nothing reads.
\<close>

section \<open>A remote call from end to end\<close>







end
